(* ===== verification/Prelude.thy ===== *)
theory Prelude
  imports Main "HOL-Library.Word"
begin

text \<open>
  The vocabulary every component shares: Go's fixed-width integers as words, byte slices as lists
  of 8-bit words, the error values of the modelled packages, the sequencing of fallible steps
  (\<open>if err != nil { return err }\<close>) and the standard library's \<open>sort.Search\<close>.
\<close>

unbundle bit_operations_syntax

section \<open>Types\<close>

type_synonym byte = "8 word"
type_synonym bytes = "8 word list"
type_synonym u16 = "16 word"
type_synonym u32 = "32 word"
type_synonym u64 = "64 word"

named_theorems codec_simps "decoder equations on well-formed input"
named_theorems go_defs "definitions of the small Go helpers"

section \<open>Errors\<close>

text \<open>
  One constructor per error value the modelled code returns. Errors built with \<open>fmt.Errorf\<close>
  carry the data the message prints where a caller can observe it; a panic is a value too.
\<close>

datatype error =
    ErrShortBuffer
  | ErrUnknownVersion
  | ErrCRCMismatch
  | ErrUnknownOp byte
  | ErrUnknownColType u32
  | ErrOriginMismatch
  | ErrTrailingBytes nat
  | ErrTooManyDeps nat
  | ErrDeleteColumns u64
  | ErrCatalogOpVersion u64
  | ErrMalformedEnvelope u64
  | ErrCatalogOpKind u64
  | ErrUnsupportedKind byte
  | ErrEncodeUnknownKind
  | ErrNestedBundle
  | ErrExtensionTag
  | ErrColumnFlags byte
  | ErrPredicateNodes
  | ErrPredicateOp byte
  | ErrCounterValue
  | ErrNullKeyMember
  | ErrKeyTypeTag u32
  | ErrTruncatedTuple nat
  | ErrTupleLength nat
  | ErrShortHeader
  | ErrBadMagic
  | ErrUnsupportedVersion
  | ErrBadHeaderCRC
  | ErrEndOfData
  | ErrInvalidRecord
  | ErrPending
  | ErrEOF
  | ErrRecordCRC nat
  | ErrSegmentFull
  | ErrSegmentSize
  | ErrMidJournalCorruption nat
  | ErrNoFile
  | ErrMmap
  | ErrNoSegments
  | ErrJournalClosed
  | ErrKindRequired
  | ErrPayloadTooLarge
  | ErrSealRoom
  | ErrSegmentNotFound u32
  | ErrOffsetRange
  | ErrPayloadOrigin u64 u64
  | ErrSelfLogUncaptured u64 u64
  | PanicIndex
  | PanicMakeSlice
  | PanicClockRange
  | PanicDepsLowered
  | PanicKeyCount nat

type_synonym 'a result = "error + 'a"

definition bindE :: "error + 'a \<Rightarrow> ('a \<Rightarrow> error + 'b) \<Rightarrow> error + 'b" where
  "bindE m f = (case m of Inl e \<Rightarrow> Inl e | Inr x \<Rightarrow> f x)"

lemma bindE_simps [simp]:
  "bindE (Inl e) f = Inl e"
  "bindE (Inr x) f = f x"
  by (simp_all add: bindE_def)

lemma bindE_Inr_iff: "bindE m f = Inr y \<longleftrightarrow> (\<exists>x. m = Inr x \<and> f x = Inr y)"
  by (cases m) auto

lemma bindE_cong [fundef_cong]:
  "m = m' \<Longrightarrow> (\<And>x. m' = Inr x \<Longrightarrow> f x = f' x) \<Longrightarrow> bindE m f = bindE m' f'"
  by (cases m') auto

text \<open>A loop that applies a fallible step to each element and stops at the first error.\<close>

fun mapE :: "('a \<Rightarrow> error + 'b) \<Rightarrow> 'a list \<Rightarrow> error + 'b list" where
  "mapE f [] = Inr []"
| "mapE f (x # xs) = bindE (f x) (\<lambda>y. bindE (mapE f xs) (\<lambda>ys. Inr (y # ys)))"

lemma mapE_cong [fundef_cong]:
  "xs = ys \<Longrightarrow> (\<And>x. x \<in> set ys \<Longrightarrow> f x = g x) \<Longrightarrow> mapE f xs = mapE g ys"
  by (induction ys arbitrary: xs) auto

lemma mapE_Inr: "mapE (\<lambda>x. Inr (f x)) xs = Inr (map f xs)"
  by (induction xs) auto

lemma mapE_ok: "\<forall>x \<in> set xs. f x = Inr (g x) \<Longrightarrow> mapE f xs = Inr (map g xs)"
  by (induction xs) auto

text \<open>A loop over a slice that updates a state and stops at the first error.\<close>

fun foldE :: "('a \<Rightarrow> 's \<Rightarrow> error + 's) \<Rightarrow> 'a list \<Rightarrow> 's \<Rightarrow> error + 's" where
  "foldE f [] s = Inr s"
| "foldE f (x # xs) s = bindE (f x s) (\<lambda>s. foldE f xs s)"

section \<open>Lists\<close>

lemma take_append_exact [simp]: "length xs = n \<Longrightarrow> take n (xs @ ys) = xs"
  by simp

lemma drop_append_exact [simp]: "length xs = n \<Longrightarrow> drop n (xs @ ys) = ys"
  by simp

section \<open>Search: the standard library's binary search\<close>

text \<open>
  \<open>sort.Search(n, f)\<close> keeps \<open>f(i-1) == false, f(j) == true\<close> and halves \<open>[i, j)\<close>;
  \<open>slices.BinarySearchFunc\<close> with a comparison that is never 0 runs the same loop.
\<close>

function search_loop :: "(nat \<Rightarrow> bool) \<Rightarrow> nat \<Rightarrow> nat \<Rightarrow> nat" where
  "search_loop f i j =
     (if i < j
      then let h = (i + j) div 2
           in if \<not> f h then search_loop f (Suc h) j else search_loop f i h
      else i)"
  by pat_completeness auto
termination
  by (relation "measure (\<lambda>(f, i, j). j - i)") auto

declare search_loop.simps [simp del]

definition sort_Search :: "nat \<Rightarrow> (nat \<Rightarrow> bool) \<Rightarrow> nat" where
  "sort_Search n f = search_loop f 0 n"

lemma search_loop_correct:
  assumes mono: "\<And>k l. f k \<Longrightarrow> k \<le> l \<Longrightarrow> l < n \<Longrightarrow> f l"
  shows "\<lbrakk>i \<le> j; \<forall>k < i. \<not> f k; j \<le> n; j < n \<longrightarrow> f j\<rbrakk> \<Longrightarrow> search_loop f i j \<le> j \<and>
    (\<forall>k < search_loop f i j. \<not> f k) \<and> (search_loop f i j < n \<longrightarrow> f (search_loop f i j))"
proof (induction "j - i" arbitrary: i j rule: less_induct)
  case less
  show ?case
  proof (cases "i < j")
    case False
    then have "search_loop f i j = i" by (simp add: search_loop.simps [of f i j])
    with False less.prems show ?thesis by auto
  next
    case True
    define h where "h = (i + j) div 2"
    have h: "i \<le> h" "h < j" using True by (auto simp: h_def)
    show ?thesis
    proof (cases "f h")
      case False
      have below: "\<forall>k < Suc h. \<not> f k"
      proof (intro allI impI notI)
        fix k assume "k < Suc h" "f k"
        then have "f h" using mono [of k h] h less.prems(3) by simp
        with False show False ..
      qed
      have "search_loop f i j = search_loop f (Suc h) j"
        using True False by (simp add: search_loop.simps [of f i j] h_def Let_def)
      with less.hyps [of j "Suc h"] below h less.prems show ?thesis by simp
    next
      case fh: True
      have "search_loop f i j = search_loop f i h"
        using True fh by (simp add: search_loop.simps [of f i j] h_def Let_def)
      with less.hyps [of h i] fh h less.prems show ?thesis
        by (auto simp: diff_less_mono)
    qed
  qed
qed

text \<open>On a predicate that is monotone on \<open>[0, n)\<close>, the result is the first index where it holds.\<close>

lemma sort_Search_least:
  assumes "\<And>k l. f k \<Longrightarrow> k \<le> l \<Longrightarrow> l < n \<Longrightarrow> f l"
  shows "sort_Search n f \<le> n \<and> (\<forall>k < sort_Search n f. \<not> f k) \<and>
    (sort_Search n f < n \<longrightarrow> f (sort_Search n f))"
  unfolding sort_Search_def
  by (rule search_loop_correct [where n = n]) (use assms in blast, simp_all)

text \<open>
  On a list whose prefix satisfies \<open>P\<close> (as every list sorted by the searched key does), the search
  for the first element failing \<open>P\<close> splits the list where \<open>takeWhile\<close> does.
\<close>

lemma takeWhile_prefix_nth:
  assumes "sorted_wrt (\<lambda>a b. P b \<longrightarrow> P a) xs" and "i < length xs"
  shows "P (xs ! i) \<longleftrightarrow> i < length (takeWhile P xs)"
proof
  assume Pi: "P (xs ! i)"
  have "P (xs ! j)" if "j \<le> i" for j
    using assms Pi that by (cases "j < i") (auto simp: sorted_wrt_iff_nth_less)
  then show "i < length (takeWhile P xs)"
    using assms(2) length_takeWhile_less_P_nth [of "Suc i" P xs] by (auto simp: less_Suc_eq_le)
qed (metis nth_mem set_takeWhileD takeWhile_nth)

lemma dropWhile_prefix_fails:
  assumes "sorted_wrt (\<lambda>a b. P b \<longrightarrow> P a) xs"
  shows "\<forall>y \<in> set (dropWhile P xs). \<not> P y"
  using assms
proof (induction xs)
  case (Cons x xs)
  have x: "\<forall>y \<in> set xs. P y \<longrightarrow> P x" and xs: "sorted_wrt (\<lambda>a b. P b \<longrightarrow> P a) xs"
    using Cons.prems unfolding sorted_wrt.simps by blast+
  show ?case
  proof (cases "P x")
    case True
    then have "dropWhile P (x # xs) = dropWhile P xs" by simp
    then show ?thesis using Cons.IH [OF xs] by (simp only:)
  next
    case False
    then have "dropWhile P (x # xs) = x # xs" by simp
    then show ?thesis using x False by (simp only: list.set) blast
  qed
qed simp

lemma sort_Search_takeWhile:
  assumes "sorted_wrt (\<lambda>a b. P b \<longrightarrow> P a) xs"
  shows "sort_Search (length xs) (\<lambda>i. \<not> P (xs ! i)) = length (takeWhile P xs)"
proof -
  let ?f = "\<lambda>i. \<not> P (xs ! i)" and ?k = "sort_Search (length xs) (\<lambda>i. \<not> P (xs ! i))"
  have "?f k \<Longrightarrow> k \<le> l \<Longrightarrow> l < length xs \<Longrightarrow> ?f l" for k l
    using takeWhile_prefix_nth [OF assms] by auto
  then have k: "?k \<le> length xs" "\<forall>j < ?k. P (xs ! j)" "?k < length xs \<longrightarrow> \<not> P (xs ! ?k)"
    using sort_Search_least [of ?f "length xs"] by blast+
  have "?k \<le> length (takeWhile P xs)"
    by (rule length_takeWhile_less_P_nth) (use k in auto)
  moreover have "\<not> ?k < length (takeWhile P xs)"
    using k(3) takeWhile_prefix_nth [OF assms, of ?k] length_takeWhile_le [of P xs] by auto
  ultimately show ?thesis by simp
qed

section \<open>Successors of unsigned integers\<close>

lemma unat_u64_lt: "unat (v :: u64) < 18446744073709551616"
proof -
  have "unat v < 2 ^ LENGTH(64)" by (rule unsigned_less)
  then show ?thesis by simp
qed

lemma unat_succ: "a < b \<Longrightarrow> unat (a + 1) = Suc (unat (a :: u64))"
  using unat_u64_lt [of b] by (simp add: unat_word_ariths word_less_nat_alt)

lemma atMost_Suc_word: "a + 1 = b \<Longrightarrow> a < b \<Longrightarrow> x \<le> b \<longleftrightarrow> x \<le> a \<or> x = (b :: u64)"
  using unat_succ [of a b] by (auto simp: word_le_nat_alt word_less_nat_alt word_unat_eq_iff)

lemma u64_less_max: "a \<noteq> - 1 \<Longrightarrow> a < (- 1 :: u64)"
  by (simp add: order.not_eq_order_implies_strict)

lemma unat_succ_max: "a \<noteq> - 1 \<Longrightarrow> unat (a + 1) = Suc (unat (a :: u64))"
  using u64_less_max unat_succ by blast

lemma u64_less_succ: "a \<noteq> - 1 \<Longrightarrow> a < a + (1 :: u64)"
  by (simp add: word_less_nat_alt unat_succ_max)

end
