(* ===== verification/Convergence.thy ===== *)
theory Convergence
  imports Prelude
begin

text \<open>
  Two interfaces the CRDT layers share. \<open>arbiter\<close> is what last-writer-wins needs of a
  domination test: a strict total order. \<open>replicated\<close> is what a replica needs of an operation that is
  delivered in any order and more than once: the state invariant is kept, compatible operations
  commute, and repeating one changes nothing. From these laws alone, two replicas that received
  the same set of operations hold the same state.
\<close>

section \<open>Delivery in any order, with repetitions\<close>

locale replicated =
  fixes deliver :: "'op \<Rightarrow> 's \<Rightarrow> 's"
    and inv :: "'s \<Rightarrow> bool"
    and ok :: "'op \<Rightarrow> bool"
    and compat :: "'op \<Rightarrow> 'op \<Rightarrow> bool"
  assumes keeps: "ok a \<Longrightarrow> inv s \<Longrightarrow> inv (deliver a s)"
    and commute: "ok a \<Longrightarrow> ok b \<Longrightarrow> compat a b \<Longrightarrow> inv s \<Longrightarrow>
      deliver a (deliver b s) = deliver b (deliver a s)"
    and idem: "ok a \<Longrightarrow> inv s \<Longrightarrow> deliver a (deliver a s) = deliver a s"
begin

lemma fold_keeps: "\<forall>a \<in> set xs. ok a \<Longrightarrow> inv s \<Longrightarrow> inv (fold deliver xs s)"
  by (induction xs arbitrary: s) (simp_all add: keeps)

lemma fold_move:
  assumes "ok a" and "\<forall>b \<in> set xs. ok b \<and> compat b a" and "inv s"
  shows "fold deliver xs (deliver a s) = deliver a (fold deliver xs s)"
  using assms
proof (induction xs arbitrary: s)
  case (Cons b xs)
  have "fold deliver (b # xs) (deliver a s) = fold deliver xs (deliver a (deliver b s))"
    using Cons.prems by (simp add: commute [of b a])
  also have "\<dots> = deliver a (fold deliver xs (deliver b s))"
    using Cons.prems by (intro Cons.IH) (simp_all add: keeps)
  finally show ?case by simp
qed simp

lemma fold_swap:
  assumes "\<forall>a \<in> set xs. \<forall>b \<in> set ys. ok a \<and> ok b \<and> compat b a" and "inv s"
    and "\<forall>b \<in> set ys. ok b"
  shows "fold deliver xs (fold deliver ys s) = fold deliver ys (fold deliver xs s)"
  using assms
proof (induction xs arbitrary: s)
  case (Cons a xs)
  show ?case
  proof (cases "ys = []")
    case False
    then have "ok a" using Cons.prems(1) by (cases ys) auto
    with Cons.prems have "fold deliver (a # xs) (fold deliver ys s) = fold deliver xs (fold deliver ys (deliver a s))"
      by (simp add: fold_move)
    also have "\<dots> = fold deliver ys (fold deliver xs (deliver a s))"
      using Cons.prems \<open>ok a\<close> by (intro Cons.IH) (simp_all add: keeps)
    finally show ?thesis by simp
  qed simp
qed simp

lemma absorb:
  assumes "a \<in> set xs" and "ok a" and "\<forall>b \<in> set xs. ok b \<and> compat b a" and "inv s"
  shows "deliver a (fold deliver xs s) = fold deliver xs s"
proof -
  obtain us vs where xs: "xs = us @ a # vs" using assms(1) by (auto dest: split_list)
  let ?t = "fold deliver us s"
  have t: "inv ?t" using assms(3,4) xs by (simp add: fold_keeps)
  have "deliver a (fold deliver xs s) = fold deliver vs (deliver a (deliver a ?t))"
    using assms xs t by (simp add: fold_move keeps)
  then show ?thesis using assms(2) t xs by (simp add: idem)
qed

lemma absorb_all:
  assumes "set xs \<subseteq> set ys" and "\<forall>a \<in> set ys. ok a" and "\<forall>a \<in> set ys. \<forall>b \<in> set ys. compat a b"
    and "inv s"
  shows "fold deliver xs (fold deliver ys s) = fold deliver ys s"
  using assms(1) by (induction xs) (auto simp: absorb assms)

lemma converges:
  assumes "set xs = set ys" and "\<forall>a \<in> set xs. ok a"
    and "\<forall>a \<in> set xs. \<forall>b \<in> set xs. compat a b" and "inv s"
  shows "fold deliver xs s = fold deliver ys s"
proof -
  have "fold deliver xs s = fold deliver ys (fold deliver xs s)"
    using assms by (simp add: absorb_all)
  also have "\<dots> = fold deliver xs (fold deliver ys s)"
    using assms by (intro fold_swap) auto
  also have "\<dots> = fold deliver ys s" using assms by (simp add: absorb_all)
  finally show ?thesis .
qed

end

section \<open>Last writer wins\<close>

text \<open>
  \<open>lww_put\<close> is the guarded write of a last-writer-wins register: \<open>key\<close> of the incoming value must
  strictly dominate the key held.
\<close>

definition lww_put :: "('k \<Rightarrow> 'k \<Rightarrow> bool) \<Rightarrow> ('v \<Rightarrow> 'k) \<Rightarrow> 'v \<Rightarrow> 'v \<Rightarrow> 'v" where
  "lww_put dominates key new cur = (if dominates (key new) (key cur) then new else cur)"

locale arbiter =
  fixes dominates :: "'k \<Rightarrow> 'k \<Rightarrow> bool"
  assumes irrefl: "\<not> dominates a a"
    and trans: "dominates a b \<Longrightarrow> dominates b c \<Longrightarrow> dominates a c"
    and total: "a \<noteq> b \<Longrightarrow> dominates a b \<or> dominates b a"
begin

lemma asym: "dominates a b \<Longrightarrow> \<not> dominates b a"
  using irrefl trans by blast

lemma lww_keeps_highest: "\<not> dominates (key cur) (key (lww_put dominates key new cur))"
  by (simp add: lww_put_def irrefl asym)

lemma lww_idem: "lww_put dominates key a (lww_put dominates key a s) = lww_put dominates key a s"
  by (simp add: lww_put_def irrefl)

lemma lww_commute:
  assumes "key a = key b \<longrightarrow> a = b"
  shows "lww_put dominates key a (lww_put dominates key b s) =
    lww_put dominates key b (lww_put dominates key a s)"
proof (cases "key a = key b")
  case False
  then consider "dominates (key a) (key b)" | "dominates (key b) (key a)" using total by blast
  then show ?thesis
    by cases (auto simp: lww_put_def dest: asym trans)
qed (use assms in simp)

lemma lww_replicated:
  "replicated (lww_put dominates key) (\<lambda>_. True) (\<lambda>_. True) (\<lambda>a b. key a = key b \<longrightarrow> a = b)"
  by unfold_locales (auto simp: lww_idem intro: lww_commute)

end

end
