(* ===== verification/Bytes.thy ===== *)
theory Bytes
  imports Prelude
begin

text \<open>
  What the modelled code uses of Go's \<open>encoding/binary\<close> and \<open>hash/crc64\<close>: big-endian
  fixed-width integers, unsigned varints with the library's overflow rule, and the table-driven
  CRC-64 with the ECMA polynomial; the field readers and writers of \<open>crdt/catalog_op.go\<close>
  (16-byte ids, booleans, length-prefixed strings), and the interface \<open>codec\<close> they all meet:
  decoding what was encoded returns the value and exactly the bytes that followed it.
\<close>

section \<open>Big-endian integers\<close>

text \<open>
  \<open>put_be n v\<close> is the \<open>n\<close> low bytes of \<open>v\<close>, highest first: \<open>binary.BigEndian.AppendUint16/32/64\<close>
  for \<open>n\<close> = 2, 4, 8. \<open>be_word\<close> is the reader. A Go array \<open>[16]byte\<close> is a 128-bit word, its bytes
  read in order: every value of the array type is one word and conversely (\<open>be_word_put_be\<close>,
  \<open>put_be_be_word\<close>), equality of arrays is equality of words, and the zero array is 0.
\<close>

type_synonym id16 = "128 word"

definition put_be :: "nat \<Rightarrow> 'a::len word \<Rightarrow> bytes" where
  "put_be n v = map (\<lambda>i. ucast (drop_bit (8 * i) v)) (rev [0..<n])"

definition be_word :: "bytes \<Rightarrow> 'a::len word" where
  "be_word bs = foldl (\<lambda>v c. push_bit 8 v OR ucast c) 0 bs"

abbreviation put_u16 :: "u16 \<Rightarrow> bytes" where "put_u16 \<equiv> put_be 2"
abbreviation put_u32 :: "u32 \<Rightarrow> bytes" where "put_u32 \<equiv> put_be 4"
abbreviation put_u64 :: "u64 \<Rightarrow> bytes" where "put_u64 \<equiv> put_be 8"
abbreviation put_id :: "id16 \<Rightarrow> bytes" where "put_id \<equiv> put_be 16"

lemma length_put_be [simp]: "length (put_be n v) = n"
  by (simp add: put_be_def)

lemma put_be_Suc: "put_be (Suc n) v = ucast (drop_bit (8 * n) v) # put_be n v"
  by (simp add: put_be_def)

lemma foldl_put_be:
  fixes a v :: "'a::len word"
  shows "foldl (\<lambda>v c. push_bit 8 v OR ucast c) a (put_be n v) = push_bit (8 * n) a OR take_bit (8 * n) v"
proof (induction n arbitrary: a)
  case 0
  then show ?case by (simp add: put_be_def)
next
  case (Suc n)
  have "push_bit (8 * n) (push_bit 8 a OR ucast (ucast (drop_bit (8 * n) v) :: byte)) OR take_bit (8 * n) v
    = push_bit (8 * Suc n) a OR take_bit (8 * Suc n) v"
    by (rule bit_word_eqI) (auto simp: bit_simps add.commute)
  then show ?case by (simp add: put_be_Suc Suc.IH)
qed

lemma be_word_put_be: "LENGTH('a) \<le> 8 * n \<Longrightarrow> be_word (put_be n v) = (v :: 'a::len word)"
  by (simp add: be_word_def foldl_put_be take_bit_word_eq_self)

lemma be_word_put [simp]:
  "be_word (put_u16 x) = x" "be_word (put_u32 y) = y" "be_word (put_u64 z) = z" "be_word (put_id w) = w"
  by (simp_all add: be_word_put_be)

lemma be_word_snoc: "be_word (bs @ [b]) = push_bit 8 (be_word bs) OR ucast b"
  by (simp add: be_word_def)

lemma bit_be_word: "bit (be_word bs :: 'a::len word) k \<Longrightarrow> k < 8 * length bs"
proof (induction bs arbitrary: k rule: rev_induct)
  case (snoc b bs)
  then show ?case using snoc.IH [of "k - 8"]
    by (fastforce simp: be_word_snoc bit_simps dest: bit_imp_le_length)
qed (simp add: be_word_def)

lemma put_be_snoc: "put_be (Suc n) v = put_be n (drop_bit 8 v) @ [ucast v]"
proof (induction n)
  case (Suc n)
  show ?case
    by (subst put_be_Suc, subst Suc, subst put_be_Suc) (simp add: add.commute)
qed (simp add: put_be_def)

lemma put_be_be_word:
  "8 * length bs \<le> LENGTH('a) \<Longrightarrow> put_be (length bs) (be_word bs :: 'a::len word) = bs"
proof (induction bs rule: rev_induct)
  case (snoc b bs)
  have "drop_bit 8 (push_bit 8 (be_word bs) OR ucast b :: 'a word) = be_word bs"
    using snoc.prems
    by (intro bit_word_eqI) (auto simp: bit_simps dest: bit_be_word bit_imp_le_length)
  moreover have "ucast (push_bit 8 (be_word bs) OR ucast b :: 'a word) = b"
    using snoc.prems by (intro bit_word_eqI) (auto simp: bit_simps)
  ultimately show ?case
    using snoc by (simp add: be_word_snoc put_be_snoc)
qed (simp add: put_be_def)

section \<open>Unsigned varints\<close>

text \<open>
  \<open>binary.AppendUvarint\<close> emits 7 bits per byte, low bits first, with the top bit set on every
  byte but the last. \<open>binary.Uvarint\<close> returns the value and the number of bytes read: 0 for a
  buffer that ends inside a varint, negative for a value above 64 bits.
\<close>

function AppendUvarint :: "u64 \<Rightarrow> bytes" where
  "AppendUvarint x =
     (if x \<ge> 0x80 then (ucast x OR 0x80) # AppendUvarint (drop_bit 7 x) else [ucast x])"
  by pat_completeness auto
termination
proof (relation "measure unat", goal_cases)
  case (2 x)
  then have "128 \<le> unat x" by (simp add: word_le_nat_alt)
  moreover have "unat (drop_bit 7 x) = unat x div 128"
    by (simp add: drop_bit_eq_div unat_div_distrib)
  ultimately show ?case by (simp del: unat_drop_bit_eq)
qed simp

declare AppendUvarint.simps [simp del]

fun uvarint_loop :: "nat \<Rightarrow> nat \<Rightarrow> u64 \<Rightarrow> bytes \<Rightarrow> u64 \<times> int" where
  "uvarint_loop i s x [] = (0, 0)"
| "uvarint_loop i s x (b # bs) =
     (if i = 10 then (0, - (int i + 1))
      else if b < 0x80
      then if i = 9 \<and> b > 1 then (0, - (int i + 1))
           else (x OR push_bit s (ucast b), int i + 1)
      else uvarint_loop (Suc i) (s + 7) (x OR push_bit s (ucast (b AND 0x7f))) bs)"

definition Uvarint :: "bytes \<Rightarrow> u64 \<times> int" where
  "Uvarint buf = uvarint_loop 0 0 0 buf"

text \<open>The reading step every decoder repeats: \<open>n <= 0\<close> is a short buffer, else skip \<open>n\<close>.\<close>

definition readUvarint :: "bytes \<Rightarrow> (u64 \<times> bytes) result" where
  "readUvarint buf =
     (case Uvarint buf of (v, n) \<Rightarrow> if n \<le> 0 then Inl ErrShortBuffer else Inr (v, drop (nat n) buf))"

lemma AppendUvarint_nonempty [simp]: "AppendUvarint x \<noteq> []"
  by (simp add: AppendUvarint.simps [of x])

lemma push_low7:
  fixes x :: u64
  shows "push_bit s (ucast (((ucast x :: byte) OR 0x80) AND 0x7f)) OR push_bit (s + 7) (drop_bit 7 x)
    = push_bit s x"
proof (rule bit_word_eqI)
  fix n assume "n < LENGTH(64)"
  have c: "bit (0x80 :: int) k \<longleftrightarrow> k = 7" "bit (0x7f :: int) k \<longleftrightarrow> k < 7" for k
    using bit_exp_iff [where 'a = int, of 7 k] bit_mask_iff [where 'a = int, of 7 k]
    by (auto simp: mask_eq_exp_minus_1)
  show "bit (push_bit s (ucast (((ucast x :: byte) OR 0x80) AND 0x7f) :: u64)
      OR push_bit (s + 7) (drop_bit 7 x)) n = bit (push_bit s x) n"
    using \<open>n < LENGTH(64)\<close> by (cases "n < s + 7") (auto simp: bit_simps c)
qed

lemma unat_ucast_byte: "unat (v :: u64) < 256 \<Longrightarrow> unat (ucast v :: byte) = unat v"
  by (simp add: unsigned_ucast_eq take_bit_nat_eq_self)

lemma ucast_ucast_byte: "unat (v :: u64) < 256 \<Longrightarrow> ucast (ucast v :: byte) = v"
  by (simp add: word_unat_eq_iff unat_ucast_byte unsigned_ucast_eq take_bit_eq_mod unat_mod_distrib)

lemma byte_top_set: "\<not> ((c :: byte) OR 0x80 < 0x80)"
  by (simp add: not_less) (metis le_word_or2 word_bw_comms(2))

lemma uvarint_loop_append:
  assumes "s = 7 * i" and "i < 10" and "unat v < 2 ^ (64 - s)"
  shows "uvarint_loop i s x (AppendUvarint v @ rest) =
    (x OR push_bit s v, int (i + length (AppendUvarint v)))"
  using assms
proof (induction v arbitrary: i s x rule: AppendUvarint.induct)
  case (1 v)
  show ?case
  proof (cases "v \<ge> 0x80")
    case False
    then have small: "unat v < 128" by (simp add: word_le_nat_alt)
    then have b: "(ucast v :: byte) < 0x80" "ucast (ucast v :: byte) = v"
      by (simp_all add: word_less_nat_alt unat_ucast_byte ucast_ucast_byte)
    have "\<not> (i = 9 \<and> (ucast v :: byte) > 1)"
      using 1(2,4) small by (auto simp: word_less_nat_alt unat_ucast_byte)
    with False b 1(3) show ?thesis
      by (simp add: AppendUvarint.simps [of v])
  next
    case True
    then have big: "128 \<le> unat v" by (simp add: word_le_nat_alt)
    have i: "i < 9"
    proof (rule ccontr)
      assume "\<not> i < 9"
      then have "i = 9" using 1(3) by simp
      with 1(2,4) big show False by simp
    qed
    have "unat (drop_bit 7 v) = unat v div 128"
      by (simp add: drop_bit_eq_div unat_div_distrib)
    moreover have "(2::nat) ^ (64 - s) = 128 * 2 ^ (64 - (s + 7))"
    proof -
      have "64 - s = 7 + (64 - (s + 7))" using i 1(2) by simp
      then show ?thesis by (simp only: power_add) simp
    qed
    ultimately have lt: "unat (drop_bit 7 v) < 2 ^ (64 - (s + 7))"
      using 1(4) by (simp add: less_mult_imp_div_less mult.commute)
    have IH: "uvarint_loop (Suc i) (s + 7) y (AppendUvarint (drop_bit 7 v) @ rest) =
      (y OR push_bit (s + 7) (drop_bit 7 v), int (Suc i + length (AppendUvarint (drop_bit 7 v))))" for y
      by (rule 1(1)) (use True 1(2) i lt in auto)
    have e: "AppendUvarint v = (ucast v OR 0x80) # AppendUvarint (drop_bit 7 v)"
      using True by (simp add: AppendUvarint.simps [of v])
    have "uvarint_loop i s x (AppendUvarint v @ rest) =
      uvarint_loop (Suc i) (s + 7)
        (x OR push_bit s (ucast (((ucast v :: byte) OR 0x80) AND 0x7f)))
        (AppendUvarint (drop_bit 7 v) @ rest)"
      unfolding e append_Cons uvarint_loop.simps using byte_top_set [of "ucast v"] i by simp
    also have "\<dots> = (x OR push_bit s v, int (i + length (AppendUvarint v)))"
      unfolding IH e by (simp only: or.assoc push_low7) simp
    finally show ?thesis .
  qed
qed

lemma readUvarint_append [codec_simps]: "readUvarint (AppendUvarint v @ rest) = Inr (v, rest)"
proof -
  have "unat v < 2 ^ 64" using unsigned_less [of v] by simp
  then have "Uvarint (AppendUvarint v @ rest) = (v, int (length (AppendUvarint v)))"
    using uvarint_loop_append [of 0 0 v 0 rest] by (simp add: Uvarint_def)
  then show ?thesis by (simp add: readUvarint_def)
qed

lemma uvarint_loop_read: "snd (uvarint_loop i s x buf) \<le> int (i + length buf)"
proof (induction buf arbitrary: i s x)
  case (Cons b buf)
  show ?case using Cons [of "Suc i" "s + 7" "x OR push_bit s (ucast (b AND 0x7f))"] by simp
qed simp

lemma readUvarint_shorter: "readUvarint buf = Inr (v, rest) \<Longrightarrow> length rest < length buf"
  using uvarint_loop_read [of 0 0 0 buf]
  by (auto simp: readUvarint_def Uvarint_def split: prod.splits if_splits)

section \<open>Codecs\<close>

fun readN :: "(bytes \<Rightarrow> ('a \<times> bytes) result) \<Rightarrow> nat \<Rightarrow> bytes \<Rightarrow> ('a list \<times> bytes) result" where
  "readN dec 0 buf = Inr ([], buf)"
| "readN dec (Suc n) buf =
     bindE (dec buf) (\<lambda>(x, buf). bindE (readN dec n buf) (\<lambda>(xs, buf). Inr (x # xs, buf)))"

text \<open>
  A counted list, as most decoders read it: every element takes at least one byte, so a count
  beyond the bytes left is refused before it sizes an allocation.
\<close>

definition readCounted :: "(bytes \<Rightarrow> ('a \<times> bytes) result) \<Rightarrow> bytes \<Rightarrow> ('a list \<times> bytes) result" where
  "readCounted dec buf = bindE (readUvarint buf) (\<lambda>(n, buf).
     if unat n > length buf then Inl ErrShortBuffer else readN dec (unat n) buf)"

text \<open>
  The contract between an encoder and its decoder: on values the encoder accepts (\<open>ok\<close>), the
  decoder returns the value and leaves exactly what followed it. Everything the framing relies on
  follows: encodings are injective, no encoding is a proper prefix of another, and a counted list
  of encodings is read back by the decoder's counting loop.
\<close>

locale codec =
  fixes enc :: "'a \<Rightarrow> bytes" and dec :: "bytes \<Rightarrow> ('a \<times> bytes) result" and ok :: "'a \<Rightarrow> bool"
  assumes dec_enc: "ok x \<Longrightarrow> dec (enc x @ rest) = Inr (x, rest)"
begin

lemma prefix_free: "ok x \<Longrightarrow> ok y \<Longrightarrow> enc x @ r = enc y @ s \<Longrightarrow> x = y \<and> r = s"
  by (metis dec_enc prod.inject sum.inject(2))

lemma enc_inj: "ok x \<Longrightarrow> ok y \<Longrightarrow> enc x = enc y \<Longrightarrow> x = y"
  using prefix_free [of x y "[]" "[]"] by simp

lemma dec_exact: "ok x \<Longrightarrow> dec (enc x) = Inr (x, [])"
  using dec_enc [of x "[]"] by simp

lemma dec_count: "\<forall>x \<in> set xs. ok x \<Longrightarrow>
    readN dec (length xs) (concat (map enc xs) @ rest) = Inr (xs, rest)"
  by (induction xs) (auto simp: dec_enc)

lemma dec_counted:
  assumes "\<forall>x \<in> set xs. ok x \<and> enc x \<noteq> []" and "length xs < 2 ^ 63"
  shows "readCounted dec (AppendUvarint (word_of_nat (length xs)) @ concat (map enc xs) @ rest) = Inr (xs, rest)"
proof -
  have "length xs \<le> length (concat (map enc xs))"
    using assms(1)
  proof (induction xs)
    case (Cons a xs)
    then obtain b bs where "enc a = b # bs" by (cases "enc a") auto
    then show ?case using Cons by simp
  qed simp
  moreover have "unat (word_of_nat (length xs) :: u64) = length xs"
    using assms(2) by (simp add: unat_of_nat)
  ultimately show ?thesis
    using dec_count [of xs rest] assms(1) by (simp add: readCounted_def readUvarint_append)
qed

end

text \<open>A reader never grows its input; then neither does the counting loop over it.\<close>

locale reader =
  fixes dec :: "bytes \<Rightarrow> ('a \<times> bytes) result"
  assumes shorter: "dec buf = Inr (x, rest) \<Longrightarrow> length rest \<le> length buf"
begin

lemma readN_shorter: "readN dec n buf = Inr (xs, rest) \<Longrightarrow> length rest \<le> length buf"
  by (induction n arbitrary: buf xs)
    (auto simp: bindE_Inr_iff dest!: shorter intro: order_trans)

end

interpretation uvarint_codec: codec AppendUvarint readUvarint "\<lambda>_. True"
  by unfold_locales (rule readUvarint_append)

section \<open>Field readers and writers\<close>

text \<open>
  A Go \<open>string\<close> is the list of its bytes. \<open>appendX(buf, v)\<close> of the source is \<open>buf @ appendX v\<close> here.
  Lengths are uint64 on the wire and \<open>int\<close> in memory: \<open>u64_len\<close> is the conversion, exact for every
  slice Go can hold.
\<close>

definition u64_len :: "'a list \<Rightarrow> u64" where
  "u64_len xs = word_of_nat (length xs)"

definition slice_ok :: "'a list \<Rightarrow> bool" where
  "slice_ok xs \<longleftrightarrow> length xs < 2 ^ 63"

lemma unat_u64_len [simp]: "slice_ok xs \<Longrightarrow> unat (u64_len xs) = length xs"
  by (simp add: u64_len_def slice_ok_def unat_of_nat)

definition appendBytes16 :: "id16 \<Rightarrow> bytes" where
  "appendBytes16 b = put_id b"

definition readBytes16 :: "bytes \<Rightarrow> (id16 \<times> bytes) result" where
  "readBytes16 buf =
     (if length buf < 16 then Inl ErrShortBuffer else Inr (be_word (take 16 buf), drop 16 buf))"

definition appendString :: "bytes \<Rightarrow> bytes" where
  "appendString s = AppendUvarint (u64_len s) @ s"

definition readString :: "bytes \<Rightarrow> (bytes \<times> bytes) result" where
  "readString buf = bindE (readUvarint buf) (\<lambda>(n, buf).
     if length buf < unat n then Inl ErrShortBuffer
     else Inr (take (unat n) buf, drop (unat n) buf))"

definition appendBool :: "bool \<Rightarrow> bytes" where
  "appendBool v = (if v then [1] else [0])"

definition readBool :: "bytes \<Rightarrow> (bool \<times> bytes) result" where
  "readBool buf = (case buf of [] \<Rightarrow> Inl ErrShortBuffer | b # buf \<Rightarrow> Inr (b \<noteq> 0, buf))"

interpretation id_codec: codec appendBytes16 readBytes16 "\<lambda>_. True"
  by unfold_locales (simp add: appendBytes16_def readBytes16_def)

interpretation string_codec: codec appendString readString slice_ok
  by unfold_locales (simp add: appendString_def readString_def readUvarint_append)

interpretation bool_codec: codec appendBool readBool "\<lambda>_. True"
  by unfold_locales (simp add: appendBool_def readBool_def)

lemmas field_codecs [codec_simps] =
  id_codec.dec_enc [OF TrueI] string_codec.dec_enc bool_codec.dec_enc [OF TrueI]

end
