(* ===== verification/Identity.thy ===== *)
theory Identity
  imports Convergence Bytes
begin

text \<open>
  \<open>crdt/identity.go\<close>: origins, sequence numbers, dots, hybrid logical clocks and stamps. \<open>int64\<close> and
  \<open>int32\<close> clock components are integers here and the places that narrow them say so (\<open>Pack\<close>). The
  strict order \<open>Dominates\<close> is shown to be the \<open>>\<close> of a linear order on stamps, which is the class
  instance the other components compute with.
\<close>

type_synonym origin = u64
type_synonym seq = u64

datatype dot = Dot (DotOrigin: origin) (DotSeq: seq)

datatype clock = Clock (WallTime: int) (Logical: int)

definition Clock_Less :: "clock \<Rightarrow> clock \<Rightarrow> bool" where
  "Clock_Less c other =
     (if WallTime c \<noteq> WallTime other then WallTime c < WallTime other
      else Logical c < Logical other)"

definition Clock_Equal :: "clock \<Rightarrow> clock \<Rightarrow> bool" where
  "Clock_Equal c other \<longleftrightarrow> WallTime c = WallTime other \<and> Logical c = Logical other"

definition Clock_IsZero :: "clock \<Rightarrow> bool" where
  "Clock_IsZero c \<longleftrightarrow> WallTime c = 0 \<and> Logical c = 0"

definition Forward :: "clock \<Rightarrow> clock \<Rightarrow> clock" where
  "Forward c other = (if Clock_Less c other then other else c)"

definition clockMaxWall :: int where
  "clockMaxWall = 2 ^ 47 - 1"

definition clockMaxLogical :: int where
  "clockMaxLogical = 2 ^ 16 - 1"

definition Pack :: "clock \<Rightarrow> u64 result" where
  "Pack c =
     (if WallTime c < 0 \<or> WallTime c > clockMaxWall then Inl PanicClockRange
      else if Logical c < 0 \<or> Logical c > clockMaxLogical then Inl PanicClockRange
      else Inr (push_bit 16 (word_of_int (WallTime c)) OR word_of_int (Logical c)))"

definition UnpackClock :: "u64 \<Rightarrow> clock" where
  "UnpackClock v = Clock (uint (drop_bit 16 v AND word_of_int clockMaxWall))
                         (uint (v AND word_of_int clockMaxLogical))"

datatype stamp = Stamp (StampClock: clock) (Origin: origin)

abbreviation zero_stamp :: stamp where
  "zero_stamp \<equiv> Stamp (Clock 0 0) 0"

definition Dominates :: "stamp \<Rightarrow> stamp \<Rightarrow> bool" where
  "Dominates a b =
     (if WallTime (StampClock a) \<noteq> WallTime (StampClock b)
      then WallTime (StampClock a) > WallTime (StampClock b)
      else if Logical (StampClock a) \<noteq> Logical (StampClock b)
      then Logical (StampClock a) > Logical (StampClock b)
      else Origin a > Origin b)"

definition Stamp_Equal :: "stamp \<Rightarrow> stamp \<Rightarrow> bool" where
  "Stamp_Equal a b \<longleftrightarrow> Clock_Equal (StampClock a) (StampClock b) \<and> Origin a = Origin b"

definition Stamp_IsZero :: "stamp \<Rightarrow> bool" where
  "Stamp_IsZero s \<longleftrightarrow> Clock_IsZero (StampClock s) \<and> Origin s = 0"

section \<open>The orders\<close>

instantiation clock :: linorder
begin

definition less_clock :: "clock \<Rightarrow> clock \<Rightarrow> bool" where
  "less_clock a b = Clock_Less a b"

definition less_eq_clock :: "clock \<Rightarrow> clock \<Rightarrow> bool" where
  "less_eq_clock a b \<longleftrightarrow> a = b \<or> Clock_Less a b"

instance
proof
  fix x y z :: clock
  note defs = less_clock_def less_eq_clock_def Clock_Less_def
  show "x < y \<longleftrightarrow> x \<le> y \<and> \<not> y \<le> x" by (cases x; cases y) (simp add: defs; linarith)
  show "x \<le> x" by (simp add: defs)
  show "x \<le> z" if "x \<le> y" "y \<le> z"
    using that by (cases x; cases y; cases z) (simp add: defs split: if_splits; linarith)
  show "x = y" if "x \<le> y" "y \<le> x"
    using that by (cases x; cases y) (simp add: defs split: if_splits; linarith)
  show "x \<le> y \<or> y \<le> x" by (cases x; cases y) (simp add: defs; linarith)
qed

end

instantiation stamp :: linorder
begin

definition less_stamp :: "stamp \<Rightarrow> stamp \<Rightarrow> bool" where
  "less_stamp a b = Dominates b a"

definition less_eq_stamp :: "stamp \<Rightarrow> stamp \<Rightarrow> bool" where
  "less_eq_stamp a b \<longleftrightarrow> a = b \<or> Dominates b a"

instance
proof
  fix x y z :: stamp
  have D: "Dominates b a \<longleftrightarrow>
      StampClock a < StampClock b \<or> StampClock a = StampClock b \<and> Origin a < Origin b" for a b
    by (cases "StampClock a"; cases "StampClock b")
      (auto simp: Dominates_def less_clock_def Clock_Less_def)
  note defs = less_stamp_def less_eq_stamp_def D
  show "x < y \<longleftrightarrow> x \<le> y \<and> \<not> y \<le> x" by (auto simp: defs)
  show "x \<le> x" by (simp add: defs)
  show "x \<le> z" if "x \<le> y" "y \<le> z" using that by (auto simp: defs)
  show "x = y" if "x \<le> y" "y \<le> x" using that by (auto simp: defs intro: stamp.expand)
  show "x \<le> y \<or> y \<le> x" by (cases x; cases y) (auto simp: defs)
qed

end

lemma less_stamp_code: "Stamp c o1 < Stamp d o2 \<longleftrightarrow> c < d \<or> c = d \<and> o1 < o2"
  by (cases c; cases d) (auto simp: less_stamp_def Dominates_def less_clock_def Clock_Less_def)

lemma less_clock_code: "Clock w l < Clock w' l' \<longleftrightarrow> w < w' \<or> w = w' \<and> l < l'"
  by (auto simp: less_clock_def Clock_Less_def)

lemma Dominates_iff [simp]: "Dominates a b \<longleftrightarrow> b < a"
  by (simp add: less_stamp_def)

lemma Clock_Less_iff [simp]: "Clock_Less a b \<longleftrightarrow> a < b"
  by (simp add: less_clock_def)

lemma Clock_Equal_iff [simp]: "Clock_Equal a b \<longleftrightarrow> a = b"
  by (cases a; cases b) (simp add: Clock_Equal_def)

lemma Stamp_Equal_iff [simp]: "Stamp_Equal a b \<longleftrightarrow> a = b"
  by (cases a; cases b) (simp add: Stamp_Equal_def)

lemma Forward_max: "Forward c d = max c d"
  by (auto simp: Forward_def max_def)

lemmas stamp_less = less_stamp_code less_clock_code

interpretation stamp_lww: arbiter Dominates
  by unfold_locales auto

section \<open>The packed clock\<close>

definition packable :: "clock \<Rightarrow> bool" where
  "packable c \<longleftrightarrow> 0 \<le> WallTime c \<and> WallTime c \<le> clockMaxWall \<and>
     0 \<le> Logical c \<and> Logical c \<le> clockMaxLogical"

lemma Pack_packable: "Pack c = (if packable c
    then Inr (push_bit 16 (word_of_int (WallTime c)) OR word_of_int (Logical c)) else Inl PanicClockRange)"
  by (auto simp: Pack_def packable_def)

lemma pack_word:
  assumes "0 \<le> l" and "l < 2 ^ 16"
  shows "push_bit 16 (word_of_int w) OR word_of_int l = (word_of_int (w * 2 ^ 16 + l) :: u64)"
proof -
  have "push_bit 16 (word_of_int w) AND word_of_int l = (0 :: u64)"
  proof (rule bit_word_eqI)
    fix n
    have "take_bit 16 l = l" using assms by (simp add: take_bit_int_eq_self)
    then have "bit l n \<Longrightarrow> n < 16" by (metis bit_take_bit_iff)
    then show "bit (push_bit 16 (word_of_int w) AND word_of_int l :: u64) n = bit (0 :: u64) n"
      by (auto simp: bit_simps)
  qed
  from disjunctive_add_eq_or [OF this]
  show ?thesis by (simp add: push_bit_eq_mult mult.commute)
qed

lemma uint_Pack:
  assumes "packable c"
  shows "\<exists>v. Pack c = Inr v \<and> uint v = WallTime c * 2 ^ 16 + Logical c"
proof -
  let ?n = "WallTime c * 2 ^ 16 + Logical c"
  have b: "0 \<le> ?n" "?n < 2 ^ 64" "0 \<le> Logical c" "Logical c < 2 ^ 16"
    using assms by (auto simp: packable_def clockMaxWall_def clockMaxLogical_def)
  then have "uint (word_of_int ?n :: u64) = ?n"
    by (simp only: unsigned_of_int) (simp add: take_bit_int_eq_self)
  then show ?thesis using assms b by (auto simp: Pack_packable pack_word)
qed

lemma UnpackClock_uint:
  "UnpackClock v = Clock (uint v div 2 ^ 16 mod 2 ^ 47) (uint v mod 2 ^ 16)"
proof -
  have "drop_bit 16 v AND word_of_int clockMaxWall = take_bit 47 (drop_bit 16 v)"
    by (simp add: clockMaxWall_def take_bit_eq_mask mask_eq_exp_minus_1)
  moreover have "v AND word_of_int clockMaxLogical = take_bit 16 v"
    by (simp add: clockMaxLogical_def take_bit_eq_mask mask_eq_exp_minus_1)
  ultimately show ?thesis
    by (simp add: UnpackClock_def unsigned_take_bit_eq unsigned_drop_bit_eq take_bit_eq_mod
        drop_bit_eq_div uint_div_distrib uint_mod_distrib)
qed

lemma packable_Unpack: "packable (UnpackClock v)"
  by (simp add: UnpackClock_uint packable_def clockMaxWall_def clockMaxLogical_def; presburger)

lemma Unpack_Pack:
  assumes "packable c" shows "\<exists>v. Pack c = Inr v \<and> UnpackClock v = c"
proof -
  obtain v where v: "Pack c = Inr v" "uint v = WallTime c * 2 ^ 16 + Logical c"
    using uint_Pack [OF assms] by blast
  have "UnpackClock v = c"
    using assms unfolding UnpackClock_uint v(2)
    by (cases c) (simp add: packable_def clockMaxWall_def clockMaxLogical_def)
  with v(1) show ?thesis by blast
qed

lemma Pack_less:
  assumes "packable c" "packable d" "Pack c = Inr v" "Pack d = Inr w"
  shows "v < w \<longleftrightarrow> c < d"
proof -
  have "uint v = WallTime c * 2 ^ 16 + Logical c" "uint w = WallTime d * 2 ^ 16 + Logical d"
    using uint_Pack [OF assms(1)] uint_Pack [OF assms(2)] assms(3,4) by auto
  then show ?thesis using assms(1,2)
    by (cases c; cases d) (auto simp: word_less_def less_clock_code packable_def clockMaxLogical_def)
qed

lemma Pack_Unpack:
  assumes "\<not> bit v 63" shows "Pack (UnpackClock v) = Inr v"
proof -
  obtain w where w: "Pack (UnpackClock v) = Inr w"
    "uint w = WallTime (UnpackClock v) * 2 ^ 16 + Logical (UnpackClock v)"
    using uint_Pack [OF packable_Unpack] by blast
  have "v = take_bit 63 v"
  proof (rule bit_word_eqI)
    fix n assume "n < LENGTH(64)"
    then consider "n < 63" | "n = 63" by fastforce
    then show "bit v n = bit (take_bit 63 v) n" using assms by cases (simp_all add: bit_take_bit_iff)
  qed
  then have "uint v < 2 ^ 63" by (metis unsigned_take_bit_eq take_bit_int_less_exp)
  then have "uint v div 2 ^ 16 mod 2 ^ 47 = uint v div 2 ^ 16" 
    by (intro mod_pos_pos_trivial) (simp_all add: div_less_iff_less_mult pos_imp_zdiv_nonneg_iff)
  then have "uint w = uint v" using w(2) by (simp add: UnpackClock_uint)
  then show ?thesis using w(1) by (simp add: word_uint_eq_iff)
qed

text \<open>
  C18: clocks in the wire range survive packing, and the packed 64-bit values order exactly as the
  clocks do: \<open>Pack\<close> does not panic, \<open>UnpackClock\<close> returns the clock, bit 63 stays zero, and an
  unsigned comparison of two packed values is \<open>Clock.Less\<close>.
\<close>

theorem pack_roundtrip_order:
  assumes "packable c" and "packable d"
  shows "\<exists>v w. Pack c = Inr v \<and> Pack d = Inr w \<and> UnpackClock v = c \<and> \<not> bit v 63 \<and>
    (v < w \<longleftrightarrow> Clock_Less c d)"
proof -
  obtain v w where v: "Pack c = Inr v" "UnpackClock v = c" and w: "Pack d = Inr w"
    using Unpack_Pack assms by blast
  have "uint v = WallTime c * 2 ^ 16 + Logical c" using uint_Pack [OF assms(1)] v by auto
  then have "uint v < 2 ^ 63"
    using assms(1) by (simp add: packable_def clockMaxWall_def clockMaxLogical_def)
  then have "\<not> bit (uint v) 63" by (simp add: bit_iff_odd div_pos_pos_trivial)
  then have "\<not> bit v 63" by (simp add: bit_uint_iff)
  with v w Pack_less [OF assms v(1) w] show ?thesis by (simp add: Clock_Less_iff)
qed

theorem pack_roundtrip_order_witness:
  "packable (Clock 1700000000000 65535) \<and> packable (Clock 1700000000001 0) \<and>
   (\<exists>v w. Pack (Clock 1700000000000 65535) = Inr v \<and> Pack (Clock 1700000000001 0) = Inr w \<and>
     UnpackClock v = Clock 1700000000000 65535 \<and> \<not> bit v 63 \<and>
     (v < w \<longleftrightarrow> Clock_Less (Clock 1700000000000 65535) (Clock 1700000000001 0)))"
proof -
  have p: "packable (Clock 1700000000000 65535)" "packable (Clock 1700000000001 0)"
    by (simp_all add: packable_def clockMaxWall_def clockMaxLogical_def)
  with pack_roundtrip_order [OF p] show ?thesis by blast
qed

end
