(* ===== verification/Interval.thy ===== *)
theory Interval
  imports Identity
begin

text \<open>
  \<open>crdt/interval_impl.go\<close> (with \<open>ByteRange\<close> of \<open>crdt/state.go\<close>): the byte-range layer, a sorted list
  of disjoint intervals each carrying the stamp that wrote it. \<open>Apply\<close> splits the stored intervals
  at a patch, arbitrates each piece and coalesces equal neighbours. It is shown to be the pointwise
  last-writer-wins update on every byte, to report exactly the bytes it won, and to keep the one
  normal form a map of bytes to stamps has, so patches commute. The scratch slices of the
  source hold capacity only (they are cut to length zero before use) and have no counterpart.
\<close>

datatype byte_range = ByteRange (Start: u64) (End: u64)

definition ByteRange_Empty :: "byte_range \<Rightarrow> bool" where
  "ByteRange_Empty r \<longleftrightarrow> End r \<le> Start r"

definition ByteRange_Length :: "byte_range \<Rightarrow> u64" where
  "ByteRange_Length r = (if ByteRange_Empty r then 0 else End r - Start r)"

definition ByteRange_Overlaps :: "byte_range \<Rightarrow> byte_range \<Rightarrow> bool" where
  "ByteRange_Overlaps r other \<longleftrightarrow> Start r < End other \<and> Start other < End r"

datatype interval_entry = IntervalEntry (Range: byte_range) (EntryStamp: stamp)

definition IntervalEntry_Equal :: "interval_entry \<Rightarrow> interval_entry \<Rightarrow> bool" where
  "IntervalEntry_Equal e other \<longleftrightarrow> Range e = Range other \<and> Stamp_Equal (EntryStamp e) (EntryStamp other)"

abbreviation eStart :: "interval_entry \<Rightarrow> u64" where "eStart e \<equiv> Start (Range e)"
abbreviation eEnd :: "interval_entry \<Rightarrow> u64" where "eEnd e \<equiv> End (Range e)"

type_synonym intervals = "interval_entry list"

definition NewIntervalMap :: intervals where
  "NewIntervalMap = []"

definition IntervalMap_IsEmpty :: "intervals \<Rightarrow> bool" where
  "IntervalMap_IsEmpty m \<longleftrightarrow> length m = 0"

text \<open>\<open>slices.BinarySearchFunc\<close> is the bisection of \<open>sort.Search\<close> for the first \<open>cmp >= 0\<close>.\<close>

definition At :: "intervals \<Rightarrow> u64 \<Rightarrow> stamp" where
  "At m off =
     (let i = sort_Search (length m) (\<lambda>i. \<not> eStart (m ! i) \<le> off) in
      if i = 0 then zero_stamp
      else let e = m ! (i - 1) in if off < eEnd e then EntryStamp e else zero_stamp)"

fun coalesce_from :: "interval_entry \<Rightarrow> intervals \<Rightarrow> intervals" where
  "coalesce_from l [] = [l]"
| "coalesce_from l (e # es) =
     (if eEnd l = eStart e \<and> Stamp_Equal (EntryStamp l) (EntryStamp e)
      then coalesce_from (IntervalEntry (ByteRange (eStart l) (eEnd e)) (EntryStamp l)) es
      else l # coalesce_from e es)"

definition coalesce :: "intervals \<Rightarrow> intervals" where
  "coalesce entries = (case entries of [] \<Rightarrow> [] | e # es \<Rightarrow> coalesce_from e es)"

text \<open>
  The state of \<open>Apply\<close>'s loops: \<open>cur\<close>, \<open>out\<close> and \<open>won\<close>. \<open>claim\<close> and \<open>emit\<close> are its two closures.
\<close>

record apply_state =
  ap_cur :: u64
  ap_out :: intervals
  ap_won :: "byte_range list"

definition claim :: "stamp \<Rightarrow> u64 \<Rightarrow> u64 \<Rightarrow> apply_state \<Rightarrow> apply_state" where
  "claim c lo hi st = st\<lparr>ap_won := ap_won st @ [ByteRange lo hi],
                        ap_out := ap_out st @ [IntervalEntry (ByteRange lo hi) c]\<rparr>"

definition emit :: "u64 \<Rightarrow> u64 \<Rightarrow> stamp \<Rightarrow> apply_state \<Rightarrow> apply_state" where
  "emit lo hi s st = st\<lparr>ap_out := ap_out st @ [IntervalEntry (ByteRange lo hi) s]\<rparr>"

definition apply_overlap :: "u64 \<Rightarrow> stamp \<Rightarrow> stamp \<Rightarrow> interval_entry \<Rightarrow> apply_state \<Rightarrow> apply_state" where
  "apply_overlap end' c baseline e st =
     (let st = (if eStart e < ap_cur st then emit (eStart e) (ap_cur st) (EntryStamp e) st else st);
          gapEnd = min (eStart e) end';
          st = (if ap_cur st < gapEnd
                then (if Dominates c baseline then claim c (ap_cur st) gapEnd st else st)\<lparr>ap_cur := gapEnd\<rparr>
                else st);
          ovEnd = min (eEnd e) end';
          st = (if ap_cur st < ovEnd
                then (if Dominates c (EntryStamp e) then claim c (ap_cur st) ovEnd st
                      else emit (ap_cur st) ovEnd (EntryStamp e) st)\<lparr>ap_cur := ovEnd\<rparr>
                else st)
      in if eEnd e > end' then emit end' (eEnd e) (EntryStamp e) st else st)"

fun apply_before :: "u64 \<Rightarrow> intervals \<Rightarrow> intervals \<Rightarrow> intervals \<times> intervals" where
  "apply_before start [] out' = ([], out')"
| "apply_before start (e # es) out' =
     (if eEnd e \<le> start then apply_before start es (out' @ [e]) else (e # es, out'))"

fun apply_loop :: "u64 \<Rightarrow> stamp \<Rightarrow> stamp \<Rightarrow> intervals \<Rightarrow> apply_state \<Rightarrow> intervals \<times> apply_state" where
  "apply_loop end' c baseline [] st = ([], st)"
| "apply_loop end' c baseline (e # es) st =
     (if eStart e < end' then apply_loop end' c baseline es (apply_overlap end' c baseline e st)
      else (e # es, st))"

definition Apply :: "u64 \<Rightarrow> u64 \<Rightarrow> stamp \<Rightarrow> stamp \<Rightarrow> intervals \<Rightarrow> intervals \<times> byte_range list" where
  "Apply start end' c baseline m =
     (if start \<ge> end' then (m, [])
      else case apply_before start m [] of (es, out0) \<Rightarrow>
        case apply_loop end' c baseline es \<lparr>ap_cur = start, ap_out = out0, ap_won = []\<rparr> of (rest, st) \<Rightarrow>
          let st = (if ap_cur st < end' \<and> Dominates c baseline then claim c (ap_cur st) end' st else st)
          in (coalesce (ap_out st @ rest), ap_won st))"

definition Prune :: "stamp \<Rightarrow> intervals \<Rightarrow> intervals" where
  "Prune floor' m = filter (\<lambda>e. Dominates (EntryStamp e) floor') m"

fun Clip :: "u64 \<Rightarrow> intervals \<Rightarrow> intervals" where
  "Clip maxEnd [] = []"
| "Clip maxEnd (e # es) =
     (if eStart e \<ge> maxEnd then Clip maxEnd es
      else if eEnd e > maxEnd
      then IntervalEntry (ByteRange (eStart e) maxEnd) (EntryStamp e) # Clip maxEnd es
      else e # Clip maxEnd es)"

section \<open>Bytes to stamps\<close>

fun lookup :: "intervals \<Rightarrow> u64 \<Rightarrow> stamp option" where
  "lookup [] off = None"
| "lookup (e # es) off =
     (if eStart e \<le> off \<and> off < eEnd e then Some (EntryStamp e) else lookup es off)"

definition segs :: "intervals \<Rightarrow> bool" where
  "segs m \<longleftrightarrow> (\<forall>e \<in> set m. eStart e < eEnd e) \<and> sorted_wrt (\<lambda>a b. eEnd a \<le> eStart b) m"

definition coalesced :: "intervals \<Rightarrow> bool" where
  "coalesced m \<longleftrightarrow> sorted_wrt (\<lambda>a b. eEnd a = eStart b \<longrightarrow> EntryStamp a \<noteq> EntryStamp b) m"

definition im_inv :: "intervals \<Rightarrow> bool" where
  "im_inv m \<longleftrightarrow> segs m \<and> coalesced m"

lemma segs_Nil [simp]: "segs []" by (simp add: segs_def)

lemma segs_Cons: "segs (e # m) \<longleftrightarrow> eStart e < eEnd e \<and> (\<forall>a \<in> set m. eEnd e \<le> eStart a) \<and> segs m"
  by (auto simp: segs_def)

lemma segs_append: "segs (a @ b) \<longleftrightarrow> segs a \<and> segs b \<and> (\<forall>x \<in> set a. \<forall>y \<in> set b. eEnd x \<le> eStart y)"
  by (auto simp: segs_def sorted_wrt_append)

lemma lookup_append: "lookup (a @ b) off = (case lookup a off of Some s \<Rightarrow> Some s | None \<Rightarrow> lookup b off)"
  by (induction a) auto

lemma lookup_SomeD: "lookup m off = Some s \<Longrightarrow> \<exists>e \<in> set m. eStart e \<le> off \<and> off < eEnd e \<and> EntryStamp e = s"
  by (induction m) (auto split: if_splits)

lemma lookup_None_below: "\<forall>e \<in> set m. off < eStart e \<Longrightarrow> lookup m off = None"
  by (induction m) auto

lemma lookup_None_above: "\<forall>e \<in> set m. eEnd e \<le> off \<Longrightarrow> lookup m off = None"
  by (induction m) auto

lemma lookup_mem: "segs m \<Longrightarrow> e \<in> set m \<Longrightarrow> eStart e \<le> off \<Longrightarrow> off < eEnd e \<Longrightarrow> lookup m off = Some (EntryStamp e)"
  by (induction m) (force simp: segs_Cons)+

section \<open>Apply without its accumulators\<close>

definition piece :: "u64 \<Rightarrow> u64 \<Rightarrow> stamp \<Rightarrow> intervals" where
  "piece lo hi s = (if lo < hi then [IntervalEntry (ByteRange lo hi) s] else [])"

definition claimed :: "bool \<Rightarrow> u64 \<Rightarrow> u64 \<Rightarrow> byte_range list" where
  "claimed p lo hi = (if p \<and> lo < hi then [ByteRange lo hi] else [])"

definition gap :: "bool \<Rightarrow> u64 \<Rightarrow> u64 \<Rightarrow> stamp \<Rightarrow> intervals" where
  "gap p lo hi c = (if p then piece lo hi c else [])"

fun patch :: "u64 \<Rightarrow> stamp \<Rightarrow> stamp \<Rightarrow> u64 \<Rightarrow> intervals \<Rightarrow> intervals" where
  "patch end' c b cur [] = gap (b < c) cur end' c"
| "patch end' c b cur (e # es) =
     (if eStart e < end'
      then piece (eStart e) cur (EntryStamp e) @ gap (b < c) cur (eStart e) c @
        piece (max cur (eStart e)) (min (eEnd e) end') (max c (EntryStamp e)) @
        piece end' (eEnd e) (EntryStamp e) @
        patch end' c b (max (max cur (eStart e)) (min (eEnd e) end')) es
      else gap (b < c) cur end' c @ e # es)"

fun patch_won :: "u64 \<Rightarrow> stamp \<Rightarrow> stamp \<Rightarrow> u64 \<Rightarrow> intervals \<Rightarrow> byte_range list" where
  "patch_won end' c b cur [] = claimed (b < c) cur end'"
| "patch_won end' c b cur (e # es) =
     (if eStart e < end'
      then claimed (b < c) cur (eStart e) @
        claimed (EntryStamp e < c) (max cur (eStart e)) (min (eEnd e) end') @
        patch_won end' c b (max (max cur (eStart e)) (min (eEnd e) end')) es
      else claimed (b < c) cur end')"

definition finish :: "u64 \<Rightarrow> stamp \<Rightarrow> stamp \<Rightarrow> intervals \<times> apply_state \<Rightarrow> intervals \<times> byte_range list" where
  "finish end' c b = (\<lambda>(rest, st).
     let st = (if ap_cur st < end' \<and> Dominates c b then claim c (ap_cur st) end' st else st)
     in (ap_out st @ rest, ap_won st))"

lemma apply_overlap_fields:
  assumes "eStart e < end'"
  shows "ap_cur (apply_overlap end' c b e st) = max (max (ap_cur st) (eStart e)) (min (eEnd e) end')"
    and "ap_out (apply_overlap end' c b e st) = ap_out st @
      piece (eStart e) (ap_cur st) (EntryStamp e) @ gap (b < c) (ap_cur st) (eStart e) c @
      piece (max (ap_cur st) (eStart e)) (min (eEnd e) end') (max c (EntryStamp e)) @
      piece end' (eEnd e) (EntryStamp e)"
    and "ap_won (apply_overlap end' c b e st) = ap_won st @ claimed (b < c) (ap_cur st) (eStart e) @
      claimed (EntryStamp e < c) (max (ap_cur st) (eStart e)) (min (eEnd e) end')"
proof -
  note defs = claim_def emit_def piece_def gap_def claimed_def
  define st1 where "st1 = (if eStart e < ap_cur st then emit (eStart e) (ap_cur st) (EntryStamp e) st else st)"
  define st2 where "st2 = (if ap_cur st1 < eStart e
    then (if Dominates c b then claim c (ap_cur st1) (eStart e) st1 else st1)\<lparr>ap_cur := eStart e\<rparr> else st1)"
  define ovEnd where "ovEnd = min (eEnd e) end'"
  define st3 where "st3 = (if ap_cur st2 < ovEnd
    then (if Dominates c (EntryStamp e) then claim c (ap_cur st2) ovEnd st2
          else emit (ap_cur st2) ovEnd (EntryStamp e) st2)\<lparr>ap_cur := ovEnd\<rparr> else st2)"
  have "min (eStart e) end' = eStart e" using assms by simp
  then have st4: "apply_overlap end' c b e st =
      (if eEnd e > end' then emit end' (eEnd e) (EntryStamp e) st3 else st3)"
    unfolding apply_overlap_def Let_def st3_def st2_def st1_def ovEnd_def by simp
  have 1: "ap_cur st1 = ap_cur st" "ap_won st1 = ap_won st"
    "ap_out st1 = ap_out st @ piece (eStart e) (ap_cur st) (EntryStamp e)"
    by (simp_all add: st1_def defs)
  have 2: "ap_cur st2 = max (ap_cur st) (eStart e)"
    "ap_won st2 = ap_won st1 @ claimed (b < c) (ap_cur st) (eStart e)"
    "ap_out st2 = ap_out st1 @ gap (b < c) (ap_cur st) (eStart e) c"
    by (simp_all add: st2_def 1(1) defs)
  have 3: "ap_cur st3 = max (ap_cur st2) ovEnd"
    "ap_won st3 = ap_won st2 @ claimed (EntryStamp e < c) (ap_cur st2) ovEnd"
    "ap_out st3 = ap_out st2 @ piece (ap_cur st2) ovEnd (max c (EntryStamp e))"
    by (auto simp: st3_def defs max_def)
  have 4: "ap_cur (apply_overlap end' c b e st) = ap_cur st3" "ap_won (apply_overlap end' c b e st) = ap_won st3"
    "ap_out (apply_overlap end' c b e st) = ap_out st3 @ piece end' (eEnd e) (EntryStamp e)"
    unfolding st4 by (simp_all add: emit_def piece_def)
  show "ap_cur (apply_overlap end' c b e st) = max (max (ap_cur st) (eStart e)) (min (eEnd e) end')"
    "ap_out (apply_overlap end' c b e st) = ap_out st @
      piece (eStart e) (ap_cur st) (EntryStamp e) @ gap (b < c) (ap_cur st) (eStart e) c @
      piece (max (ap_cur st) (eStart e)) (min (eEnd e) end') (max c (EntryStamp e)) @
      piece end' (eEnd e) (EntryStamp e)"
    "ap_won (apply_overlap end' c b e st) = ap_won st @ claimed (b < c) (ap_cur st) (eStart e) @
      claimed (EntryStamp e < c) (max (ap_cur st) (eStart e)) (min (eEnd e) end')"
    by (simp_all add: 1 2 3 4 ovEnd_def)
qed

lemma apply_loop_patch:
  "finish end' c b (apply_loop end' c b es st) =
    (ap_out st @ patch end' c b (ap_cur st) es, ap_won st @ patch_won end' c b (ap_cur st) es)"
proof (induction es arbitrary: st)
  case (Cons e es)
  show ?case
    using Cons [of "apply_overlap end' c b e st"]
    by (auto simp: apply_overlap_fields finish_def gap_def claimed_def piece_def claim_def)
qed (auto simp: finish_def gap_def claimed_def piece_def claim_def)

lemma apply_before_split:
  "apply_before start es out0 = (dropWhile (\<lambda>e. eEnd e \<le> start) es, out0 @ takeWhile (\<lambda>e. eEnd e \<le> start) es)"
  by (induction es arbitrary: out0) auto

lemma Apply_patch:
  "start < end' \<Longrightarrow> Apply start end' c b m =
    (let xs = takeWhile (\<lambda>e. eEnd e \<le> start) m; ys = dropWhile (\<lambda>e. eEnd e \<le> start) m
     in (coalesce (xs @ patch end' c b start ys), patch_won end' c b start ys))"
  using apply_loop_patch [of end' c b "dropWhile (\<lambda>e. eEnd e \<le> start) m"
      "\<lparr>ap_cur = start, ap_out = takeWhile (\<lambda>e. eEnd e \<le> start) m, ap_won = []\<rparr>"]
  by (auto simp: Apply_def apply_before_split finish_def Let_def split: prod.splits)

section \<open>Apply is last-writer-wins on every byte\<close>

fun lww_byte :: "stamp \<Rightarrow> stamp \<Rightarrow> stamp option \<Rightarrow> stamp option" where
  "lww_byte c b None = (if b < c then Some c else None)"
| "lww_byte c b (Some s) = Some (max c s)"

lemma lookup_piece [simp]: "lookup (piece lo hi s) off = (if lo \<le> off \<and> off < hi then Some s else None)"
  by (auto simp: piece_def)

lemma lookup_gap [simp]: "lookup (gap p lo hi s) off = (if p \<and> lo \<le> off \<and> off < hi then Some s else None)"
  by (auto simp: gap_def)

lemma set_piece: "x \<in> set (piece lo hi s) \<longleftrightarrow> lo < hi \<and> x = IntervalEntry (ByteRange lo hi) s"
  by (auto simp: piece_def)

lemma set_gap: "x \<in> set (gap p lo hi s) \<longleftrightarrow> p \<and> lo < hi \<and> x = IntervalEntry (ByteRange lo hi) s"
  by (auto simp: gap_def set_piece)

lemma segs_piece [simp]: "segs (piece lo hi s)" by (simp add: piece_def segs_Cons)

lemma segs_gap [simp]: "segs (gap p lo hi s)" by (simp add: gap_def)

lemma piece_empty [simp]: "hi \<le> lo \<Longrightarrow> piece lo hi s = []" by (simp add: piece_def)

lemma gap_empty [simp]: "hi \<le> lo \<Longrightarrow> gap p lo hi s = []" by (simp add: gap_def)

lemma patch_beyond: "\<forall>e \<in> set es. end' \<le> eStart e \<Longrightarrow> patch end' c b end' es = es"
  by (cases es) (auto simp: not_less)

text \<open>The two shapes of a step: the entry ends inside the patch, or sticks out behind it.\<close>

lemma patch_inside:
  assumes "eStart e < eEnd e" "cur < eEnd e" "eEnd e \<le> end'"
  shows "patch end' c b cur (e # es) = piece (eStart e) cur (EntryStamp e) @ gap (b < c) cur (eStart e) c @
    piece (max cur (eStart e)) (eEnd e) (max c (EntryStamp e)) @ patch end' c b (eEnd e) es"
  using assms by (auto simp: max_def min_def)

lemma patch_across:
  assumes "segs (e # es)" "cur \<le> end'" "eStart e < end'" "end' < eEnd e"
  shows "patch end' c b cur (e # es) = piece (eStart e) cur (EntryStamp e) @ gap (b < c) cur (eStart e) c @
    piece (max cur (eStart e)) end' (max c (EntryStamp e)) @ piece end' (eEnd e) (EntryStamp e) @ es"
proof -
  have "patch end' c b end' es = es"
    using assms by (intro patch_beyond) (auto simp: segs_Cons)
  moreover have "max (max cur (eStart e)) (min (eEnd e) end') = end'" "min (eEnd e) end' = end'"
    using assms by (auto simp: max_def min_def)
  ultimately show ?thesis using assms by simp
qed

lemma patch_lookup:
  assumes "segs es" and "cur \<le> end'" and "\<forall>e \<in> set es. cur < eEnd e"
  shows "lookup (patch end' c b cur es) off =
    (if cur \<le> off \<and> off < end' then lww_byte c b (lookup es off) else lookup es off)"
  using assms
proof (induction es arbitrary: cur)
  case (Cons e es)
  have e: "eStart e < eEnd e" "cur < eEnd e" using Cons.prems by (auto simp: segs_Cons)
  have es: "segs es" "\<forall>x \<in> set es. eEnd e \<le> eStart x" "\<forall>x \<in> set es. eStart x < eEnd x"
    using Cons.prems by (auto simp: segs_Cons segs_def)
  have below: "lookup es off = None" if "off < eEnd e" for off
    using es(2) that by (intro lookup_None_below) auto
  consider (out) "end' \<le> eStart e" | (across) "eStart e < end'" "end' < eEnd e" | (inside) "eEnd e \<le> end'"
    using e by fastforce
  then show ?case
  proof cases
    case out
    then have "lookup es off = None" if "off < end'" using below e that by auto
    with out Cons.prems show ?thesis by (auto simp: lookup_append split: option.splits)
  next
    case across
    then show ?thesis unfolding patch_across [OF Cons.prems(1,2) across]
      using e below by (auto simp: lookup_append max_def split: if_splits)
  next
    case inside
    have IH: "lookup (patch end' c b (eEnd e) es) off =
      (if eEnd e \<le> off \<and> off < end' then lww_byte c b (lookup es off) else lookup es off)"
      using es inside by (intro Cons.IH) (auto intro: order.strict_trans1)
    show ?thesis unfolding patch_inside [OF e inside]
      using e inside below by (auto simp: lookup_append IH max_def split: if_splits)
  qed
qed auto

lemma patch_segs:
  assumes "segs es" and "cur \<le> end'" and "\<forall>e \<in> set es. cur < eEnd e"
    and "l \<le> cur" and "\<forall>e \<in> set es. l \<le> eStart e"
  shows "segs (patch end' c b cur es) \<and> (\<forall>x \<in> set (patch end' c b cur es). l \<le> eStart x)"
  using assms
proof (induction es arbitrary: cur l)
  case Nil
  then show ?case by (auto simp: set_gap)
next
  case (Cons e es)
  have e: "eStart e < eEnd e" "cur < eEnd e" using Cons.prems by (auto simp: segs_Cons)
  have es: "segs es" "\<forall>x \<in> set es. eEnd e \<le> eStart x" "\<forall>x \<in> set es. eStart x < eEnd x"
    using Cons.prems by (auto simp: segs_Cons segs_def)
  consider (out) "end' \<le> eStart e" | (across) "eStart e < end'" "end' < eEnd e" | (inside) "eEnd e \<le> end'"
    using e by fastforce
  then show ?case
  proof cases
    case out
    then show ?thesis using Cons.prems by (auto simp: segs_append segs_Cons set_gap intro: order_trans)
  next
    case across
    then show ?thesis unfolding patch_across [OF Cons.prems(1,2) across]
      using Cons.prems e es by (auto simp: segs_append set_gap set_piece max_def intro: order_trans)
  next
    case inside
    have IH: "segs (patch end' c b (eEnd e) es) \<and> (\<forall>x \<in> set (patch end' c b (eEnd e) es). eEnd e \<le> eStart x)"
      using es inside by (intro Cons.IH) (auto intro: order.strict_trans1)
    show ?thesis unfolding patch_inside [OF e inside]
      using IH Cons.prems e inside by (auto simp: segs_append set_gap set_piece max_def intro: order_trans)
  qed
qed

section \<open>Coalescing and the normal form\<close>

lemma coalesce_from_hd: "\<exists>f es'. coalesce_from l es = f # es' \<and> eStart f = eStart l \<and> EntryStamp f = EntryStamp l"
  by (induction l es rule: coalesce_from.induct) auto

lemma coalesce_from_starts: "x \<in> set (coalesce_from l es) \<Longrightarrow> eStart x = eStart l \<or> (\<exists>e \<in> set es. eStart x = eStart e)"
  by (induction l es rule: coalesce_from.induct) (auto split: if_splits)

lemma coalesce_from_inv:
  "segs (l # es) \<Longrightarrow> segs (coalesce_from l es) \<and> coalesced (coalesce_from l es) \<and>
    (\<forall>off. lookup (coalesce_from l es) off = lookup (l # es) off)"
proof (induction l es rule: coalesce_from.induct)
  case (2 l e es)
  show ?case
  proof (cases "eEnd l = eStart e \<and> EntryStamp l = EntryStamp e")
    case True
    then have "segs (IntervalEntry (ByteRange (eStart l) (eEnd e)) (EntryStamp l) # es)"
      using 2(3) by (auto simp: segs_Cons)
    with 2(1) True 2(3) show ?thesis by (auto simp: segs_Cons)
  next
    case False
    have s: "segs (e # es)" using 2(3) by (simp add: segs_Cons)
    note IH = 2(2) [OF _ s]
    obtain f es' where f: "coalesce_from e es = f # es'" "eStart f = eStart e" "EntryStamp f = EntryStamp e"
      using coalesce_from_hd by blast
    have IH': "segs (f # es')" "coalesced (f # es')" "\<forall>off. lookup (f # es') off = lookup (e # es) off"
      using IH False f by auto
    have "eEnd l < eStart x" if "x \<in> set es'" for x
      using that IH'(1) f(2) 2(3) by (fastforce simp: segs_Cons)
    then have "segs (l # f # es')" "coalesced (l # f # es')"
      using False f(2,3) IH'(1,2) 2(3) by (auto simp: segs_Cons coalesced_def)
    moreover have "lookup (l # f # es') off = lookup (l # e # es) off" for off
      using IH'(3) by (simp only: lookup.simps(2) [of l])
    moreover have "coalesce_from l (e # es) = l # f # es'" using False f(1) by auto
    ultimately show ?thesis by (simp only: simp_thms)
  qed
qed (auto simp: coalesced_def)

lemma coalesce_inv: "segs m \<Longrightarrow> im_inv (coalesce m) \<and> (\<forall>off. lookup (coalesce m) off = lookup m off)"
  using coalesce_from_inv by (cases m) (auto simp: coalesce_def im_inv_def coalesced_def)

lemma segs_takeWhile_patch:
  assumes "segs m" and "start < end'"
  defines "xs \<equiv> takeWhile (\<lambda>e. eEnd e \<le> start) m" and "ys \<equiv> dropWhile (\<lambda>e. eEnd e \<le> start) m"
  shows "segs xs \<and> segs ys \<and> (\<forall>x \<in> set xs. eEnd x \<le> start) \<and> (\<forall>y \<in> set ys. start < eEnd y) \<and> m = xs @ ys"
proof -
  have m: "m = xs @ ys" by (simp add: xs_def ys_def)
  have "segs (xs @ ys)" using assms(1) m by blast
  then have s: "segs xs" "segs ys" by (simp_all add: segs_append)
  have "start < eEnd y" if "y \<in> set ys" for y
  proof (cases ys)
    case (Cons z zs)
    then have "start < eEnd z"
      using hd_dropWhile [of "\<lambda>e. eEnd e \<le> start" m] by (simp add: ys_def)
    moreover have "eEnd z \<le> eEnd y" if "y \<in> set zs"
    proof -
      have "eEnd z \<le> eStart y" "eStart y < eEnd y" using that s(2) Cons by (auto simp: segs_Cons segs_def)
      then show ?thesis by simp
    qed
    ultimately show ?thesis using that Cons by auto
  qed (use that in simp)
  moreover have "eEnd x \<le> start" if "x \<in> set xs" for x
    using that unfolding xs_def by (blast dest: set_takeWhileD)
  ultimately show ?thesis using s m by blast
qed

lemma Apply_correct:
  assumes "im_inv m"
  shows "im_inv (fst (Apply start end' c b m)) \<and>
    lookup (fst (Apply start end' c b m)) off =
      (if start \<le> off \<and> off < end' then lww_byte c b (lookup m off) else lookup m off)"
proof (cases "start < end'")
  case True
  define xs where "xs = takeWhile (\<lambda>e. eEnd e \<le> start) m"
  define ys where "ys = dropWhile (\<lambda>e. eEnd e \<le> start) m"
  have sp: "segs xs" "segs ys" "\<forall>x \<in> set xs. eEnd x \<le> start" "\<forall>y \<in> set ys. start < eEnd y" "m = xs @ ys"
    using segs_takeWhile_patch [of m start end'] assms True unfolding im_inv_def xs_def ys_def by blast+
  have A: "fst (Apply start end' c b m) = coalesce (xs @ patch end' c b start ys)"
    using True by (simp add: Apply_patch Let_def xs_def ys_def)
  have seg: "segs (patch end' c b start ys)"
    using patch_segs [OF sp(2) _ sp(4), of end' 0] True by simp
  have "eEnd x \<le> eStart y" if "x \<in> set xs" "y \<in> set (patch end' c b start ys)" for x y
    using patch_segs [OF sp(2) _ sp(4), of end' "eEnd x"] that sp(3,5) assms True
    by (simp add: im_inv_def segs_append)
  with seg have "segs (xs @ patch end' c b start ys)" using sp(1) by (simp add: segs_append)
  note co = coalesce_inv [OF this]
  have "lookup xs off = None" if "start \<le> off"
    using sp(3) that by (intro lookup_None_above) auto
  with co A sp(5) patch_lookup [OF sp(2) _ sp(4), of end' c b off] True show ?thesis
    by (cases "start \<le> off") (simp_all add: lookup_append split: option.split)
qed (use assms in \<open>auto simp: Apply_def\<close>)

section \<open>The bytes won\<close>

definition in_ranges :: "byte_range list \<Rightarrow> u64 \<Rightarrow> bool" where
  "in_ranges rs off \<longleftrightarrow> (\<exists>r \<in> set rs. Start r \<le> off \<and> off < End r)"

definition wins :: "stamp \<Rightarrow> stamp \<Rightarrow> stamp option \<Rightarrow> bool" where
  "wins c b x = (case x of None \<Rightarrow> b < c | Some s \<Rightarrow> s < c)"

lemma in_ranges_simps [simp]:
  "in_ranges [] off \<longleftrightarrow> False" "in_ranges (rs @ qs) off \<longleftrightarrow> in_ranges rs off \<or> in_ranges qs off"
  "in_ranges (claimed p lo hi) off \<longleftrightarrow> p \<and> lo \<le> off \<and> off < hi"
  by (auto simp: in_ranges_def claimed_def)

lemma patch_won_beyond: "\<forall>e \<in> set es. end' \<le> eStart e \<Longrightarrow> patch_won end' c b end' es = []"
  by (cases es) (auto simp: not_less claimed_def)

lemma patch_won_exact:
  assumes "segs es" and "cur \<le> end'" and "\<forall>e \<in> set es. cur < eEnd e"
  shows "in_ranges (patch_won end' c b cur es) off \<longleftrightarrow> cur \<le> off \<and> off < end' \<and> wins c b (lookup es off)"
  using assms
proof (induction es arbitrary: cur)
  case (Cons e es)
  have e: "eStart e < eEnd e" "cur < eEnd e" using Cons.prems by (auto simp: segs_Cons)
  have es: "segs es" "\<forall>x \<in> set es. eEnd e \<le> eStart x" "\<forall>x \<in> set es. eStart x < eEnd x"
    using Cons.prems by (auto simp: segs_Cons segs_def)
  have below: "lookup es off = None" if "off < eEnd e" for off
    using es(2) that by (intro lookup_None_below) auto
  consider (out) "end' \<le> eStart e" | (across) "eStart e < end'" "end' < eEnd e" | (inside) "eEnd e \<le> end'"
    using e by fastforce
  then show ?case
  proof cases
    case out
    then show ?thesis using below e by (auto simp: wins_def)
  next
    case across
    have "patch_won end' c b end' es = []"
      using es(2) across by (intro patch_won_beyond) auto
    moreover have "max (max cur (eStart e)) (min (eEnd e) end') = end'" "min (eEnd e) end' = end'"
      using across Cons.prems(2) by (auto simp: max_def min_def)
    ultimately show ?thesis using across e below
      by (auto simp: wins_def max_def)
  next
    case inside
    have IH: "in_ranges (patch_won end' c b (eEnd e) es) off \<longleftrightarrow>
      eEnd e \<le> off \<and> off < end' \<and> wins c b (lookup es off)"
      using es inside by (intro Cons.IH) (auto intro: order.strict_trans1)
    have m: "max (max cur (eStart e)) (min (eEnd e) end') = eEnd e" "min (eEnd e) end' = eEnd e"
      using inside e by (auto simp: max_def min_def)
    show ?thesis using inside e below IH unfolding patch_won.simps m
      by (auto simp: wins_def max_def)
  qed
qed (auto simp: wins_def)

lemma Apply_won:
  assumes "im_inv m"
  shows "in_ranges (snd (Apply start end' c b m)) off \<longleftrightarrow>
    start \<le> off \<and> off < end' \<and> wins c b (lookup m off)"
proof (cases "start < end'")
  case True
  define xs where "xs = takeWhile (\<lambda>e. eEnd e \<le> start) m"
  define ys where "ys = dropWhile (\<lambda>e. eEnd e \<le> start) m"
  have sp: "segs ys" "\<forall>x \<in> set xs. eEnd x \<le> start" "\<forall>y \<in> set ys. start < eEnd y" "m = xs @ ys"
    using segs_takeWhile_patch [of m start end'] assms True unfolding im_inv_def xs_def ys_def by blast+
  have A: "snd (Apply start end' c b m) = patch_won end' c b start ys"
    using True by (simp add: Apply_patch Let_def ys_def)
  have "lookup xs off = None" if "start \<le> off"
    using sp(2) that by (intro lookup_None_above) auto
  then have "start \<le> off \<Longrightarrow> lookup m off = lookup ys off" unfolding sp(4) by (simp add: lookup_append)
  with A patch_won_exact [OF sp(1) _ sp(3), of end' c b off] True show ?thesis by auto
qed (auto simp: Apply_def)

section \<open>One list of intervals for each map\<close>

lemma lookup_start: "segs (e # es) \<Longrightarrow> lookup (e # es) (eStart e) = Some (EntryStamp e)"
  by (simp add: segs_Cons)

lemma lookup_Some_ge: "segs (e # es) \<Longrightarrow> lookup (e # es) off = Some s \<Longrightarrow> eStart e \<le> off"
  using lookup_None_below [of es off] by (auto simp: segs_Cons split: if_splits)
    (meson less_imp_le not_le option.distinct(1) order_trans)

lemma lookup_at_end:
  assumes "im_inv (e # es)" shows "lookup (e # es) (eEnd e) \<noteq> Some (EntryStamp e)"
proof
  assume "lookup (e # es) (eEnd e) = Some (EntryStamp e)"
  then have "lookup es (eEnd e) = Some (EntryStamp e)" by (simp split: if_splits)
  then obtain x where x: "x \<in> set es" "eStart x \<le> eEnd e" "EntryStamp x = EntryStamp e"
    using lookup_SomeD by metis
  with assms show False by (auto simp: im_inv_def segs_Cons coalesced_def dest!: bspec)
qed

lemma lookup_end_le:
  assumes e: "im_inv (e # es)" and f: "im_inv (f # fs)" and eq: "lookup (e # es) = lookup (f # fs)"
    and st: "eStart e = eStart f"
  shows "eEnd f \<le> eEnd e"
proof (rule ccontr)
  assume "\<not> eEnd f \<le> eEnd e"
  moreover have "eStart e < eEnd e" using e by (simp add: im_inv_def segs_Cons)
  ultimately have "lookup (f # fs) (eEnd e) = Some (EntryStamp f)" using st by auto
  moreover have "EntryStamp f = EntryStamp e"
    using eq st lookup_start [of e es] lookup_start [of f fs] e f by (simp add: im_inv_def)
  ultimately show False using eq lookup_at_end [OF e] by simp
qed

lemma im_inv_tl: "im_inv (e # es) \<Longrightarrow> im_inv es"
  by (auto simp: im_inv_def segs_Cons coalesced_def)

lemma lookup_inj: "im_inv m \<Longrightarrow> im_inv n \<Longrightarrow> lookup m = lookup n \<Longrightarrow> m = n"
proof (induction m arbitrary: n)
  case Nil
  show ?case
  proof (cases n)
    case (Cons f fs)
    then have "lookup n (eStart f) = Some (EntryStamp f)" using Nil(2) lookup_start by (simp add: im_inv_def)
    then show ?thesis using Nil(3) by (metis lookup.simps(1) option.distinct(1))
  qed simp
next
  case (Cons e es)
  obtain f fs where n: "n = f # fs"
  proof (cases n)
    case Nil
    have "lookup (e # es) (eStart e) = Some (EntryStamp e)"
      using Cons.prems(1) lookup_start by (simp add: im_inv_def)
    then show ?thesis using Nil Cons.prems(3) by (metis lookup.simps(1) option.distinct(1))
  qed
  note inv = Cons.prems(1) Cons.prems(2) [unfolded n] and eq = Cons.prems(3) [unfolded n]
  have seg: "segs (e # es)" "segs (f # fs)" using inv by (simp_all add: im_inv_def)
  have st: "eStart e = eStart f"
    using lookup_Some_ge [OF seg(1)] lookup_Some_ge [OF seg(2)] lookup_start [OF seg(1)]
      lookup_start [OF seg(2)] eq by (metis order_antisym)
  have en: "eEnd e = eEnd f"
    using lookup_end_le [OF inv eq st] lookup_end_le [OF inv(2,1) eq [symmetric] st [symmetric]] by simp
  have sm: "EntryStamp e = EntryStamp f"
    using lookup_start [OF seg(1)] lookup_start [OF seg(2)] eq st by simp
  have ef: "e = f" using st en sm by (intro interval_entry.expand conjI byte_range.expand) auto
  have "lookup es off = lookup fs off" for off
  proof (cases "off < eEnd e")
    case True
    then show ?thesis using seg en
      by (simp add: lookup_None_below segs_Cons order.strict_trans2)
  next
    case False
    then show ?thesis using fun_cong [OF eq, of off] ef by simp
  qed
  then show ?case using Cons.IH [of fs] inv im_inv_tl n ef by blast
qed

section \<open>Reading, pruning and clipping\<close>

lemma At_lookup:
  assumes "im_inv m" shows "At m off = (case lookup m off of Some s \<Rightarrow> s | None \<Rightarrow> zero_stamp)"
proof -
  let ?P = "\<lambda>e. eStart e \<le> off"
  define xs where "xs = takeWhile ?P m"
  define ys where "ys = dropWhile ?P m"
  have seg: "segs m" using assms by (simp add: im_inv_def)
  have "sorted_wrt (\<lambda>a b. ?P b \<longrightarrow> ?P a) m"
  proof (rule sorted_wrt_mono_rel)
    show "sorted_wrt (\<lambda>a b. eEnd a \<le> eStart b) m" using seg by (simp add: segs_def)
    show "?P b \<longrightarrow> ?P a" if "a \<in> set m" "eEnd a \<le> eStart b" for a b
      using seg that by (auto simp: segs_def dest!: bspec)
  qed
  then have i: "sort_Search (length m) (\<lambda>i. \<not> ?P (m ! i)) = length xs"
    and above: "\<forall>y \<in> set ys. \<not> ?P y"
    unfolding xs_def ys_def by (rule sort_Search_takeWhile, rule dropWhile_prefix_fails)
  have m: "m = xs @ ys" by (simp add: xs_def ys_def)
  have ys: "lookup ys off = None" using above by (intro lookup_None_below) auto
  show ?thesis
  proof (cases xs rule: rev_cases)
    case Nil
    then show ?thesis using i m ys by (simp add: At_def)
  next
    case (snoc us e)
    then have "?P e" using set_takeWhileD [of e ?P m] by (simp add: xs_def)
    moreover have "lookup us off = None"
      using seg m snoc \<open>?P e\<close> by (intro lookup_None_above) (auto simp: segs_append intro: order_trans)
    ultimately show ?thesis using i m snoc ys
      by (simp add: At_def lookup_append nth_append)
  qed
qed

lemma segs_filter: "segs m \<Longrightarrow> segs (filter p m)"
  by (induction m) (auto simp: segs_Cons)

lemma Prune_correct:
  assumes "im_inv m"
  shows "im_inv (Prune f m) \<and>
    lookup (Prune f m) off = (case lookup m off of Some s \<Rightarrow> if f < s then Some s else None | None \<Rightarrow> None)"
  using assms
proof (induction m)
  case (Cons e m)
  have "lookup m off = None" if "off < eEnd e"
    using that Cons.prems by (intro lookup_None_below) (auto simp: im_inv_def segs_Cons)
  with Cons im_inv_tl [OF Cons.prems] show ?case
    by (auto simp: Prune_def im_inv_def segs_Cons coalesced_def)
qed (simp add: Prune_def im_inv_def coalesced_def)

lemma Clip_starts: "x \<in> set (Clip k m) \<Longrightarrow> \<exists>e \<in> set m. eStart x = eStart e \<and> EntryStamp x = EntryStamp e"
  by (induction m) (auto split: if_splits)

lemma Clip_beyond: "\<forall>e \<in> set m. k \<le> eStart e \<Longrightarrow> Clip k m = []"
  by (induction m) auto

lemma Clip_correct:
  assumes "im_inv m"
  shows "im_inv (Clip k m) \<and> lookup (Clip k m) off = (if off < k then lookup m off else None)"
  using assms
proof (induction m)
  case (Cons e m)
  have inv: "im_inv m" "eStart e < eEnd e" "\<forall>x \<in> set m. eEnd e \<le> eStart x"
    using Cons.prems im_inv_tl [OF Cons.prems] by (auto simp: im_inv_def segs_Cons)
  note IH = Cons.IH [OF inv(1)]
  have below: "lookup m off = None" if "off < eEnd e"
    using that inv(3) by (intro lookup_None_below) auto
  consider (drop) "k \<le> eStart e" | (cut) "eStart e < k" "k < eEnd e" | (keep) "eStart e < k" "eEnd e \<le> k"
    by fastforce
  then show ?case
  proof cases
    case drop
    then have "k \<le> eEnd e" using inv(2) by simp
    then have "\<forall>x \<in> set m. k \<le> eStart x" using inv(3) order_trans by blast
    with drop inv below show ?thesis by (auto simp: Clip_beyond im_inv_def coalesced_def)
  next
    case cut
    then have "\<forall>x \<in> set m. k \<le> eStart x" using inv(3) less_imp_le order_trans by blast
    with cut inv below show ?thesis by (auto simp: Clip_beyond im_inv_def coalesced_def segs_Cons)
  next
    case keep
    have "eEnd e \<le> eStart x \<and> (eEnd e = eStart x \<longrightarrow> EntryStamp e \<noteq> EntryStamp x)"
      if x: "x \<in> set (Clip k m)" for x
    proof -
      obtain y where "y \<in> set m" "eStart x = eStart y" "EntryStamp x = EntryStamp y"
        using Clip_starts [OF x] by blast
      then show ?thesis using Cons.prems by (simp add: im_inv_def segs_Cons coalesced_def)
    qed
    then have "im_inv (e # Clip k m)"
      using IH inv(2) by (simp add: im_inv_def segs_Cons coalesced_def)
    moreover have "Clip k (e # m) = e # Clip k m" using keep by auto
    moreover have "off < eEnd e \<Longrightarrow> off < k" using keep by simp
    ultimately show ?thesis using IH by (cases "off < eEnd e") simp_all
  qed
qed (simp add: im_inv_def coalesced_def)

section \<open>Patches commute\<close>

type_synonym blob_write = "u64 \<times> u64 \<times> stamp"

definition deliver_write :: "stamp \<Rightarrow> blob_write \<Rightarrow> intervals \<Rightarrow> intervals" where
  "deliver_write b = (\<lambda>(start, end', c) m. fst (Apply start end' c b m))"

lemma lww_byte_idem: "lww_byte c b (lww_byte c b x) = lww_byte c b x"
  by (cases x) auto

lemma lww_byte_commute: "lww_byte c b (lww_byte d b x) = lww_byte d b (lww_byte c b x)"
  by (cases x) (auto simp: max_def)

lemma deliver_write_correct:
  assumes "im_inv m"
  shows "im_inv (deliver_write b (start, end', c) m)"
    and "lookup (deliver_write b (start, end', c) m) off =
      (if start \<le> off \<and> off < end' then lww_byte c b (lookup m off) else lookup m off)"
  using Apply_correct [OF assms, of start end' c b off] by (simp_all add: deliver_write_def)

lemma deliver_write_idem:
  assumes "im_inv m" shows "deliver_write b w (deliver_write b w m) = deliver_write b w m"
proof -
  obtain start end' c where w: "w = (start, end', c)" by (cases w)
  note r = deliver_write_correct
  show ?thesis unfolding w
    by (intro lookup_inj r ext) (simp_all add: assms r lww_byte_idem)
qed

lemma deliver_write_commute:
  assumes "im_inv m"
  shows "deliver_write b w (deliver_write b v m) = deliver_write b v (deliver_write b w m)"
proof -
  obtain s1 e1 c s2 e2 d where w: "w = (s1, e1, c)" and v: "v = (s2, e2, d)" by (cases w, cases v)
  note r = deliver_write_correct
  show ?thesis unfolding w v
    by (intro lookup_inj r ext) (simp_all add: assms r lww_byte_commute)
qed

interpretation blob_layer: replicated "deliver_write b" im_inv "\<lambda>_. True" "\<lambda>_ _. True" for b
proof
  show "im_inv (deliver_write b w m)" if "im_inv m" for w m
    using that by (cases w) (simp add: deliver_write_correct)
qed (simp_all add: deliver_write_commute deliver_write_idem)

section \<open>Properties\<close>

text \<open>
  C11: \<open>intervalMap.Apply\<close> is last-writer-wins on every byte. On a map whose entries are sorted,
  disjoint and coalesced it returns such a map; each byte of \<open>[start, end)\<close> holds the larger
  of the patch's stamp and the stamp held, or the patch's stamp where it beats the baseline
  on a byte without an entry; every other byte is untouched; and the ranges reported as won
  cover exactly the bytes on which the patch strictly dominates.
\<close>

theorem apply_per_byte:
  assumes "im_inv m" and "Apply start end' c baseline m = (m', won)"
  shows "im_inv m' \<and>
    lookup m' off = (if start \<le> off \<and> off < end' then lww_byte c baseline (lookup m off) else lookup m off) \<and>
    (in_ranges won off \<longleftrightarrow> start \<le> off \<and> off < end' \<and> wins c baseline (lookup m off))"
  using Apply_correct [OF assms(1), of start end' c baseline off]
    Apply_won [OF assms(1), of start end' c baseline off] assms(2) by simp

theorem apply_per_byte_witness:
  "let s1 = Stamp (Clock 5 0) 1; s2 = Stamp (Clock 7 0) 2; b = Stamp (Clock 1 0) 1;
       m = [IntervalEntry (ByteRange 2 6) s2, IntervalEntry (ByteRange 8 9) b]
   in im_inv m \<and>
     Apply 4 10 s1 b m =
       ([IntervalEntry (ByteRange 2 6) s2, IntervalEntry (ByteRange 6 10) s1], [ByteRange 6 8, ByteRange 8 9, ByteRange 9 10]) \<and>
     lookup (fst (Apply 4 10 s1 b m)) 8 = Some s1"
proof -
  let ?s1 = "Stamp (Clock 5 0) 1" and ?s2 = "Stamp (Clock 7 0) 2" and ?b = "Stamp (Clock 1 0) 1"
  let ?m = "[IntervalEntry (ByteRange 2 6) ?s2, IntervalEntry (ByteRange 8 9) ?b]"
  have inv: "im_inv ?m" by (simp add: im_inv_def segs_def coalesced_def)
  have run: "Apply 4 10 ?s1 ?b ?m = ([IntervalEntry (ByteRange 2 6) ?s2, IntervalEntry (ByteRange 6 10) ?s1],
      [ByteRange 6 8, ByteRange 8 9, ByteRange 9 10])"
    by (simp add: Apply_patch coalesce_def piece_def gap_def claimed_def stamp_less max_def less_eq_stamp_def)
  from apply_per_byte [OF inv run, of 8] inv run show ?thesis
    by (simp add: Let_def)
qed

text \<open>
  C12: the byte-range layer converges. Against one baseline, any two sequences made of the same
  set of patches, in any order and with any repetitions, leave the same list of intervals:
  the stored entries themselves are equal, not just the stamps they give the bytes.
\<close>

theorem blob_patches_converge:
  assumes "set ws = set vs" and "im_inv m"
  shows "fold (deliver_write baseline) ws m = fold (deliver_write baseline) vs m"
  using blob_layer.converges [of ws vs m baseline] assms by simp

theorem blob_patches_converge_witness:
  "fold (deliver_write zero_stamp) [(0, 4, Stamp (Clock 1 0) 1), (2, 8, Stamp (Clock 2 0) 1)] NewIntervalMap =
   fold (deliver_write zero_stamp)
     [(2, 8, Stamp (Clock 2 0) 1), (0, 4, Stamp (Clock 1 0) 1), (2, 8, Stamp (Clock 2 0) 1)] NewIntervalMap"
  by (rule blob_patches_converge) (auto simp: NewIntervalMap_def im_inv_def coalesced_def)

text \<open>
  Reading, pruning and clipping do what they say per byte. \<open>At\<close> returns the stamp of the
  interval covering the byte and the zero stamp when none does; \<open>Prune\<close> forgets exactly the bytes
  whose stamp does not dominate the floor; \<open>Clip\<close> forgets exactly the bytes at or past the new
  end; both keep the map sorted, disjoint and coalesced.
\<close>

theorem at_prune_clip:
  assumes "im_inv m"
  shows "At m off = (case lookup m off of Some s \<Rightarrow> s | None \<Rightarrow> zero_stamp) \<and>
    im_inv (Prune f m) \<and>
    lookup (Prune f m) off = (case lookup m off of Some s \<Rightarrow> if Dominates s f then Some s else None | None \<Rightarrow> None) \<and>
    im_inv (Clip k m) \<and> lookup (Clip k m) off = (if off < k then lookup m off else None)"
  using At_lookup [OF assms] Prune_correct [OF assms] Clip_correct [OF assms]
  by (simp split: option.split)

theorem at_prune_clip_witness:
  "let m = [IntervalEntry (ByteRange 2 6) (Stamp (Clock 5 0) 1)]
   in im_inv m \<and> At m 3 = Stamp (Clock 5 0) 1 \<and> lookup (Clip 4 m) 5 = None"
proof -
  have inv: "im_inv [IntervalEntry (ByteRange 2 6) (Stamp (Clock 5 0) 1)]"
    by (simp add: im_inv_def segs_def coalesced_def)
  from at_prune_clip [OF inv, of 3 zero_stamp 4] at_prune_clip [OF inv, of 5 zero_stamp 4] inv
  show ?thesis by (simp add: Let_def)
qed

end
