(* ===== verification/Row_State.thy ===== *)
theory Row_State
  imports Interval "HOL-Library.Mapping"
begin

text \<open>
  \<open>crdt/state.go\<close>: the state of one row. The causal length \<open>CL\<close> carries liveness in its parity and
  the row's generation in its size; \<open>Base\<close> is the row's stamp; \<open>Cells\<close> and \<open>Ranges\<close> are sparse
  overrides. \<open>Cells\<close> is an option, since the source tells a nil map from an empty one; a nil and an
  empty \<open>Ranges\<close> are never told apart.
\<close>

type_synonym table_id = id16
type_synonym column_id = id16
type_synonym key_id = id16
type_synonym pk_blob = bytes

record row_state =
  CL :: u64
  Base :: stamp
  Cells :: "(column_id, stamp) mapping option"
  Ranges :: "column_id \<rightharpoonup> intervals"

definition zero_row :: row_state where
  "zero_row = \<lparr>CL = 0, Base = zero_stamp, Cells = None, Ranges = Map.empty\<rparr>"

definition IsNeverExisted :: "row_state \<Rightarrow> bool" where
  "IsNeverExisted r \<longleftrightarrow> CL r = 0"

definition IsLive :: "row_state \<Rightarrow> bool" where
  "IsLive r \<longleftrightarrow> CL r > 0 \<and> CL r mod 2 = 1"

definition IsTombstoned :: "row_state \<Rightarrow> bool" where
  "IsTombstoned r \<longleftrightarrow> CL r > 0 \<and> CL r mod 2 = 0"

definition DominatedBy :: "row_state \<Rightarrow> u64 \<Rightarrow> stamp \<Rightarrow> bool" where
  "DominatedBy r incCL inc = (if incCL \<noteq> CL r then incCL > CL r else Dominates inc (Base r))"

definition NextLiveCL :: "row_state \<Rightarrow> u64" where
  "NextLiveCL r = (if IsLive r then CL r else CL r + 1)"

definition NextTombCL :: "row_state \<Rightarrow> u64" where
  "NextTombCL r = (if \<not> IsLive r then CL r else CL r + 1)"

definition EffectiveStamp :: "row_state \<Rightarrow> column_id \<Rightarrow> byte_range \<Rightarrow> stamp" where
  "EffectiveStamp r col rng =
     (case (if \<not> ByteRange_Empty rng then Ranges r col else None) of
        Some im \<Rightarrow> At im (Start rng)
      | None \<Rightarrow> (case Cells r of
                   Some cs \<Rightarrow> (case Mapping.lookup cs col of Some s \<Rightarrow> s | None \<Rightarrow> Base r)
                 | None \<Rightarrow> Base r))"

section \<open>Causal length\<close>

lemma row_parity:
  "IsLive r \<longleftrightarrow> odd (CL r)" "IsTombstoned r \<longleftrightarrow> CL r \<noteq> 0 \<and> even (CL r)"
  by (auto simp: IsLive_def IsTombstoned_def odd_iff_mod_2_eq_one even_iff_mod_2_eq_zero
      simp flip: word_neq_0_conv)

text \<open>
  The causal length's parity is the row's life. A row is exactly one of never-existed, live
  and tombstoned. As long as the counter is not exhausted, the length an insert takes
  (\<open>NextLiveCL\<close>) makes it live and the length a delete of a live row takes (\<open>NextTombCL\<close>) makes it a
  tombstone; neither ever lowers the counter, and a delete or a resurrecting insert raises
  it by one, so it wins against everything written to the old generation.
\<close>

theorem causal_length_life:
  assumes "CL r \<noteq> - 1"
  shows "(if CL r = 0 then IsNeverExisted r \<and> \<not> IsLive r \<and> \<not> IsTombstoned r
          else \<not> IsNeverExisted r \<and> IsLive r = (\<not> IsTombstoned r)) \<and>
    IsLive (r\<lparr>CL := NextLiveCL r\<rparr>) \<and> CL r \<le> NextLiveCL r \<and>
    (if IsLive r then IsTombstoned (r\<lparr>CL := NextTombCL r\<rparr>) \<and> DominatedBy r (NextTombCL r) s
     else NextTombCL r = CL r \<and> DominatedBy r (NextLiveCL r) s)"
proof -
  have "CL r < CL r + 1" "CL r + 1 \<noteq> 0"
    using assms u64_less_succ [of "CL r"] by auto
  then show ?thesis
    by (auto simp: row_parity NextLiveCL_def NextTombCL_def DominatedBy_def IsNeverExisted_def)
qed

theorem causal_length_life_witness:
  "CL (zero_row\<lparr>CL := 3\<rparr>) \<noteq> - 1 \<and> IsLive (zero_row\<lparr>CL := 3\<rparr>) \<and> NextTombCL (zero_row\<lparr>CL := 3\<rparr>) = 4 \<and>
   DominatedBy (zero_row\<lparr>CL := 3\<rparr>) 4 zero_stamp"
proof -
  have "CL (zero_row\<lparr>CL := 3\<rparr>) \<noteq> - 1" by simp
  from causal_length_life [OF this, of zero_stamp] show ?thesis
    by (simp add: row_parity NextTombCL_def)
qed

section \<open>Row arbitration\<close>

text \<open>
  \<open>DominatedBy\<close> compares \<open>(CL, Base)\<close> lexicographically: the row layer's arbitration key.
\<close>

type_synonym row_key_stamp = "u64 \<times> stamp"

definition RowDominates :: "row_key_stamp \<Rightarrow> row_key_stamp \<Rightarrow> bool" where
  "RowDominates a b = (fst b < fst a \<or> fst a = fst b \<and> Dominates (snd a) (snd b))"

lemma DominatedBy_iff: "DominatedBy r cl s \<longleftrightarrow> RowDominates (cl, s) (CL r, Base r)"
  by (auto simp: DominatedBy_def RowDominates_def)

interpretation row_lww: arbiter RowDominates
  by unfold_locales (auto simp: RowDominates_def prod_eq_iff)

section \<open>Effective stamps\<close>

lemma EffectiveStamp_cell:
  "EffectiveStamp r col (ByteRange 0 0) =
    (case Cells r of Some cs \<Rightarrow> (case Mapping.lookup cs col of Some s \<Rightarrow> s | None \<Rightarrow> Base r) | None \<Rightarrow> Base r)"
  by (simp add: EffectiveStamp_def ByteRange_Empty_def)

text \<open>
  C22: \<open>EffectiveStamp\<close> stops at the byte-range layer. For a column that has an interval map, a read
  of a byte no interval covers returns the zero stamp: it does not fall through to the cell
  or the row baseline, whatever stamps those hold.
\<close>

theorem effective_stamp_no_fallthrough:
  assumes "Ranges r col = Some im" and "im_inv im" and "lookup im (Start rng) = None"
    and "\<not> ByteRange_Empty rng"
  shows "EffectiveStamp r col rng = zero_stamp"
  using assms by (simp add: EffectiveStamp_def At_lookup)

theorem effective_stamp_no_fallthrough_witness:
  "let im = [IntervalEntry (ByteRange 0 4) (Stamp (Clock 9 0) 1)];
       r = \<lparr>CL = 1, Base = Stamp (Clock 5 0) 1, Cells = None, Ranges = [7 \<mapsto> im]\<rparr>
   in im_inv im \<and> EffectiveStamp r 7 (ByteRange 8 9) = zero_stamp \<and> EffectiveStamp r 7 (ByteRange 8 9) \<noteq> Base r"
proof -
  let ?im = "[IntervalEntry (ByteRange 0 4) (Stamp (Clock 9 0) 1)]"
  let ?r = "\<lparr>CL = 1, Base = Stamp (Clock 5 0) 1, Cells = None, Ranges = [7 \<mapsto> ?im]\<rparr>"
  have inv: "im_inv ?im" by (simp add: im_inv_def segs_def coalesced_def)
  have "EffectiveStamp ?r 7 (ByteRange 8 9) = zero_stamp"
    by (rule effective_stamp_no_fallthrough [OF _ inv]) (simp_all add: ByteRange_Empty_def)
  with inv show ?thesis by (simp add: Let_def)
qed

end
