(* ===== verification/Deps.thy ===== *)
theory Deps
  imports Identity "HOL-Library.Mapping"
begin

text \<open>
  \<open>crdt/deps.go\<close>: the causal dependency map a changeset carries. A Go map is a \<open>mapping\<close>; a nil map and
  an empty one are the same value, as the source states. \<open>Set\<close> panics rather than lower a
  position; \<open>Satisfied\<close> is monotone in what the receiver has.
\<close>

type_synonym chain_id = u16
type_synonym deps = "(chain_id, seq) mapping"

definition SchemaChain :: chain_id where
  "SchemaChain = 0"

text \<open>Indexing a Go map yields the zero value for a missing key.\<close>

definition deps_at :: "deps \<Rightarrow> chain_id \<Rightarrow> seq" where
  "deps_at d chain = (case Mapping.lookup d chain of Some s \<Rightarrow> s | None \<Rightarrow> 0)"

definition Deps_Set :: "deps \<Rightarrow> chain_id \<Rightarrow> seq \<Rightarrow> deps result" where
  "Deps_Set d chain seq =
     (case Mapping.lookup d chain of
        Some existing \<Rightarrow> if seq < existing then Inl PanicDepsLowered else Inr (Mapping.update chain seq d)
      | None \<Rightarrow> Inr (Mapping.update chain seq d))"

definition Deps_Satisfied :: "deps \<Rightarrow> deps \<Rightarrow> bool" where
  "Deps_Satisfied d have' = list_all (\<lambda>chain. \<not> deps_at have' chain < deps_at d chain) (Mapping.ordered_keys d)"

definition Deps_Equal :: "deps \<Rightarrow> deps \<Rightarrow> bool" where
  "Deps_Equal d other \<longleftrightarrow> d = other"

lemma finite_keys [simp]: "finite (Mapping.keys (d :: deps))"
  by (rule finite_subset [OF subset_UNIV]) simp

lemma Deps_Satisfied_iff: "Deps_Satisfied d h \<longleftrightarrow> (\<forall>chain. deps_at d chain \<le> deps_at h chain)"
proof -
  have "deps_at d chain \<le> deps_at h chain" if "chain \<notin> Mapping.keys d" for chain
    using that by (simp add: deps_at_def keys_is_none_rep Option.is_none_def)
  then show ?thesis
    by (auto simp: Deps_Satisfied_def list_all_iff ordered_keys_def not_less)
qed

lemma deps_at_update: "deps_at (Mapping.update c s d) chain = (if chain = c then s else deps_at d chain)"
  by (simp add: deps_at_def lookup_update')

text \<open>
  Dependencies only rise, and a satisfied changeset stays satisfied. \<open>Set\<close> either stores the new
  position, at or above the old one, and leaves the other chains alone, or refuses; and when
  every position a receiver has is at least what it was, \<open>Satisfied\<close> does not turn false.
\<close>

theorem deps_monotone:
  assumes "Deps_Set d chain seq = Inr d'" and "Deps_Satisfied d' h"
    and "\<forall>c. deps_at h c \<le> deps_at h' c"
  shows "(\<forall>c. deps_at d c \<le> deps_at d' c) \<and> deps_at d' chain = seq \<and> Deps_Satisfied d h \<and> Deps_Satisfied d' h'"
proof -
  have d': "d' = Mapping.update chain seq d"
    using assms(1) by (auto simp: Deps_Set_def split: option.splits if_splits)
  have up: "deps_at d c \<le> deps_at d' c" for c
    using assms(1) unfolding d'
    by (auto simp: lookup_update' Deps_Set_def deps_at_def split: option.splits if_splits)
  with assms(2,3) have "Deps_Satisfied d h" "Deps_Satisfied d' h'"
    unfolding Deps_Satisfied_iff by (meson order_trans)+
  with up d' show ?thesis by (simp add: deps_at_update)
qed

theorem deps_monotone_witness:
  "let d = Mapping.update SchemaChain 3 Mapping.empty; h = Mapping.update SchemaChain 7 Mapping.empty;
       d' = Mapping.update SchemaChain 5 d
   in Deps_Set d SchemaChain 5 = Inr d' \<and> Deps_Satisfied d' h \<and> Deps_Satisfied d h"
proof -
  let ?d = "Mapping.update SchemaChain 3 Mapping.empty :: deps"
  let ?h = "Mapping.update SchemaChain 7 Mapping.empty :: deps"
  let ?d' = "Mapping.update SchemaChain 5 ?d"
  have s: "Deps_Set ?d SchemaChain 5 = Inr ?d'" by (simp add: Deps_Set_def)
  have k: "Deps_Satisfied ?d' ?h"
    by (simp add: Deps_Satisfied_iff deps_at_update)
  from deps_monotone [OF s k, of ?h] s k show ?thesis by (simp add: Let_def)
qed

end
