(* ===== verification/Changeset.thy ===== *)
theory Changeset
  imports Row_State Deps
begin

text \<open>
  \<open>crdt/changeset.go\<close>: column values, the four kinds of row record and the changeset that carries
  them. \<open>Record\<close> is a sealed interface, hence a datatype with one constructor per implementation.
\<close>

definition WireVersion :: byte where "WireVersion = 2"
definition wireVersionV1 :: byte where "wireVersionV1 = 1"

type_synonym cluster_id = id16

definition ColNull :: u32 where "ColNull = 0"
definition ColInt :: u32 where "ColInt = 1"
definition ColReal :: u32 where "ColReal = 2"
definition ColText :: u32 where "ColText = 3"
definition ColBlob :: u32 where "ColBlob = 4"

definition FormatText :: byte where "FormatText = 0"
definition FormatBinary :: byte where "FormatBinary = 1"
definition FormatDelta :: byte where "FormatDelta = 2"

lemmas col_tags = ColNull_def ColInt_def ColReal_def ColText_def ColBlob_def
  FormatText_def FormatBinary_def FormatDelta_def

datatype col_value =
  ColValue (Column: column_id) (TypeTag: u32) (Format: byte) (VBytes: bytes)

datatype blob_patch_range = BlobPatchRange (Offset: u64) (RBytes: bytes)

definition BlobPatchRange_End :: "blob_patch_range \<Rightarrow> u64" where
  "BlobPatchRange_End r = Offset r + u64_len (RBytes r)"

datatype dml_record =
    Insert table_id pk_blob u64 "col_value list"
  | Update table_id pk_blob u64 "col_value list"
  | Delete table_id pk_blob u64
  | BlobPatch table_id pk_blob u64 column_id "blob_patch_range list"

definition opInsert :: byte where "opInsert = 1"
definition opUpdate :: byte where "opUpdate = 2"
definition opDelete :: byte where "opDelete = 3"
definition opBlobPatch :: byte where "opBlobPatch = 4"

lemmas record_ops = opInsert_def opUpdate_def opDelete_def opBlobPatch_def

record record_header =
  HOp :: byte
  HTable :: table_id
  HPK :: pk_blob
  HCL :: u64

fun Header :: "dml_record \<Rightarrow> record_header" where
  "Header (Insert t pk cl _) = \<lparr>HOp = opInsert, HTable = t, HPK = pk, HCL = cl\<rparr>"
| "Header (Update t pk cl _) = \<lparr>HOp = opUpdate, HTable = t, HPK = pk, HCL = cl\<rparr>"
| "Header (Delete t pk cl) = \<lparr>HOp = opDelete, HTable = t, HPK = pk, HCL = cl\<rparr>"
| "Header (BlobPatch t pk cl _ _) = \<lparr>HOp = opBlobPatch, HTable = t, HPK = pk, HCL = cl\<rparr>"

record changeset =
  csDot :: dot
  csStamp :: stamp
  csDeps :: deps
  csClusterID :: cluster_id
  csRecords :: "dml_record list"
  encoded :: bytes
  csCRC :: u64

end
