(* ===== verification/Cell_Group.thy ===== *)
theory Cell_Group
  imports Changeset
begin

text \<open>
  \<open>crdt/cellgroup.go\<close>: how a record of a cell-granular table becomes per-column writes, and the
  checked difference a counter column ships. \<open>CellTable\<close> is an interface the engines implement; its
  two methods are the fields of a record the definitions take as an argument. An \<open>int64\<close> is a 64-bit
  word read with \<open>sint\<close>.
\<close>

record cell_table =
  ColumnRole :: "column_id \<Rightarrow> bool \<times> bool"
  NonPKColumns :: "column_id list"

definition cellValue :: "cell_table \<Rightarrow> col_value \<Rightarrow> col_value list" where
  "cellValue t v =
     (case ColumnRole t (Column v) of (pk, counter) \<Rightarrow>
        if pk then []
        else if counter \<and> TypeTag v = ColInt \<and> length (VBytes v) = 8
        then [ColValue (Column v) (TypeTag v) FormatDelta (VBytes v)]
        else [v])"

fun AsCellUpdate :: "cell_table \<Rightarrow> dml_record \<Rightarrow> row_state \<Rightarrow> dml_record option" where
  "AsCellUpdate t (Update tbl pk cl changed) rs = Some (Update tbl pk cl changed)"
| "AsCellUpdate t (Insert tbl pk cl img) rs =
     (if \<not> IsLive rs \<or> cl \<noteq> CL rs then None
      else Some (Update tbl pk cl (concat (map (cellValue t) img))))"
| "AsCellUpdate t _ rs = None"

definition ColValueEqual :: "col_value \<Rightarrow> col_value \<Rightarrow> bool" where
  "ColValueEqual a b =
     (if TypeTag a \<noteq> TypeTag b \<or> length (VBytes a) \<noteq> length (VBytes b) then False
      else list_all (\<lambda>i. VBytes a ! i = VBytes b ! i) [0..<length (VBytes a)])"

definition counterInt :: "col_value \<Rightarrow> u64 option" where
  "counterInt v = (if TypeTag v \<noteq> ColInt \<or> length (VBytes v) \<noteq> 8 then None else Some (be_word (VBytes v)))"

definition encodeInt64 :: "u64 \<Rightarrow> bytes" where
  "encodeInt64 n = put_u64 n"

definition CounterDelta :: "col_value \<Rightarrow> col_value \<Rightarrow> col_value result" where
  "CounterDelta old new =
     (case counterInt old of None \<Rightarrow> Inl ErrCounterValue
      | Some oldV \<Rightarrow>
        (case counterInt new of None \<Rightarrow> Inl ErrCounterValue
         | Some newV \<Rightarrow>
           let delta = newV - oldV in
           if (sint oldV > 0 \<and> sint delta > sint newV) \<or> (sint oldV < 0 \<and> sint delta < sint newV)
           then Inl ErrCounterValue
           else Inr (ColValue (Column new) ColInt FormatDelta (encodeInt64 delta))))"

definition CoversAllNonPK :: "cell_table \<Rightarrow> col_value list \<Rightarrow> bool" where
  "CoversAllNonPK t writes = list_all (\<lambda>c. c \<in> set (map Column writes)) (NonPKColumns t)"

section \<open>The checked difference\<close>

lemma sint_range: "- (2 ^ 63) \<le> sint (a :: u64)" "sint (a :: u64) < 2 ^ 63"
  using sint_ge [of a] sint_lt [of a] by simp_all

lemma sint_diff:
  fixes a b :: u64
  shows "sint (a - b) = (let d = sint a - sint b in
    if d < - (2 ^ 63) then d + 2 ^ 64 else if d < 2 ^ 63 then d else d - 2 ^ 64)"
proof -
  define d where "d = sint a - sint b"
  have r: "- (2 ^ 64) < d" "d < 2 ^ 64" using sint_range [of a] sint_range [of b] by (simp_all add: d_def)
  have s: "sint (a - b) = signed_take_bit 63 d" by (simp add: sint_word_ariths d_def)
  have m: "signed_take_bit 63 d = (d + 2 ^ 63) mod 2 ^ 64 - 2 ^ 63"
    by (simp add: signed_take_bit_eq_take_bit_shift take_bit_eq_mod)
  consider "d < - (2 ^ 63)" | "- (2 ^ 63) \<le> d" "d < 2 ^ 63" | "2 ^ 63 \<le> d" by linarith
  then show ?thesis
  proof cases
    case 1
    then have "(d + 2 ^ 63) mod 2 ^ 64 = d + 2 ^ 63 + 2 ^ 64"
      using r mod_add_self2 [of "d + 2 ^ 63" "2 ^ 64"] by (simp add: mod_pos_pos_trivial)
    then show ?thesis using s m 1 by (simp add: Let_def d_def)
  next
    case 2
    then show ?thesis using s m by (simp add: Let_def d_def mod_pos_pos_trivial)
  next
    case 3
    then have "(d + 2 ^ 63) mod 2 ^ 64 = d + 2 ^ 63 - 2 ^ 64"
      using r minus_mod_self2 [of "d + 2 ^ 63" "2 ^ 64"] by (simp add: mod_pos_pos_trivial)
    then show ?thesis using s m 3 by (simp add: Let_def d_def)
  qed
qed

lemma overflow_check_exact:
  fixes a b :: u64
  shows "(sint b > 0 \<and> sint (a - b) > sint a) \<or> (sint b < 0 \<and> sint (a - b) < sint a) \<longleftrightarrow>
    sint a - sint b < - (2 ^ 63) \<or> 2 ^ 63 \<le> sint a - sint b"
  using sint_range [of a] sint_range [of b] unfolding sint_diff Let_def by auto

text \<open>
  C19: a counter's shipped difference is right or refused. For two 8-byte integer values,
  \<open>CounterDelta\<close> succeeds exactly when \<open>new - old\<close> fits in 64 bits, and then the bytes it ships read
  back as that difference, so adding it to the old value gives the new one; it never ships a
  wrapped difference.
\<close>

theorem counter_delta_exact:
  assumes "counterInt old = Some a" and "counterInt new = Some b"
  shows "case CounterDelta old new of
      Inr v \<Rightarrow> - (2 ^ 63) \<le> sint b - sint a \<and> sint b - sint a < 2 ^ 63 \<and>
        (\<exists>d. counterInt v = Some d \<and> sint d = sint b - sint a \<and> a + d = b) \<and>
        Format v = FormatDelta \<and> Column v = Column new
    | Inl err \<Rightarrow> err = ErrCounterValue \<and> (sint b - sint a < - (2 ^ 63) \<or> 2 ^ 63 \<le> sint b - sint a)"
proof -
  let ?over = "(sint a > 0 \<and> sint (b - a) > sint b) \<or> (sint a < 0 \<and> sint (b - a) < sint b)"
  have exact: "?over \<longleftrightarrow> sint b - sint a < - (2 ^ 63) \<or> 2 ^ 63 \<le> sint b - sint a"
    by (rule overflow_check_exact)
  show ?thesis
  proof (cases ?over)
    case True
    then show ?thesis using exact assms by (simp add: CounterDelta_def Let_def)
  next
    case False
    then have r: "\<not> sint b - sint a < - (2 ^ 63)" "sint b - sint a < 2 ^ 63" using exact by linarith+
    then have "sint (b - a) = sint b - sint a" by (simp add: sint_diff Let_def)
    moreover have "CounterDelta old new = Inr (ColValue (Column new) ColInt FormatDelta (put_u64 (b - a)))"
      using False assms by (simp add: CounterDelta_def Let_def encodeInt64_def)
    ultimately show ?thesis using r by (simp add: counterInt_def)
  qed
qed

theorem counter_delta_exact_witness:
  "counterInt (ColValue 1 ColInt 0 (put_u64 5)) = Some 5 \<and> counterInt (ColValue 1 ColInt 0 (put_u64 12)) = Some 12 \<and>
   CounterDelta (ColValue 1 ColInt 0 (put_u64 5)) (ColValue 1 ColInt 0 (put_u64 12)) =
     Inr (ColValue 1 ColInt FormatDelta (put_u64 7))"
proof -
  let ?a = "ColValue 1 ColInt 0 (put_u64 5)" and ?b = "ColValue 1 ColInt 0 (put_u64 12)"
  have ab: "counterInt ?a = Some 5" "counterInt ?b = Some 12" by (simp_all add: counterInt_def)
  have r: "CounterDelta ?a ?b = Inr (ColValue 1 ColInt FormatDelta (put_u64 7))"
    by (simp add: CounterDelta_def ab Let_def encodeInt64_def)
  from counter_delta_exact [OF ab] ab r show ?thesis by simp
qed

section \<open>Normalised records\<close>

lemma ColValueEqual_iff: "ColValueEqual a b \<longleftrightarrow> TypeTag a = TypeTag b \<and> VBytes a = VBytes b"
  by (auto simp: ColValueEqual_def list_all_iff intro: nth_equalityI)

lemma AsCellUpdate_keeps_key:
  "AsCellUpdate t r rs = Some u \<Longrightarrow> HTable (Header u) = HTable (Header r) \<and> HPK (Header u) = HPK (Header r) \<and>
    HCL (Header u) = HCL (Header r) \<and> HOp (Header u) = opUpdate"
  by (cases r) (auto split: if_splits)

lemma cellValue_roles:
  assumes "w \<in> set (concat (map (cellValue t) img))"
  shows "\<exists>v \<in> set img. Column w = Column v \<and> \<not> fst (ColumnRole t (Column v)) \<and> VBytes w = VBytes v \<and> TypeTag w = TypeTag v"
proof -
  obtain v where v: "v \<in> set img" "w \<in> set (cellValue t v)" using assms by auto
  then have "Column w = Column v \<and> \<not> fst (ColumnRole t (Column v)) \<and> VBytes w = VBytes v \<and> TypeTag w = TypeTag v"
    by (cases "ColumnRole t (Column v)") (auto simp: cellValue_def split: if_splits)
  with v(1) show ?thesis by blast
qed

end
