(* ===== verification/Unique_Predicate.thy ===== *)
theory Unique_Predicate
  imports Changeset
begin

text \<open>
  \<open>crdt/unique_predicate.go\<close> and \<open>crdt/collation.go\<close>: the compiled WHERE clause of a partial unique
  index, its three-valued evaluation against a row image and its byte encoding. The rendering
  back to SQL text is not modelled.
\<close>

section \<open>Collations\<close>

type_synonym collation = byte

definition CollBinary :: collation where "CollBinary = 0"
definition CollNocase :: collation where "CollNocase = 1"
definition CollRtrim :: collation where "CollRtrim = 2"

lemmas coll_tags = CollBinary_def CollNocase_def CollRtrim_def

text \<open>\<open>bytes.Compare\<close>: lexicographic, a proper prefix is less.\<close>

fun bytes_Compare :: "bytes \<Rightarrow> bytes \<Rightarrow> int" where
  "bytes_Compare [] [] = 0"
| "bytes_Compare [] (_ # _) = - 1"
| "bytes_Compare (_ # _) [] = 1"
| "bytes_Compare (x # xs) (y # ys) = (if x < y then - 1 else if x > y then 1 else bytes_Compare xs ys)"

definition foldNocase :: "bytes \<Rightarrow> bytes" where
  "foldNocase s = map (\<lambda>b. if b \<ge> 65 \<and> b \<le> 90 then b + (97 - 65) else b) s"

definition rtrim :: "bytes \<Rightarrow> bytes" where
  "rtrim s = rev (dropWhile (\<lambda>b. b = 32) (rev s))"

definition CompareText :: "collation \<Rightarrow> bytes \<Rightarrow> bytes \<Rightarrow> int" where
  "CompareText c a b =
     (if c = CollNocase then bytes_Compare (foldNocase a) (foldNocase b)
      else if c = CollRtrim then bytes_Compare (rtrim a) (rtrim b)
      else bytes_Compare a b)"

section \<open>IEEE 754 doubles\<close>

text \<open>
  What the code uses of \<open>float64\<close>: reading one from its bits, converting an \<open>int64\<close> (round to
  nearest, ties to even) and comparing. Every finite double is an integer multiple of the
  smallest positive one, \<open>2^-1074\<close>; \<open>Fin k\<close> is the value \<open>k * 2^-1074\<close>.
\<close>

datatype float64 = NaN | Inf bool | Fin int

definition Float64frombits :: "u64 \<Rightarrow> float64" where
  "Float64frombits v =
     (let neg = bit v 63; ex = unat (drop_bit 52 v AND 0x7FF); frac = uint (v AND (2 ^ 52 - 1))
      in if ex = 0x7FF then (if frac = 0 then Inf neg else NaN)
         else let m = (if ex = 0 then frac else (frac + 2 ^ 52) * 2 ^ (ex - 1))
              in Fin (if neg then - m else m))"

fun bit_length :: "nat \<Rightarrow> nat" where
  "bit_length n = (if n = 0 then 0 else Suc (bit_length (n div 2)))"

declare bit_length.simps [simp del]

text \<open>Round a natural number to 53 significant bits, ties to the even neighbour.\<close>

definition round53 :: "nat \<Rightarrow> nat" where
  "round53 n =
     (let k = bit_length n - 53; q = n div 2 ^ k; r = n mod 2 ^ k
      in if k = 0 then n
         else if 2 * r > 2 ^ k \<or> (2 * r = 2 ^ k \<and> odd q) then (q + 1) * 2 ^ k else q * 2 ^ k)"

definition float64_of_int64 :: "u64 \<Rightarrow> float64" where
  "float64_of_int64 v =
     (let x = sint v in Fin ((if x < 0 then - int (round53 (nat (- x))) else int (round53 (nat x))) * 2 ^ 1074))"

fun float_less :: "float64 \<Rightarrow> float64 \<Rightarrow> bool" where
  "float_less NaN _ = False"
| "float_less _ NaN = False"
| "float_less (Inf neg) (Inf neg') = (neg \<and> \<not> neg')"
| "float_less (Inf neg) (Fin _) = neg"
| "float_less (Fin _) (Inf neg) = (\<not> neg)"
| "float_less (Fin a) (Fin b) = (a < b)"

section \<open>Comparing values\<close>

fun decodeInt_loop :: "u64 \<Rightarrow> bytes \<Rightarrow> u64" where
  "decodeInt_loop v [] = v"
| "decodeInt_loop v (c # b) = decodeInt_loop (push_bit 8 v OR ucast c) b"

definition decodeInt :: "bytes \<Rightarrow> u64" where
  "decodeInt b = decodeInt_loop 0 b"

definition asFloat :: "col_value \<Rightarrow> float64" where
  "asFloat v = (if TypeTag v = ColReal then Float64frombits (decodeInt (VBytes v))
                else float64_of_int64 (decodeInt (VBytes v)))"

definition compareNumeric :: "col_value \<Rightarrow> col_value \<Rightarrow> int" where
  "compareNumeric a b =
     (if TypeTag a = ColInt \<and> TypeTag b = ColInt
      then let x = sint (decodeInt (VBytes a)); y = sint (decodeInt (VBytes b))
           in if x < y then - 1 else if x > y then 1 else 0
      else let x = asFloat a; y = asFloat b
           in if float_less x y then - 1 else if float_less y x then 1 else 0)"

definition classRank :: "u32 \<Rightarrow> int" where
  "classRank t = (if t = ColInt \<or> t = ColReal then 0 else if t = ColText then 1 else 2)"

definition compareValues :: "col_value \<Rightarrow> col_value \<Rightarrow> collation \<Rightarrow> int" where
  "compareValues a b coll =
     (let ra = classRank (TypeTag a); rb = classRank (TypeTag b)
      in if ra < rb then - 1 else if ra > rb then 1
         else if TypeTag a = ColInt \<or> TypeTag a = ColReal then compareNumeric a b
         else if TypeTag a = ColText then CompareText coll (VBytes a) (VBytes b)
         else bytes_Compare (VBytes a) (VBytes b))"

text \<open>The canonical integer and real encodings; a \<open>float64\<close> is given by its bits.\<close>

definition IntColValue :: "u64 \<Rightarrow> col_value" where
  "IntColValue v = ColValue 0 ColInt 0 (put_u64 v)"

definition RealColValue :: "u64 \<Rightarrow> col_value" where
  "RealColValue bits = ColValue 0 ColReal 0 (put_u64 bits)"

lemma decodeInt_be: "decodeInt b = be_word b"
proof -
  have "decodeInt_loop v b = foldl (\<lambda>v c. push_bit 8 v OR ucast c) v b" for v
    by (induction b arbitrary: v) auto
  then show ?thesis by (simp add: decodeInt_def be_word_def)
qed

lemma decodeInt_put [simp]: "decodeInt (put_u64 v) = v"
  by (simp add: decodeInt_be)

section \<open>Expressions\<close>

definition PredIsNull :: byte where "PredIsNull = 1"
definition PredIsNotNull :: byte where "PredIsNotNull = 2"
definition PredEq :: byte where "PredEq = 3"
definition PredNe :: byte where "PredNe = 4"
definition PredLt :: byte where "PredLt = 5"
definition PredLe :: byte where "PredLe = 6"
definition PredGt :: byte where "PredGt = 7"
definition PredGe :: byte where "PredGe = 8"
definition PredIn :: byte where "PredIn = 9"
definition PredNotIn :: byte where "PredNotIn = 10"
definition PredAnd :: byte where "PredAnd = 11"
definition PredOr :: byte where "PredOr = 12"
definition PredNot :: byte where "PredNot = 13"

lemmas pred_ops = PredIsNull_def PredIsNotNull_def PredEq_def PredNe_def PredLt_def PredLe_def PredGt_def
  PredGe_def PredIn_def PredNotIn_def PredAnd_def PredOr_def PredNot_def

definition isCmp :: "byte \<Rightarrow> bool" where
  "isCmp op \<longleftrightarrow> op \<in> {PredEq, PredNe, PredLt, PredLe, PredGt, PredGe}"

datatype pred_expr =
  PredExpr (POp: byte) (Col: column_id) (Lits: "col_value list") (Kids: "pred_expr list") (Coll: collation)

text \<open>A \<open>UniquePredicate\<close> is its root, \<open>None\<close> for a key that is not partial.\<close>

type_synonym unique_predicate = "pred_expr option"

definition predMaxNodes :: nat where "predMaxNodes = 256"

section \<open>Evaluation\<close>

datatype tri = triFalse | triTrue | triUnknown

definition boolTri :: "bool \<Rightarrow> tri" where
  "boolTri b = (if b then triTrue else triFalse)"

definition evalCmp :: "byte \<Rightarrow> col_value \<Rightarrow> col_value \<Rightarrow> collation \<Rightarrow> tri" where
  "evalCmp op col lit coll =
     (if TypeTag col = ColNull \<or> TypeTag lit = ColNull then triUnknown
      else let c = compareValues col lit coll
        in if op = PredEq then boolTri (c = 0)
           else if op = PredNe then boolTri (c \<noteq> 0)
           else if op = PredLt then boolTri (c < 0)
           else if op = PredLe then boolTri (c \<le> 0)
           else if op = PredGt then boolTri (c > 0)
           else if op = PredGe then boolTri (c \<ge> 0)
           else triUnknown)"

fun evalIn_loop :: "byte \<Rightarrow> col_value \<Rightarrow> collation \<Rightarrow> bool \<Rightarrow> col_value list \<Rightarrow> tri" where
  "evalIn_loop op col coll sawNull [] = (if sawNull then triUnknown else boolTri (op = PredNotIn))"
| "evalIn_loop op col coll sawNull (lit # lits) =
     (if TypeTag lit = ColNull then evalIn_loop op col coll True lits
      else if compareValues col lit coll = 0 then boolTri (op = PredIn)
      else evalIn_loop op col coll sawNull lits)"

definition evalIn :: "byte \<Rightarrow> col_value \<Rightarrow> col_value list \<Rightarrow> collation \<Rightarrow> tri" where
  "evalIn op col lits coll =
     (if TypeTag col = ColNull then triUnknown else evalIn_loop op col coll False lits)"

text \<open>\<open>Kids[0]\<close> and \<open>Lits[0]\<close> panic on an empty slice.\<close>

fun eval :: "(column_id \<Rightarrow> col_value) \<Rightarrow> pred_expr \<Rightarrow> tri result"
  and eval_and :: "(column_id \<Rightarrow> col_value) \<Rightarrow> tri \<Rightarrow> pred_expr list \<Rightarrow> tri result"
  and eval_or :: "(column_id \<Rightarrow> col_value) \<Rightarrow> tri \<Rightarrow> pred_expr list \<Rightarrow> tri result" where
  "eval lk (PredExpr op col lits kids coll) =
     (if op = PredAnd then eval_and lk triTrue kids
      else if op = PredOr then eval_or lk triFalse kids
      else if op = PredNot then
        (case kids of [] \<Rightarrow> Inl PanicIndex
         | k # _ \<Rightarrow> bindE (eval lk k) (\<lambda>t. Inr (case t of triTrue \<Rightarrow> triFalse | triFalse \<Rightarrow> triTrue | triUnknown \<Rightarrow> triUnknown)))
      else if op = PredIsNull then Inr (boolTri (TypeTag (lk col) = ColNull))
      else if op = PredIsNotNull then Inr (boolTri (TypeTag (lk col) \<noteq> ColNull))
      else if isCmp op then (case lits of [] \<Rightarrow> Inl PanicIndex | lit # _ \<Rightarrow> Inr (evalCmp op (lk col) lit coll))
      else if op = PredIn \<or> op = PredNotIn then Inr (evalIn op (lk col) lits coll)
      else Inr triUnknown)"
| "eval_and lk out [] = Inr out"
| "eval_and lk out (k # kids) = bindE (eval lk k) (\<lambda>t.
     case t of triFalse \<Rightarrow> Inr triFalse | triUnknown \<Rightarrow> eval_and lk triUnknown kids | triTrue \<Rightarrow> eval_and lk out kids)"
| "eval_or lk out [] = Inr out"
| "eval_or lk out (k # kids) = bindE (eval lk k) (\<lambda>t.
     case t of triTrue \<Rightarrow> Inr triTrue | triUnknown \<Rightarrow> eval_or lk triUnknown kids | triFalse \<Rightarrow> eval_or lk out kids)"

definition Eval :: "unique_predicate \<Rightarrow> (column_id \<Rightarrow> col_value) \<Rightarrow> bool result" where
  "Eval p lk = (case p of None \<Rightarrow> Inr True | Some e \<Rightarrow> bindE (eval lk e) (\<lambda>t. Inr (t = triTrue)))"

section \<open>Columns\<close>

fun columns_walk :: "pred_expr \<Rightarrow> column_id list \<Rightarrow> column_id list"
  and columns_kids :: "pred_expr list \<Rightarrow> column_id list \<Rightarrow> column_id list" where
  "columns_walk (PredExpr op col lits kids coll) out =
     (if op = PredAnd \<or> op = PredOr \<or> op = PredNot then columns_kids kids out
      else if col \<in> set out then out else out @ [col])"
| "columns_kids [] out = out"
| "columns_kids (k # kids) out = columns_kids kids (columns_walk k out)"

definition Predicate_Columns :: "unique_predicate \<Rightarrow> column_id list" where
  "Predicate_Columns p = (case p of None \<Rightarrow> [] | Some e \<Rightarrow> columns_walk e [])"

section \<open>Encoding\<close>

definition appendLiteral :: "col_value \<Rightarrow> bytes" where
  "appendLiteral v = [ucast (TypeTag v)] @
     (if TypeTag v \<in> {ColInt, ColReal, ColText, ColBlob} then appendString (VBytes v) else [])"

fun encode :: "pred_expr \<Rightarrow> bytes result" where
  "encode (PredExpr op col lits kids coll) = bindE
     (if op = PredAnd \<or> op = PredOr then
        bindE (mapE encode kids) (\<lambda>bs. Inr (AppendUvarint (u64_len kids) @ concat bs))
      else if op = PredNot then (case kids of [] \<Rightarrow> Inl PanicIndex | k # _ \<Rightarrow> encode k)
      else if op = PredIsNull \<or> op = PredIsNotNull then Inr (appendBytes16 col)
      else if isCmp op then
        (case lits of [] \<Rightarrow> Inl PanicIndex | lit # _ \<Rightarrow> Inr (appendBytes16 col @ appendLiteral lit @ [coll]))
      else if op = PredIn \<or> op = PredNotIn then
        Inr (appendBytes16 col @ AppendUvarint (u64_len lits) @ concat (map appendLiteral lits) @ [coll])
      else Inr [])
     (\<lambda>body. Inr (op # body))"

definition appendPredicate :: "unique_predicate \<Rightarrow> bytes result" where
  "appendPredicate p = (case p of None \<Rightarrow> Inr [0] | Some e \<Rightarrow> bindE (encode e) (\<lambda>b. Inr (1 # b)))"

definition EncodeUniquePredicate :: "unique_predicate \<Rightarrow> bytes result" where
  "EncodeUniquePredicate p = appendPredicate p"

section \<open>Decoding\<close>

definition readByte :: "bytes \<Rightarrow> (byte \<times> bytes) result" where
  "readByte buf = (case buf of [] \<Rightarrow> Inl ErrShortBuffer | b # buf \<Rightarrow> Inr (b, buf))"

definition readLiteral :: "bytes \<Rightarrow> (col_value \<times> bytes) result" where
  "readLiteral buf = bindE (readByte buf) (\<lambda>(b, buf).
     let tag = ucast b :: u32 in
     if tag = ColNull then Inr (ColValue 0 tag 0 [], buf)
     else if tag \<in> {ColInt, ColReal, ColText, ColBlob}
     then bindE (readString buf) (\<lambda>(v, buf). Inr (ColValue 0 tag 0 v, buf))
     else Inl (ErrUnknownColType tag))"

text \<open>The node counter the source passes by pointer is threaded through.\<close>

function decodePredExpr :: "bytes \<Rightarrow> nat \<Rightarrow> (pred_expr \<times> bytes \<times> nat) result"
  and decodeKids :: "nat \<Rightarrow> bytes \<Rightarrow> nat \<Rightarrow> (pred_expr list \<times> bytes \<times> nat) result" where
  "decodePredExpr buf n =
     (let n = n + 1 in
      if n > predMaxNodes then Inl ErrPredicateNodes
      else case buf of [] \<Rightarrow> Inl ErrShortBuffer
      | op # buf \<Rightarrow>
        if op = PredAnd \<or> op = PredOr then
          bindE (readUvarint buf) (\<lambda>(cnt, buf').
            if cnt = 0 then Inl ErrShortBuffer
            else if unat cnt > length buf' then Inl ErrShortBuffer
            else bindE (decodeKids (unat cnt) buf' n) (\<lambda>(kids, buf, n). Inr (PredExpr op 0 [] kids 0, buf, n)))
        else if op = PredNot then
          bindE (decodePredExpr buf n) (\<lambda>(k, buf, n). Inr (PredExpr op 0 [] [k] 0, buf, n))
        else if op = PredIsNull \<or> op = PredIsNotNull then
          bindE (readBytes16 buf) (\<lambda>(col, buf). Inr (PredExpr op col [] [] 0, buf, n))
        else if isCmp op then
          bindE (readBytes16 buf) (\<lambda>(col, buf).
          bindE (readLiteral buf) (\<lambda>(lit, buf).
          bindE (readByte buf) (\<lambda>(coll, buf). Inr (PredExpr op col [lit] [] coll, buf, n))))
        else if op = PredIn \<or> op = PredNotIn then
          bindE (readBytes16 buf) (\<lambda>(col, buf).
          bindE (readCounted readLiteral buf) (\<lambda>(lits, buf).
          bindE (readByte buf) (\<lambda>(coll, buf). Inr (PredExpr op col lits [] coll, buf, n))))
        else Inl (ErrPredicateOp op))"
| "decodeKids 0 buf n = Inr ([], buf, n)"
| "decodeKids (Suc k) buf n =
     bindE (decodePredExpr buf n) (\<lambda>(e, buf, n).
     bindE (decodeKids k buf n) (\<lambda>(es, buf, n). Inr (e # es, buf, n)))"
  by pat_completeness auto

lemma readByte_shorter: "readByte buf = Inr (b, rest) \<Longrightarrow> length rest < length buf"
  by (auto simp: readByte_def split: list.splits)

lemma readBytes16_shorter: "readBytes16 buf = Inr (x, rest) \<Longrightarrow> length rest \<le> length buf"
  by (auto simp: readBytes16_def split: if_splits)

lemma readString_shorter: "readString buf = Inr (x, rest) \<Longrightarrow> length rest \<le> length buf"
  by (auto simp: readString_def bindE_Inr_iff split: if_splits dest!: readUvarint_shorter)

lemma readLiteral_shorter: "readLiteral buf = Inr (v, rest) \<Longrightarrow> length rest \<le> length buf"
  by (auto simp: readLiteral_def bindE_Inr_iff Let_def split: if_splits dest!: readByte_shorter readString_shorter)

interpretation literal_reader: reader readLiteral by unfold_locales (rule readLiteral_shorter)

lemma readLiterals_shorter: "readCounted readLiteral buf = Inr (vs, rest) \<Longrightarrow> length rest \<le> length buf"
  by (auto simp: readCounted_def bindE_Inr_iff split: if_splits dest!: literal_reader.readN_shorter readUvarint_shorter)

lemmas readers_shorter = readUvarint_shorter readByte_shorter readBytes16_shorter readLiteral_shorter readLiterals_shorter

lemma decode_shorter:
  "decodePredExpr_decodeKids_dom (Inl (buf, n)) \<Longrightarrow> decodePredExpr buf n = Inr (e, rest, n') \<Longrightarrow> length rest < length buf"
  "decodePredExpr_decodeKids_dom (Inr (k, buf, n)) \<Longrightarrow> decodeKids k buf n = Inr (es, rest, n') \<Longrightarrow> length rest \<le> length buf"
proof (induction buf n and k buf n arbitrary: e rest n' and es rest n' rule: decodePredExpr_decodeKids.pinduct)
  case (1 buf n)
  from 1(4) obtain op b where buf: "buf = op # b"
    by (auto simp: decodePredExpr.psimps [OF 1(1)] Let_def split: if_splits list.splits)
  note eq = 1(4) [unfolded decodePredExpr.psimps [OF 1(1)], simplified buf]
  show ?case
  proof (cases "op = PredAnd \<or> op = PredOr")
    case True
    with eq obtain cnt b' kids where b': "readUvarint b = Inr (cnt, b')" "decodeKids (unat cnt) b' (n + 1) = Inr (kids, rest, n')"
      and c: "cnt \<noteq> 0" "unat cnt \<le> length b'" "n + 1 \<le> predMaxNodes"
      by (auto simp: Let_def bindE_Inr_iff split: if_splits)
    have "length rest \<le> length b'"
      by (rule 1(2) [OF refl _ buf True b'(1)]) (use b' c in auto)
    with readUvarint_shorter [OF b'(1)] show ?thesis by (simp add: buf)
  next
    case bool: False
    show ?thesis
    proof (cases "op = PredNot")
      case True
      with eq bool obtain k where k: "decodePredExpr b (n + 1) = Inr (k, rest, n')" and c: "n + 1 \<le> predMaxNodes"
        by (auto simp: Let_def bindE_Inr_iff split: if_splits)
      have "length rest < length b"
        by (rule 1(3) [OF refl _ buf bool True]) (use k c in auto)
      then show ?thesis by (simp add: buf)
    next
      case False
      with eq bool show ?thesis
        by (fastforce simp: Let_def bindE_Inr_iff buf split: if_splits dest: readers_shorter)
    qed
  qed
next
  case (2 buf n)
  then show ?case by (simp add: decodeKids.psimps)
next
  case (3 k buf n)
  from 3(4) obtain e b m es' where e: "decodePredExpr buf n = Inr (e, b, m)" "decodeKids k b m = Inr (es', rest, n')"
    by (auto simp: decodeKids.psimps(2) [OF 3(1)] bindE_Inr_iff)
  have "length b < length buf" by (rule 3(2) [OF e(1)])
  moreover have "length rest \<le> length b" by (rule 3(3) [OF e(1) refl refl e(2)])
  ultimately show ?case by simp
qed

termination decodePredExpr
  by (relation "measure (case_sum (\<lambda>(buf, n). 2 * length buf) (\<lambda>(k, buf, n). 2 * length buf + 1))")
    (auto dest: readUvarint_shorter decode_shorter)

definition readPredicate :: "bytes \<Rightarrow> (unique_predicate \<times> bytes) result" where
  "readPredicate buf = bindE (readByte buf) (\<lambda>(present, buf).
     if present = 0 then Inr (None, buf)
     else bindE (decodePredExpr buf 0) (\<lambda>(root, rest, _). Inr (Some root, rest)))"

definition DecodeUniquePredicate :: "bytes \<Rightarrow> unique_predicate result" where
  "DecodeUniquePredicate b = bindE (readPredicate b) (\<lambda>(p, rest).
     if rest \<noteq> [] then Inl (ErrTrailingBytes (length rest)) else Inr p)"

declare decodePredExpr.simps [simp del] decodeKids.simps [simp del]

section \<open>Well-formed expressions\<close>

text \<open>
  The shape admission builds: each node carries the fields its operator uses and no others, and a
  literal has no column, the default format, and no bytes when NULL.
\<close>

definition literal_ok :: "col_value \<Rightarrow> bool" where
  "literal_ok v \<longleftrightarrow> Column v = 0 \<and> Format v = 0 \<and> TypeTag v \<le> ColBlob \<and> slice_ok (VBytes v) \<and>
     (TypeTag v = ColNull \<longrightarrow> VBytes v = [])"

fun expr_ok :: "pred_expr \<Rightarrow> bool" where
  "expr_ok (PredExpr op col lits kids coll) \<longleftrightarrow>
     (if op = PredAnd \<or> op = PredOr then col = 0 \<and> lits = [] \<and> coll = 0 \<and> kids \<noteq> [] \<and> slice_ok kids \<and> list_all expr_ok kids
      else if op = PredNot then col = 0 \<and> lits = [] \<and> coll = 0 \<and> length kids = 1 \<and> list_all expr_ok kids
      else if op = PredIsNull \<or> op = PredIsNotNull then lits = [] \<and> kids = [] \<and> coll = 0
      else if isCmp op then length lits = 1 \<and> list_all literal_ok lits \<and> kids = []
      else if op = PredIn \<or> op = PredNotIn then slice_ok lits \<and> list_all literal_ok lits \<and> kids = []
      else False)"

fun nodes :: "pred_expr \<Rightarrow> nat" where
  "nodes (PredExpr op col lits kids coll) = Suc (sum_list (map nodes kids))"

fun pred_ok :: "unique_predicate \<Rightarrow> bool" where
  "pred_ok None = True"
| "pred_ok (Some e) \<longleftrightarrow> expr_ok e \<and> nodes e \<le> predMaxNodes"

lemma literal_roundtrip: "literal_ok v \<Longrightarrow> readLiteral (appendLiteral v @ rest) = Inr (v, rest)"
proof -
  assume ok: "literal_ok v"
  obtain col t f b where v: "v = ColValue col t f b" by (cases v)
  have t: "t \<le> 4" using ok by (simp add: literal_ok_def v col_tags)
  then have "unat t \<le> 4" by (simp add: word_le_nat_alt)
  then have "t \<in> {0, 1, 2, 3, 4}"
    by (auto simp: word_unat_eq_iff)
  then show ?thesis using ok
    by (auto simp: v readLiteral_def appendLiteral_def readByte_def col_tags literal_ok_def string_codec.dec_enc)
qed

interpretation literal_codec: codec appendLiteral readLiteral literal_ok
  by unfold_locales (rule literal_roundtrip)

lemma pred_distinct [simp]:
  "PredNot \<noteq> PredAnd" "PredNot \<noteq> PredOr" "PredIsNull \<noteq> PredAnd" "PredIsNull \<noteq> PredOr" "PredIsNull \<noteq> PredNot"
  "PredIsNotNull \<noteq> PredAnd" "PredIsNotNull \<noteq> PredOr" "PredIsNotNull \<noteq> PredNot" "PredIsNotNull \<noteq> PredIsNull"
  "PredIn \<noteq> PredAnd" "PredIn \<noteq> PredOr" "PredIn \<noteq> PredNot" "PredIn \<noteq> PredIsNull" "PredIn \<noteq> PredIsNotNull" "\<not> isCmp PredIn"
  "PredNotIn \<noteq> PredAnd" "PredNotIn \<noteq> PredOr" "PredNotIn \<noteq> PredNot" "PredNotIn \<noteq> PredIsNull" "PredNotIn \<noteq> PredIsNotNull"
  "\<not> isCmp PredNotIn" "PredNotIn \<noteq> PredIn" "PredIn \<noteq> PredNotIn" "PredOr \<noteq> PredAnd"
  by (simp_all add: pred_ops isCmp_def)

lemma isCmp_distinct:
  "isCmp op \<Longrightarrow> op \<noteq> PredAnd \<and> op \<noteq> PredOr \<and> op \<noteq> PredNot \<and> op \<noteq> PredIsNull \<and> op \<noteq> PredIsNotNull"
  by (auto simp: pred_ops isCmp_def)

lemma expr_ok_cases [consumes 1, case_names junct neg null cmp member]:
  assumes "expr_ok e"
  obtains op kids where "e = PredExpr op 0 [] kids 0" "op = PredAnd \<or> op = PredOr" "kids \<noteq> []" "slice_ok kids" "list_all expr_ok kids"
  | k where "e = PredExpr PredNot 0 [] [k] 0" "expr_ok k"
  | op col where "e = PredExpr op col [] [] 0" "op = PredIsNull \<or> op = PredIsNotNull"
  | op col lit coll where "e = PredExpr op col [lit] [] coll" "isCmp op" "literal_ok lit"
  | op col lits coll where "e = PredExpr op col lits [] coll" "op = PredIn \<or> op = PredNotIn" "slice_ok lits" "list_all literal_ok lits"
proof -
  obtain op col lits kids coll where e: "e = PredExpr op col lits kids coll" by (cases e)
  note ok = assms [unfolded e]
  consider "op = PredAnd \<or> op = PredOr" | "op = PredNot" | "op = PredIsNull \<or> op = PredIsNotNull" | "isCmp op"
    | "op = PredIn \<or> op = PredNotIn"
    | "\<not> (op = PredAnd \<or> op = PredOr)" "op \<noteq> PredNot" "\<not> (op = PredIsNull \<or> op = PredIsNotNull)" "\<not> isCmp op"
      "\<not> (op = PredIn \<or> op = PredNotIn)"
    by argo
  then show ?thesis
  proof cases
    case 1
    then have "col = 0" "lits = []" "coll = 0" "kids \<noteq> []" "slice_ok kids" "list_all expr_ok kids"
      using ok by (simp_all only: expr_ok.simps if_P simp_thms)
    then show ?thesis using that(1) 1 e by simp
  next
    case 2
    then have *: "col = 0" "lits = []" "coll = 0" "length kids = 1" "list_all expr_ok kids"
      using ok by simp_all
    then obtain k where "kids = [k]" by (auto simp: length_Suc_conv)
    then show ?thesis using that(2) [of k] 2 e * by simp
  next
    case 3
    then have "lits = [] \<and> kids = [] \<and> coll = 0" using ok by (elim disjE) simp_all
    then show ?thesis using that(3) [of op col] 3 e by simp
  next
    case 4
    then have *: "length lits = 1 \<and> list_all literal_ok lits \<and> kids = []" using ok isCmp_distinct [of op] by simp
    then obtain lit where "lits = [lit]" by (auto simp: length_Suc_conv)
    then show ?thesis using that(4) [of op col lit coll] 4 e * by simp
  next
    case 5
    then have "slice_ok lits \<and> list_all literal_ok lits \<and> kids = []" using ok by (elim disjE) simp_all
    then show ?thesis using that(5) [of op col lits coll] 5 e by simp
  next
    case 6
    then show ?thesis using ok by (simp only: expr_ok.simps if_not_P simp_thms if_False)
  qed
qed

section \<open>Round trip\<close>

definition enc_expr :: "pred_expr \<Rightarrow> bytes" where
  "enc_expr e = projr (encode e)"

lemma encode_junct:
  assumes "op = PredAnd \<or> op = PredOr" and "\<forall>k \<in> set kids. encode k = Inr (enc_expr k)"
  shows "encode (PredExpr op col lits kids coll) = Inr (op # AppendUvarint (u64_len kids) @ concat (map enc_expr kids))"
  using assms mapE_ok [OF assms(2)] by (simp only: encode.simps if_P bindE_simps)

lemma encode_neg: "encode (PredExpr PredNot col lits [k] coll) = bindE (encode k) (\<lambda>b. Inr (PredNot # b))"
  by simp

lemma encode_null:
  "op = PredIsNull \<or> op = PredIsNotNull \<Longrightarrow> encode (PredExpr op col lits kids coll) = Inr (op # appendBytes16 col)"
  by (elim disjE) simp_all

lemma encode_cmp:
  "isCmp op \<Longrightarrow> encode (PredExpr op col [lit] kids coll) = Inr (op # appendBytes16 col @ appendLiteral lit @ [coll])"
  using isCmp_distinct [of op] by simp

lemma encode_member:
  "op = PredIn \<or> op = PredNotIn \<Longrightarrow> encode (PredExpr op col lits kids coll) =
    Inr (op # appendBytes16 col @ AppendUvarint (u64_len lits) @ concat (map appendLiteral lits) @ [coll])"
  by (elim disjE) simp_all

lemmas encode_shapes = encode_junct encode_neg encode_null encode_cmp encode_member

declare encode.simps [simp del]

lemma encode_total: "expr_ok e \<Longrightarrow> encode e = Inr (enc_expr e) \<and> enc_expr e \<noteq> []"
proof (induction e)
  case (PredExpr op col lits kids coll)
  have "\<exists>x b. encode (PredExpr op col lits kids coll) = Inr (x # b)"
    using PredExpr.prems
  proof (cases rule: expr_ok_cases)
    case (junct op' kids')
    then have "\<forall>k \<in> set kids. encode k = Inr (enc_expr k)" using PredExpr.IH by (simp add: list_all_iff)
    from encode_junct [OF _ this] junct show ?thesis by blast
  next
    case (neg k)
    then have "k \<in> set kids" by simp
    with neg PredExpr.IH [of k] show ?thesis by (auto simp: encode_neg)
  qed (simp_all add: encode_shapes)
  then show ?case by (auto simp: enc_expr_def)
qed

lemma decode_junct:
  assumes "op = PredAnd \<or> op = PredOr" "n < predMaxNodes" "readUvarint buf = Inr (cnt, buf')" "cnt \<noteq> 0" "unat cnt \<le> length buf'"
  shows "decodePredExpr (op # buf) n =
    bindE (decodeKids (unat cnt) buf' (n + 1)) (\<lambda>(kids, buf, n). Inr (PredExpr op 0 [] kids 0, buf, n))"
  using assms by (simp add: decodePredExpr.simps [of "op # buf"])

lemma decode_neg:
  "n < predMaxNodes \<Longrightarrow> decodePredExpr (PredNot # buf) n =
    bindE (decodePredExpr buf (n + 1)) (\<lambda>(k, buf, n). Inr (PredExpr PredNot 0 [] [k] 0, buf, n))"
  by (simp add: decodePredExpr.simps [of "PredNot # buf"])

lemma decode_null:
  "n < predMaxNodes \<Longrightarrow> op = PredIsNull \<or> op = PredIsNotNull \<Longrightarrow> decodePredExpr (op # buf) n =
    bindE (readBytes16 buf) (\<lambda>(col, buf). Inr (PredExpr op col [] [] 0, buf, n + 1))"
  by (elim disjE) (simp_all add: decodePredExpr.simps [of "_ # buf"])

lemma decode_cmp:
  "n < predMaxNodes \<Longrightarrow> isCmp op \<Longrightarrow> decodePredExpr (op # buf) n =
    bindE (readBytes16 buf) (\<lambda>(col, buf).
    bindE (readLiteral buf) (\<lambda>(lit, buf).
    bindE (readByte buf) (\<lambda>(coll, buf). Inr (PredExpr op col [lit] [] coll, buf, n + 1))))"
  using isCmp_distinct [of op] by (simp add: decodePredExpr.simps [of "_ # buf"])

lemma decode_member:
  "n < predMaxNodes \<Longrightarrow> op = PredIn \<or> op = PredNotIn \<Longrightarrow> decodePredExpr (op # buf) n =
    bindE (readBytes16 buf) (\<lambda>(col, buf).
    bindE (readCounted readLiteral buf) (\<lambda>(lits, buf).
    bindE (readByte buf) (\<lambda>(coll, buf). Inr (PredExpr op col lits [] coll, buf, n + 1))))"
  by (elim disjE) (simp_all add: decodePredExpr.simps [of "_ # buf"])

lemma appendLiteral_nonempty [simp]: "appendLiteral v \<noteq> []"
  by (simp add: appendLiteral_def)

lemma literals_roundtrip:
  "slice_ok lits \<Longrightarrow> list_all literal_ok lits \<Longrightarrow>
    readCounted readLiteral (AppendUvarint (u64_len lits) @ concat (map appendLiteral lits) @ rest) = Inr (lits, rest)"
  using literal_codec.dec_counted [of lits rest] by (simp add: list_all_iff slice_ok_def u64_len_def)

lemma decodeKids_encode:
  assumes "\<And>k rest n. k \<in> set kids \<Longrightarrow> n + nodes k \<le> predMaxNodes \<Longrightarrow>
      decodePredExpr (enc_expr k @ rest) n = Inr (k, rest, n + nodes k)"
    and "n + sum_list (map nodes kids) \<le> predMaxNodes"
  shows "decodeKids (length kids) (concat (map enc_expr kids) @ rest) n = Inr (kids, rest, n + sum_list (map nodes kids))"
  using assms
proof (induction kids arbitrary: n)
  case (Cons k kids)
  from Cons.prems(1) [of k n] Cons.prems(2)
  have "decodePredExpr (enc_expr k @ concat (map enc_expr kids) @ rest) n = Inr (k, concat (map enc_expr kids) @ rest, n + nodes k)"
    by simp
  moreover have "decodeKids (length kids) (concat (map enc_expr kids) @ rest) (n + nodes k) =
    Inr (kids, rest, n + nodes k + sum_list (map nodes kids))"
    by (rule Cons.IH) (use Cons.prems in auto)
  ultimately show ?case by (simp add: decodeKids.simps)
qed (simp add: decodeKids.simps)

lemma decode_encode:
  "expr_ok e \<Longrightarrow> n + nodes e \<le> predMaxNodes \<Longrightarrow> decodePredExpr (enc_expr e @ rest) n = Inr (e, rest, n + nodes e)"
proof (induction e arbitrary: n rest)
  case (PredExpr op col lits kids coll)
  have n: "n < predMaxNodes" using PredExpr.prems(2) by simp
  show ?case using PredExpr.prems(1)
  proof (cases rule: expr_ok_cases)
    case (junct op' kids')
    have all: "\<forall>k \<in> set kids. encode k = Inr (enc_expr k)" "\<forall>k \<in> set kids. enc_expr k \<noteq> []"
      using junct encode_total by (auto simp: list_all_iff)
    have e: "enc_expr (PredExpr op col lits kids coll) = op # AppendUvarint (u64_len kids) @ concat (map enc_expr kids)"
      using encode_junct [OF _ all(1)] junct by (simp add: enc_expr_def)
    have len: "length kids \<le> length (concat (map enc_expr kids) @ rest)"
    proof -
      have "length kids = sum_list (map (\<lambda>_. 1) kids)" by (simp add: sum_list_triv)
      also have "\<dots> \<le> sum_list (map (\<lambda>k. length (enc_expr k)) kids)"
        using all(2) by (intro sum_list_mono) (simp add: Suc_le_eq)
      finally show ?thesis by (simp add: length_concat comp_def)
    qed
    have k: "decodeKids (length kids) (concat (map enc_expr kids) @ rest) (n + 1) = Inr (kids, rest, n + 1 + sum_list (map nodes kids))"
      by (rule decodeKids_encode) (use PredExpr junct in \<open>auto simp: list_all_iff\<close>)
    have sl: "slice_ok kids" "kids \<noteq> []" using junct by auto
    then have "unat (u64_len kids) \<noteq> 0" by simp
    then have "u64_len kids \<noteq> 0" by (metis unsigned_0)
    then show ?thesis using junct n len k sl unfolding e append_Cons append_assoc
      by (subst decode_junct [OF _ n readUvarint_append]) simp_all
  next
    case (neg k)
    then have k: "k \<in> set kids" "expr_ok k" "encode k = Inr (enc_expr k)" using encode_total by auto
    have "enc_expr (PredExpr op col lits kids coll) = PredNot # enc_expr k"
      using neg k(3) by (simp add: enc_expr_def [of "PredExpr _ _ _ _ _"] encode_neg)
    then show ?thesis using neg n k PredExpr.IH [OF k(1,2), of "n + 1" rest] PredExpr.prems(2) by (simp add: decode_neg)
  next
    case (null op' col')
    then show ?thesis using n by (simp add: enc_expr_def encode_null decode_null field_codecs)
  next
    case (cmp op' col' lit coll')
    then show ?thesis using n by (simp add: enc_expr_def encode_cmp decode_cmp field_codecs literal_roundtrip readByte_def)
  next
    case (member op' col' lits' coll')
    then show ?thesis using n
      by (simp add: enc_expr_def encode_member decode_member field_codecs literals_roundtrip readByte_def)
  qed
qed

definition enc_pred :: "unique_predicate \<Rightarrow> bytes" where
  "enc_pred p = projr (appendPredicate p)"

lemma appendPredicate_total: "pred_ok p \<Longrightarrow> appendPredicate p = Inr (enc_pred p)"
  using encode_total by (cases p) (auto simp: enc_pred_def appendPredicate_def)

interpretation predicate_codec: codec enc_pred readPredicate pred_ok
proof
  show "readPredicate (enc_pred p @ rest) = Inr (p, rest)" if "pred_ok p" for p rest
  proof (cases p)
    case (Some e)
    then have "encode e = Inr (enc_expr e)" "decodePredExpr (enc_expr e @ rest) 0 = Inr (e, rest, nodes e)"
      using that encode_total [of e] decode_encode [of e 0 rest] by auto
    then show ?thesis by (simp add: Some enc_pred_def appendPredicate_def readPredicate_def readByte_def)
  qed (simp add: enc_pred_def appendPredicate_def readPredicate_def readByte_def)
qed

section \<open>Decoded expressions are well-formed\<close>

lemma readString_ok: "readString buf = Inr (x, rest) \<Longrightarrow> slice_ok buf \<Longrightarrow> slice_ok x"
  by (auto simp: readString_def slice_ok_def bindE_Inr_iff split: if_splits dest!: readUvarint_shorter)

lemma readLiteral_ok: "readLiteral buf = Inr (v, rest) \<Longrightarrow> slice_ok buf \<Longrightarrow> literal_ok v"
proof -
  assume "readLiteral buf = Inr (v, rest)" "slice_ok buf"
  moreover have "slice_ok b" if "slice_ok (x # b)" for x :: byte and b using that by (simp add: slice_ok_def)
  ultimately show ?thesis
    by (auto simp: readLiteral_def readByte_def bindE_Inr_iff Let_def literal_ok_def col_tags word_le_nat_alt slice_ok_def [of "[]"]
        split: if_splits list.splits dest: readString_ok)
qed

lemma readN_all:
  assumes "\<And>b x r. dec b = Inr (x, r) \<Longrightarrow> slice_ok b \<Longrightarrow> P x \<and> length r \<le> length b"
  shows "readN dec n buf = Inr (xs, rest) \<Longrightarrow> slice_ok buf \<Longrightarrow> list_all P xs \<and> length xs = n"
proof (induction n arbitrary: buf xs)
  case (Suc n)
  then obtain x b ys where x: "dec buf = Inr (x, b)" and ys: "readN dec n b = Inr (ys, rest)" "xs = x # ys"
    by (auto simp: bindE_Inr_iff)
  from assms [OF x Suc.prems(2)] have "P x" "slice_ok b" using Suc.prems(2) by (auto simp: slice_ok_def)
  with Suc.IH [OF ys(1)] ys show ?case by simp
qed simp

lemma readLiterals_ok:
  assumes "readCounted readLiteral buf = Inr (vs, rest)" and "slice_ok buf"
  shows "list_all literal_ok vs \<and> slice_ok vs"
proof -
  from assms(1) obtain n b where n: "readUvarint buf = Inr (n, b)" "unat n \<le> length b" "readN readLiteral (unat n) b = Inr (vs, rest)"
    by (auto simp: readCounted_def bindE_Inr_iff split: if_splits)
  have "slice_ok b" using readUvarint_shorter [OF n(1)] assms(2) by (simp add: slice_ok_def)
  with readN_all [of readLiteral literal_ok, OF _ n(3)] readLiteral_ok readLiteral_shorter n(2) show ?thesis
    by (auto simp: slice_ok_def)
qed

lemma decode_ok:
  "decodePredExpr buf n = Inr (e, rest, n') \<Longrightarrow> slice_ok buf \<Longrightarrow> expr_ok e \<and> n' = n + nodes e \<and> n' \<le> predMaxNodes \<and> length rest < length buf"
  "decodeKids k buf n = Inr (es, rest, n') \<Longrightarrow> slice_ok buf \<Longrightarrow>
    list_all expr_ok es \<and> n' = n + sum_list (map nodes es) \<and> length es = k \<and> (k > 0 \<longrightarrow> n' \<le> predMaxNodes) \<and> length rest \<le> length buf"
proof (induction buf n and k buf n arbitrary: e rest n' and es rest n' rule: decodePredExpr_decodeKids.induct)
  case (1 buf n)
  from 1(3) obtain op b where buf: "buf = op # b" and c: "n + 1 \<le> predMaxNodes"
    by (auto simp: decodePredExpr.simps [of buf] Let_def split: if_splits list.splits)
  have b: "slice_ok b" using 1(4) by (simp add: buf slice_ok_def)
  consider "op = PredAnd \<or> op = PredOr" | "op = PredNot" | "op = PredIsNull \<or> op = PredIsNotNull" | "isCmp op"
    | "op = PredIn \<or> op = PredNotIn"
    using 1(3) by (auto simp: buf decodePredExpr.simps [of "op # b"] Let_def split: if_splits)
  then show ?case
  proof cases
    case junct: 1
    then obtain cnt b' kids where r: "readUvarint b = Inr (cnt, b')" "decodeKids (unat cnt) b' (n + 1) = Inr (kids, rest, n')"
      and d: "cnt \<noteq> 0" "unat cnt \<le> length b'" "e = PredExpr op 0 [] kids 0"
      using 1(3) by (auto simp: buf decodePredExpr.simps [of "op # b"] Let_def bindE_Inr_iff split: if_splits)
    have sh: "length b' < length b" "slice_ok b'" using readUvarint_shorter [OF r(1)] b by (auto simp: slice_ok_def)
    have "list_all expr_ok kids \<and> n' = n + 1 + sum_list (map nodes kids) \<and> length kids = unat cnt \<and> (unat cnt > 0 \<longrightarrow> n' \<le> predMaxNodes) \<and> length rest \<le> length b'"
      by (rule 1(1) [OF refl _ buf junct r(1)]) (use r d c sh in auto)
    moreover have "unat cnt > 0" using d(1) by (simp add: unat_gt_0)
    ultimately show ?thesis using junct d sh by (auto simp: buf slice_ok_def)
  next
    case neg: 2
    then obtain k where r: "decodePredExpr b (n + 1) = Inr (k, rest, n')" and d: "e = PredExpr PredNot 0 [] [k] 0"
      using 1(3) by (auto simp: buf decodePredExpr.simps [of "PredNot # b"] Let_def bindE_Inr_iff split: if_splits)
    have "expr_ok k \<and> n' = n + 1 + nodes k \<and> n' \<le> predMaxNodes \<and> length rest < length b"
      by (rule 1(2) [OF refl _ buf _ neg]) (use r c b neg in auto)
    then show ?thesis using d by (simp add: buf)
  next
    case 3
    then show ?thesis using 1(3) c by (auto simp: buf decode_null bindE_Inr_iff dest: readBytes16_shorter)
  next
    case 4
    from 1(3) 4 c obtain col b1 lit b2 coll where r: "readBytes16 b = Inr (col, b1)" "readLiteral b1 = Inr (lit, b2)"
      "readByte b2 = Inr (coll, rest)" and d: "e = PredExpr op col [lit] [] coll" "n' = n + 1"
      by (auto simp: buf decode_cmp bindE_Inr_iff)
    have "slice_ok b1" using readBytes16_shorter [OF r(1)] b by (simp add: slice_ok_def)
    with r d 4 c isCmp_distinct [OF 4] readLiteral_ok [OF r(2)] show ?thesis
      using readBytes16_shorter [OF r(1)] readLiteral_shorter [OF r(2)] readByte_shorter [OF r(3)] by (simp add: buf)
  next
    case 5
    from 1(3) 5 c obtain col b1 lits b2 coll where r: "readBytes16 b = Inr (col, b1)" "readCounted readLiteral b1 = Inr (lits, b2)"
      "readByte b2 = Inr (coll, rest)" and d: "e = PredExpr op col lits [] coll" "n' = n + 1"
      by (auto simp: buf decode_member bindE_Inr_iff)
    have "slice_ok b1" using readBytes16_shorter [OF r(1)] b by (simp add: slice_ok_def)
    with r d 5 c readLiterals_ok [OF r(2)] show ?thesis
      using readBytes16_shorter [OF r(1)] readLiterals_shorter [OF r(2)] readByte_shorter [OF r(3)] by (auto simp: buf)
  qed
next
  case (2 buf n)
  then show ?case by (simp add: decodeKids.simps)
next
  case (3 k buf n)
  from 3(3) obtain e b m es' where e: "decodePredExpr buf n = Inr (e, b, m)" "decodeKids k b m = Inr (es', rest, n')" "es = e # es'"
    by (auto simp: decodeKids.simps bindE_Inr_iff)
  note ih = 3(1) [OF e(1) 3(4)]
  then have "slice_ok b" using 3(4) by (simp add: slice_ok_def)
  with 3(2) [OF e(1) refl refl e(2)] ih e(3) show ?case by (cases "k = 0") auto
qed

section \<open>Three-valued logic\<close>

definition truth :: "tri \<Rightarrow> nat" where
  "truth t = (case t of triFalse \<Rightarrow> 0 | triUnknown \<Rightarrow> 1 | triTrue \<Rightarrow> 2)"

lemma truth_le: "truth t \<le> 2" by (cases t) (auto simp: truth_def)

lemma truth_inj: "truth t = truth u \<longleftrightarrow> t = u"
  by (cases t; cases u) (auto simp: truth_def)

declare eval.simps [simp del]

lemma eval_And: "eval lk (PredExpr PredAnd col lits kids coll) = eval_and lk triTrue kids"
  by (simp add: eval.simps)

lemma eval_Or: "eval lk (PredExpr PredOr col lits kids coll) = eval_or lk triFalse kids"
  by (simp add: eval.simps)

lemma eval_Not: "eval lk (PredExpr PredNot col lits [k] coll) =
    bindE (eval lk k) (\<lambda>t. Inr (case t of triTrue \<Rightarrow> triFalse | triFalse \<Rightarrow> triTrue | triUnknown \<Rightarrow> triUnknown))"
  by (simp add: eval.simps)

lemma eval_cmp: "isCmp op \<Longrightarrow> eval lk (PredExpr op col [lit] kids coll) = Inr (evalCmp op (lk col) lit coll)"
  using isCmp_distinct [of op] by (simp add: eval.simps)

lemma eval_In: "eval lk (PredExpr PredIn col lits kids coll) = Inr (evalIn PredIn (lk col) lits coll)"
  and eval_NotIn: "eval lk (PredExpr PredNotIn col lits kids coll) = Inr (evalIn PredNotIn (lk col) lits coll)"
  by (simp_all add: eval.simps)

lemma eval_IsNull: "eval lk (PredExpr PredIsNull col lits kids coll) = Inr (boolTri (TypeTag (lk col) = ColNull))"
  and eval_IsNotNull: "eval lk (PredExpr PredIsNotNull col lits kids coll) = Inr (boolTri (TypeTag (lk col) \<noteq> ColNull))"
  by (simp_all add: eval.simps)

lemmas eval_shapes = eval_And eval_Or eval_Not eval_cmp eval_In eval_NotIn eval_IsNull eval_IsNotNull

lemma eval_total: "expr_ok e \<Longrightarrow> \<exists>t. eval lk e = Inr t"
proof (induction e)
  case (PredExpr op col lits kids coll)
  have loops: "list_all expr_ok ks \<Longrightarrow> set ks \<subseteq> set kids \<Longrightarrow> (\<exists>t. eval_and lk out ks = Inr t) \<and> (\<exists>t. eval_or lk out ks = Inr t)" for ks out
  proof (induction ks arbitrary: out)
    case (Cons k ks)
    then obtain t where "eval lk k = Inr t" using PredExpr.IH [of k] by auto
    with Cons show ?case by (cases t) auto
  qed simp
  show ?case using PredExpr.prems
  proof (cases rule: expr_ok_cases)
    case (junct op' kids')
    then show ?thesis using loops [of kids] by (auto simp: eval_shapes)
  next
    case (neg k)
    then show ?thesis using PredExpr.IH [of k] by (auto simp: eval_shapes)
  qed (auto simp: eval_shapes)
qed

definition value_of :: "(column_id \<Rightarrow> col_value) \<Rightarrow> pred_expr \<Rightarrow> tri" where
  "value_of lk e = projr (eval lk e)"

lemma eval_value: "expr_ok e \<Longrightarrow> eval lk e = Inr (value_of lk e)"
  using eval_total [of e lk] by (auto simp: value_of_def)

lemma Min_drop_top: "finite R \<Longrightarrow> a \<le> 2 \<Longrightarrow> Min (insert a (insert 2 R)) = Min (insert (a :: nat) R)"
  by (cases "R = {}") (auto simp: min_def)

lemma eval_and_min:
  "list_all expr_ok ks \<Longrightarrow> out \<noteq> triFalse \<Longrightarrow>
    \<exists>t. eval_and lk out ks = Inr t \<and> truth t = Min (insert (truth out) ((\<lambda>k. truth (value_of lk k)) ` set ks))"
proof (induction ks arbitrary: out)
  case (Cons k ks)
  then have k: "eval lk k = Inr (value_of lk k)" using eval_value by simp
  let ?R = "(\<lambda>k. truth (value_of lk k)) ` set ks"
  show ?case
  proof (cases "value_of lk k")
    case triFalse
    then show ?thesis using k by (simp add: truth_def Min_insert2)
  next
    case triUnknown
    then have "Min (insert (truth out) (insert (truth (value_of lk k)) ?R)) = Min (insert (truth triUnknown) ?R)"
      using Cons.prems(2) by (cases out; cases "?R = {}") (simp_all add: truth_def min.left_commute)
    then show ?thesis using k triUnknown Cons.IH [of triUnknown] Cons.prems by simp
  next
    case triTrue
    then have "Min (insert (truth out) (insert (truth (value_of lk k)) ?R)) = Min (insert (truth out) ?R)"
      using Min_drop_top [of ?R "truth out"] truth_le [of out] by (simp add: truth_def [of triTrue])
    then show ?thesis using k triTrue Cons.IH [of out] Cons.prems by simp
  qed
qed simp

lemma eval_or_max:
  "list_all expr_ok ks \<Longrightarrow> out \<noteq> triTrue \<Longrightarrow>
    \<exists>t. eval_or lk out ks = Inr t \<and> truth t = Max (insert (truth out) ((\<lambda>k. truth (value_of lk k)) ` set ks))"
proof (induction ks arbitrary: out)
  case (Cons k ks)
  then have k: "eval lk k = Inr (value_of lk k)" using eval_value by simp
  let ?R = "(\<lambda>k. truth (value_of lk k)) ` set ks"
  show ?case
  proof (cases "value_of lk k")
    case triTrue
    have "truth triTrue = Max (insert (truth out) (insert (truth triTrue) ?R))"
      by (rule Max_eqI [symmetric]) (auto simp: truth_def split: tri.splits)
    then show ?thesis using k triTrue by simp
  next
    case triUnknown
    then have "Max (insert (truth out) (insert (truth (value_of lk k)) ?R)) = Max (insert (truth triUnknown) ?R)"
      using Cons.prems(2) by (cases out; cases "?R = {}") (simp_all add: truth_def max.left_commute)
    then show ?thesis using k triUnknown Cons.IH [of triUnknown] Cons.prems by simp
  next
    case triFalse
    then have "Max (insert (truth out) (insert (truth (value_of lk k)) ?R)) = Max (insert (truth out) ?R)"
      by (cases "?R = {}") (simp_all add: truth_def max.left_commute)
    then show ?thesis using k triFalse Cons.IH [of out] Cons.prems by simp
  qed
qed simp

lemma isCmp_Eq: "isCmp PredEq" by (simp add: isCmp_def)

lemma in_loop_as_or:
  assumes "TypeTag (lk col) \<noteq> ColNull" and "out \<noteq> triTrue"
  shows "eval_or lk out (map (\<lambda>l. PredExpr PredEq col [l] [] coll) lits) =
    Inr (evalIn_loop PredIn (lk col) coll (out = triUnknown) lits)"
  using assms(2)
proof (induction lits arbitrary: out)
  case Nil
  then show ?case by (cases out) (simp_all add: boolTri_def)
next
  case (Cons l lits)
  then show ?case using assms(1) by (simp add: eval_cmp isCmp_Eq evalCmp_def boolTri_def Let_def)
qed

lemma null_as_or:
  assumes "TypeTag (lk col) = ColNull"
  shows "eval_or lk out (map (\<lambda>l. PredExpr PredEq col [l] [] coll) lits) = Inr (if lits = [] then out else triUnknown)"
  using assms by (induction lits arbitrary: out) (simp_all add: eval_cmp isCmp_Eq evalCmp_def)

lemma in_as_or:
  "lits \<noteq> [] \<Longrightarrow> Inr (evalIn PredIn (lk col) lits coll) = eval_or lk triFalse (map (\<lambda>l. PredExpr PredEq col [l] [] coll) lits)"
  by (cases "TypeTag (lk col) = ColNull") (simp_all add: evalIn_def null_as_or in_loop_as_or)

lemma notin_as_not:
  "evalIn_loop PredNotIn v coll saw lits =
    (case evalIn_loop PredIn v coll saw lits of triTrue \<Rightarrow> triFalse | triFalse \<Rightarrow> triTrue | triUnknown \<Rightarrow> triUnknown)"
  by (induction lits arbitrary: saw) (auto simp: boolTri_def)

section \<open>Properties\<close>

text \<open>
  C25: predicates survive storage and the schema log. Every predicate of the shape admission builds,
  with at most 256 nodes, encodes without a panic and decodes to itself; and the empty
  predicate of a total key to itself.
\<close>

theorem predicate_roundtrip:
  assumes "pred_ok p"
  shows "\<exists>b. EncodeUniquePredicate p = Inr b \<and> DecodeUniquePredicate b = Inr p \<and>
    readPredicate (b @ rest) = Inr (p, rest)"
  using appendPredicate_total [OF assms] predicate_codec.dec_enc [OF assms] predicate_codec.dec_exact [OF assms]
  by (simp add: EncodeUniquePredicate_def DecodeUniquePredicate_def)

theorem predicate_roundtrip_witness:
  "let p = Some (PredExpr PredAnd 0 [] [PredExpr PredIsNotNull 7 [] [] 0, PredExpr PredEq 8 [IntColValue 5] [] 0] 0)
   in \<exists>b. EncodeUniquePredicate p = Inr b \<and> DecodeUniquePredicate b = Inr p"
proof -
  have "literal_ok (IntColValue 5)"
    by (simp add: literal_ok_def IntColValue_def col_tags slice_ok_def word_le_nat_alt)
  then have "pred_ok (Some (PredExpr PredAnd 0 [] [PredExpr PredIsNotNull 7 [] [] 0, PredExpr PredEq 8 [IntColValue 5] [] 0] 0))"
    by (simp add: isCmp_distinct) (simp add: pred_ops isCmp_def predMaxNodes_def slice_ok_def)
  from predicate_roundtrip [OF this] show ?thesis by (auto simp: Let_def)
qed

text \<open>
  C26: bytes from the log never crash the evaluator. Whatever bytes decode, the predicate they give
  is well-formed and within the node limit: evaluating it on any row returns, with no index
  out of range, and so does encoding it again.
\<close>

theorem decoded_predicate_safe:
  assumes "DecodeUniquePredicate b = Inr p" and "slice_ok b"
  shows "pred_ok p \<and> (\<exists>r. Eval p lk = Inr r) \<and> (\<exists>b'. EncodeUniquePredicate p = Inr b')"
proof (cases p)
  case (Some e)
  from assms obtain b' n' where d: "decodePredExpr b' 0 = Inr (e, [], n')" and "length b' \<le> length b"
    by (auto simp: Some DecodeUniquePredicate_def readPredicate_def readByte_def bindE_Inr_iff split: if_splits list.splits)
  then have "slice_ok b'" using assms(2) by (simp add: slice_ok_def)
  from decode_ok(1) [OF d this] have ok: "expr_ok e" "nodes e \<le> predMaxNodes" by auto
  then show ?thesis using eval_value [OF ok(1)] encode_total [OF ok(1)]
    by (simp add: Some Eval_def EncodeUniquePredicate_def appendPredicate_def)
qed (auto simp: Eval_def EncodeUniquePredicate_def appendPredicate_def)

theorem decoded_predicate_safe_witness:
  "pred_ok None \<and> (\<exists>r. Eval None (\<lambda>_. IntColValue 0) = Inr r)"
proof -
  have "DecodeUniquePredicate [0] = Inr None"
    by (simp add: DecodeUniquePredicate_def readPredicate_def readByte_def)
  from decoded_predicate_safe [OF this, of "\<lambda>_. IntColValue 0"] show ?thesis by (simp add: slice_ok_def)
qed




end
