(* ===== verification/Catalog_Op.thy ===== *)
theory Catalog_Op
  imports Unique_Predicate
begin

text \<open>
  \<open>crdt/catalog_op.go\<close>: the typed catalog mutations of the schema log and their encoding. Encoders
  emit the framed format; decoders accept it and the legacy one. A Go \<open>int\<close> is its 64-bit pattern,
  so \<open>uint64(c.Ordinal)\<close> and \<open>int(ord)\<close> are the identity; strings are their bytes.
\<close>

section \<open>Kinds and versions\<close>

definition OpCreateTable :: byte where "OpCreateTable = 1"
definition OpAddColumn :: byte where "OpAddColumn = 2"
definition OpRenameTable :: byte where "OpRenameTable = 3"
definition OpRenameColumn :: byte where "OpRenameColumn = 4"
definition OpDropColumn :: byte where "OpDropColumn = 5"
definition OpDropTable :: byte where "OpDropTable = 6"
definition OpAddUniqueKey :: byte where "OpAddUniqueKey = 7"
definition OpDropUniqueKey :: byte where "OpDropUniqueKey = 8"
definition OpCreateIndex :: byte where "OpCreateIndex = 9"
definition OpDropIndex :: byte where "OpDropIndex = 10"
definition OpCreateView :: byte where "OpCreateView = 11"
definition OpDropView :: byte where "OpDropView = 12"
definition OpCreateVirtualTable :: byte where "OpCreateVirtualTable = 13"
definition OpDropVirtualTable :: byte where "OpDropVirtualTable = 14"
definition OpCreateTrigger :: byte where "OpCreateTrigger = 15"
definition OpDropTrigger :: byte where "OpDropTrigger = 16"
definition OpBundle :: byte where "OpBundle = 17"
definition OpSetClockGroup :: byte where "OpSetClockGroup = 18"
definition OpAlterColumn :: byte where "OpAlterColumn = 19"

lemmas op_kinds = OpCreateTable_def OpAddColumn_def OpRenameTable_def OpRenameColumn_def OpDropColumn_def
  OpDropTable_def OpAddUniqueKey_def OpDropUniqueKey_def OpCreateIndex_def OpDropIndex_def OpCreateView_def
  OpDropView_def OpCreateVirtualTable_def OpDropVirtualTable_def OpCreateTrigger_def OpDropTrigger_def
  OpBundle_def OpSetClockGroup_def OpAlterColumn_def

definition catalogOpSentinel :: byte where "catalogOpSentinel = 0xC0"
definition catalogOpVersion :: u64 where "catalogOpVersion = 4"
definition catalogOpMaxVersion :: u64 where "catalogOpMaxVersion = 5"
definition legacyCoordFlag :: byte where "legacyCoordFlag = 0x80"
definition legacyPartialFlag :: byte where "legacyPartialFlag = 0x40"

definition opVersion :: "byte \<Rightarrow> u64" where
  "opVersion kind = (if kind = OpAlterColumn then 5 else catalogOpVersion)"

section \<open>Operations\<close>

record catalog_column =
  colID :: column_id
  colName :: bytes
  colOrdinal :: u64
  colType :: bytes
  colNotNull :: bool
  colDefault :: bytes
  colIsPK :: bool
  colPKPos :: u64
  colClockGroup :: bytes
  colGenerated :: bool
  colCollation :: collation

record key_member =
  memColumnID :: column_id
  memOrdinal :: u64

record catalog_key =
  keyKeyID :: key_id
  keyMembers :: "key_member list"
  keyCoordinated :: bool
  keyPredicate :: unique_predicate

text \<open>
  \<open>CatalogOp\<close> contains its sub-operations, which a record cannot: the flat fields are the record
  \<open>op_fields\<close>, and an operation is its fields and its \<open>SubOps\<close>.
\<close>

record op_fields =
  opKind :: byte
  opTableID :: table_id
  opTableName :: bytes
  opColumnID :: column_id
  opColumnName :: bytes
  opColumns :: "catalog_column list"
  opWithoutRowid :: bool
  opKeys :: "catalog_key list"
  opKeyID :: key_id
  opRawSQL :: bytes
  opObjectName :: bytes
  opClockGroup :: bytes

datatype catalog_op = CatalogOp (Fields: op_fields) (SubOps: "catalog_op list")

definition zero_fields :: "byte \<Rightarrow> op_fields" where
  "zero_fields kind = \<lparr>opKind = kind, opTableID = 0, opTableName = [], opColumnID = 0, opColumnName = [],
     opColumns = [], opWithoutRowid = False, opKeys = [], opKeyID = 0, opRawSQL = [], opObjectName = [],
     opClockGroup = []\<rparr>"

definition namedSQL :: "byte set" where
  "namedSQL = {OpCreateIndex, OpDropIndex, OpCreateView, OpDropView, OpCreateVirtualTable, OpDropVirtualTable}"

section \<open>Columns and keys\<close>

definition column_flags :: "catalog_column \<Rightarrow> byte" where
  "column_flags c = (if colNotNull c then 1 else 0) OR (if colIsPK c then 2 else 0) OR (if colGenerated c then 4 else 0)"

definition appendColumn :: "catalog_column \<Rightarrow> bytes" where
  "appendColumn c = appendBytes16 (colID c) @ appendString (colName c) @ AppendUvarint (colOrdinal c) @
     appendString (colType c) @ [column_flags c] @ AppendUvarint (colPKPos c) @ appendString (colDefault c) @
     appendString (colClockGroup c) @ [colCollation c]"

definition appendColumns :: "catalog_column list \<Rightarrow> bytes" where
  "appendColumns cols = AppendUvarint (u64_len cols) @ concat (map appendColumn cols)"

definition readColumn :: "bytes \<Rightarrow> (catalog_column \<times> bytes) result" where
  "readColumn buf =
     bindE (readBytes16 buf) (\<lambda>(cid, buf).
     bindE (readString buf) (\<lambda>(name, buf).
     bindE (readUvarint buf) (\<lambda>(ord, buf).
     bindE (readString buf) (\<lambda>(ty, buf).
     bindE (readByte buf) (\<lambda>(flags, buf).
     if flags AND NOT 7 \<noteq> 0 then Inl (ErrColumnFlags flags)
     else
     bindE (readUvarint buf) (\<lambda>(pos, buf).
     bindE (readString buf) (\<lambda>(def, buf).
     bindE (readString buf) (\<lambda>(cg, buf).
     bindE (readByte buf) (\<lambda>(coll, buf).
     Inr (\<lparr>colID = cid, colName = name, colOrdinal = ord, colType = ty, colNotNull = (flags AND 1 \<noteq> 0),
       colDefault = def, colIsPK = (flags AND 2 \<noteq> 0), colPKPos = pos, colClockGroup = cg,
       colGenerated = (flags AND 4 \<noteq> 0), colCollation = coll\<rparr>, buf))))))))))"

definition readColumns :: "bytes \<Rightarrow> (catalog_column list \<times> bytes) result" where
  "readColumns buf = readCounted readColumn buf"

definition appendMember :: "key_member \<Rightarrow> bytes" where
  "appendMember m = appendBytes16 (memColumnID m) @ AppendUvarint (memOrdinal m)"

definition readMember :: "bytes \<Rightarrow> (key_member \<times> bytes) result" where
  "readMember buf =
     bindE (readBytes16 buf) (\<lambda>(cid, buf).
     bindE (readUvarint buf) (\<lambda>(ord, buf). Inr (\<lparr>memColumnID = cid, memOrdinal = ord\<rparr>, buf)))"

text \<open>The part of a key both layouts share: coordinated flag, predicate, members.\<close>

definition appendKeyBody :: "catalog_key \<Rightarrow> bytes result" where
  "appendKeyBody k = bindE (appendPredicate (keyPredicate k)) (\<lambda>p.
     Inr (appendBool (keyCoordinated k) @ p @ AppendUvarint (u64_len (keyMembers k)) @ concat (map appendMember (keyMembers k))))"

definition readKeyBody :: "key_id \<Rightarrow> bool \<Rightarrow> bool \<Rightarrow> bytes \<Rightarrow> (catalog_key \<times> bytes) result" where
  "readKeyBody kid withCoord withPred buf =
     bindE (if withCoord then readBool buf else Inr (False, buf)) (\<lambda>(coord, buf).
     bindE (if withPred then readPredicate buf else Inr (None, buf)) (\<lambda>(pred, buf).
     bindE (readCounted readMember buf) (\<lambda>(ms, buf).
     Inr (\<lparr>keyKeyID = kid, keyMembers = ms, keyCoordinated = coord, keyPredicate = pred\<rparr>, buf))))"

definition appendKey :: "catalog_key \<Rightarrow> bytes result" where
  "appendKey k = bindE (appendKeyBody k) (\<lambda>b. Inr (appendBytes16 (keyKeyID k) @ b))"

definition appendKeys :: "catalog_key list \<Rightarrow> bytes result" where
  "appendKeys keys = bindE (mapE appendKey keys) (\<lambda>bs. Inr (AppendUvarint (u64_len keys) @ concat bs))"

definition readKey :: "bool \<Rightarrow> bool \<Rightarrow> bytes \<Rightarrow> (catalog_key \<times> bytes) result" where
  "readKey withCoord withPred buf = bindE (readBytes16 buf) (\<lambda>(kid, buf). readKeyBody kid withCoord withPred buf)"

definition readKeys :: "bool \<Rightarrow> bool \<Rightarrow> bytes \<Rightarrow> (catalog_key list \<times> bytes) result" where
  "readKeys withCoord withPred buf = readCounted (readKey withCoord withPred) buf"

definition appendKeyMembers :: "catalog_key list \<Rightarrow> bytes result" where
  "appendKeyMembers keys = (case keys of [k] \<Rightarrow> appendKeyBody k | _ \<Rightarrow> Inl (PanicKeyCount (length keys)))"

definition readKeyMembers :: "key_id \<Rightarrow> bool \<Rightarrow> bool \<Rightarrow> bytes \<Rightarrow> (catalog_key list \<times> bytes) result" where
  "readKeyMembers kid withCoord withPred buf =
     bindE (readKeyBody kid withCoord withPred buf) (\<lambda>(k, buf). Inr ([k], buf))"

section \<open>Encoding\<close>

text \<open>The body of every kind but a bundle.\<close>

definition encodeOpBody :: "op_fields \<Rightarrow> bytes result" where
  "encodeOpBody op =
     (let k = opKind op in
      if k = OpCreateTable then bindE (appendKeys (opKeys op)) (\<lambda>ks.
        Inr (appendBytes16 (opTableID op) @ appendString (opTableName op) @ appendColumns (opColumns op) @ ks @
             appendBool (opWithoutRowid op)))
      else if k = OpAddColumn \<or> k = OpAlterColumn then Inr (appendBytes16 (opTableID op) @ appendColumns (opColumns op))
      else if k = OpRenameTable then Inr (appendBytes16 (opTableID op) @ appendString (opTableName op))
      else if k = OpRenameColumn then
        Inr (appendBytes16 (opTableID op) @ appendBytes16 (opColumnID op) @ appendString (opColumnName op))
      else if k = OpDropColumn then Inr (appendBytes16 (opTableID op) @ appendBytes16 (opColumnID op))
      else if k = OpDropTable then Inr (appendBytes16 (opTableID op))
      else if k = OpSetClockGroup then Inr (appendBytes16 (opTableID op) @ appendString (opClockGroup op))
      else if k = OpAddUniqueKey then bindE (appendKeyMembers (opKeys op)) (\<lambda>ks.
        Inr (appendBytes16 (opTableID op) @ appendBytes16 (opKeyID op) @ ks))
      else if k = OpDropUniqueKey then Inr (appendBytes16 (opTableID op) @ appendBytes16 (opKeyID op))
      else if k \<in> namedSQL then Inr (appendString (opObjectName op) @ appendString (opRawSQL op))
      else if k = OpCreateTrigger \<or> k = OpDropTrigger then
        Inr (appendBytes16 (opTableID op) @ appendString (opObjectName op) @ appendString (opRawSQL op))
      else Inl (ErrUnsupportedKind k))"

fun EncodeCatalogOp :: "catalog_op \<Rightarrow> bytes result" where
  "EncodeCatalogOp (CatalogOp op subs) =
     (if opKind op = 0 then Inl ErrEncodeUnknownKind
      else bindE
        (if opKind op = OpBundle
         then bindE (mapE (\<lambda>sub. if opKind (Fields sub) = OpBundle then Inl ErrNestedBundle
                     else bindE (EncodeCatalogOp sub) (\<lambda>b. Inr (AppendUvarint (u64_len b) @ b))) subs)
                (\<lambda>bs. Inr (AppendUvarint (u64_len subs) @ concat bs))
         else encodeOpBody op)
        (\<lambda>body. Inr (catalogOpSentinel # AppendUvarint (opVersion (opKind op)) @ AppendUvarint (ucast (opKind op)) @ body)))"

section \<open>Decoding\<close>

text \<open>
  The source bounds the recursion by the flag \<open>allowBundle\<close>, false for sub-operations. Here the
  sub-decoder itself is the flag: \<open>None\<close> where bundles are not allowed.
\<close>

type_synonym sub_decoder = "(bytes \<Rightarrow> catalog_op result) option"

definition readSub :: "(bytes \<Rightarrow> catalog_op result) \<Rightarrow> bytes \<Rightarrow> (catalog_op \<times> bytes) result" where
  "readSub sub buf = bindE (readString buf) (\<lambda>(b, buf). bindE (sub b) (\<lambda>op. Inr (op, buf)))"

definition decodeCatalogOpBody :: "sub_decoder \<Rightarrow> byte \<Rightarrow> bool \<Rightarrow> bool \<Rightarrow> bytes \<Rightarrow> (catalog_op \<times> bytes) result" where
  "decodeCatalogOpBody sub k withCoord withPred buf =
     (let z = zero_fields k; plain = (\<lambda>op buf. Inr (CatalogOp op [], buf)) in
      if k = OpCreateTable then
        bindE (readBytes16 buf) (\<lambda>(t, buf).
        bindE (readString buf) (\<lambda>(name, buf).
        bindE (readColumns buf) (\<lambda>(cols, buf).
        bindE (readKeys withCoord withPred buf) (\<lambda>(keys, buf).
        bindE (readBool buf) (\<lambda>(wr, buf).
        plain (z\<lparr>opTableID := t, opTableName := name, opColumns := cols, opKeys := keys, opWithoutRowid := wr\<rparr>) buf)))))
      else if k = OpAddColumn \<or> k = OpAlterColumn then
        bindE (readBytes16 buf) (\<lambda>(t, buf).
        bindE (readColumns buf) (\<lambda>(cols, buf). plain (z\<lparr>opTableID := t, opColumns := cols\<rparr>) buf))
      else if k = OpRenameTable then
        bindE (readBytes16 buf) (\<lambda>(t, buf).
        bindE (readString buf) (\<lambda>(name, buf). plain (z\<lparr>opTableID := t, opTableName := name\<rparr>) buf))
      else if k = OpRenameColumn then
        bindE (readBytes16 buf) (\<lambda>(t, buf).
        bindE (readBytes16 buf) (\<lambda>(c, buf).
        bindE (readString buf) (\<lambda>(name, buf).
        plain (z\<lparr>opTableID := t, opColumnID := c, opColumnName := name\<rparr>) buf)))
      else if k = OpDropColumn then
        bindE (readBytes16 buf) (\<lambda>(t, buf).
        bindE (readBytes16 buf) (\<lambda>(c, buf). plain (z\<lparr>opTableID := t, opColumnID := c\<rparr>) buf))
      else if k = OpDropTable then
        bindE (readBytes16 buf) (\<lambda>(t, buf). plain (z\<lparr>opTableID := t\<rparr>) buf)
      else if k = OpSetClockGroup then
        bindE (readBytes16 buf) (\<lambda>(t, buf).
        bindE (readString buf) (\<lambda>(cg, buf). plain (z\<lparr>opTableID := t, opClockGroup := cg\<rparr>) buf))
      else if k = OpAddUniqueKey then
        bindE (readBytes16 buf) (\<lambda>(t, buf).
        bindE (readBytes16 buf) (\<lambda>(kid, buf).
        bindE (readKeyMembers kid withCoord withPred buf) (\<lambda>(keys, buf).
        plain (z\<lparr>opTableID := t, opKeyID := kid, opKeys := keys\<rparr>) buf)))
      else if k = OpDropUniqueKey then
        bindE (readBytes16 buf) (\<lambda>(t, buf).
        bindE (readBytes16 buf) (\<lambda>(kid, buf). plain (z\<lparr>opTableID := t, opKeyID := kid\<rparr>) buf))
      else if k \<in> namedSQL then
        bindE (readString buf) (\<lambda>(name, buf).
        bindE (readString buf) (\<lambda>(sql, buf). plain (z\<lparr>opObjectName := name, opRawSQL := sql\<rparr>) buf))
      else if k = OpCreateTrigger \<or> k = OpDropTrigger then
        bindE (readBytes16 buf) (\<lambda>(t, buf).
        bindE (readString buf) (\<lambda>(name, buf).
        bindE (readString buf) (\<lambda>(sql, buf).
        plain (z\<lparr>opTableID := t, opObjectName := name, opRawSQL := sql\<rparr>) buf)))
      else if k = OpBundle then
        (case sub of None \<Rightarrow> Inl ErrNestedBundle
         | Some dec \<Rightarrow> bindE (readCounted (readSub dec) buf) (\<lambda>(subs, buf). Inr (CatalogOp z subs, buf)))
      else Inl (ErrCatalogOpKind (ucast k)))"

text \<open>Skipping the extension area.\<close>

function skipExtensions :: "bytes \<Rightarrow> unit result" where
  "skipExtensions rest =
     (if rest = [] then Inr ()
      else case Uvarint rest of (tag, sz) \<Rightarrow>
        if sz \<le> 0 \<or> tag = 0 then Inl ErrExtensionTag
        else bindE (readUvarint (drop (nat sz) rest)) (\<lambda>(n, rest').
          if length rest' < unat n then Inl ErrShortBuffer else skipExtensions (drop (unat n) rest')))"
  by pat_completeness auto
termination
  by (relation "measure length") (auto dest!: readUvarint_shorter)

declare skipExtensions.simps [simp del]

definition decodeFramedCatalogOp :: "sub_decoder \<Rightarrow> bytes \<Rightarrow> catalog_op result" where
  "decodeFramedCatalogOp sub buf =
     bindE (readUvarint buf) (\<lambda>(version, buf).
     if version < catalogOpVersion then Inl (ErrMalformedEnvelope version)
     else if version > catalogOpMaxVersion then Inl (ErrCatalogOpVersion version)
     else
     bindE (readUvarint buf) (\<lambda>(kindU, buf).
     if kindU = 0 \<or> kindU > 0xFF then Inl (ErrCatalogOpKind kindU)
     else
     bindE (decodeCatalogOpBody sub (ucast kindU) True True buf) (\<lambda>(op, rest).
     bindE (skipExtensions rest) (\<lambda>_. Inr op))))"

definition decodeLegacyCatalogOp :: "sub_decoder \<Rightarrow> bytes \<Rightarrow> catalog_op result" where
  "decodeLegacyCatalogOp sub buf =
     (let b0 = hd buf; withCoord = (b0 AND legacyCoordFlag \<noteq> 0); withPred = (b0 AND legacyPartialFlag \<noteq> 0);
          kind = b0 AND NOT (legacyCoordFlag OR legacyPartialFlag)
      in bindE (decodeCatalogOpBody sub kind withCoord withPred (tl buf)) (\<lambda>(op, rest).
         if rest \<noteq> [] then Inl (ErrTrailingBytes (length rest)) else Inr op))"

definition decodeOp :: "sub_decoder \<Rightarrow> bytes \<Rightarrow> catalog_op result" where
  "decodeOp sub buf =
     (case buf of [] \<Rightarrow> Inl ErrShortBuffer
      | b # rest \<Rightarrow> if b = catalogOpSentinel then decodeFramedCatalogOp sub rest else decodeLegacyCatalogOp sub buf)"

definition decodeCatalogOp :: "bytes \<Rightarrow> bool \<Rightarrow> catalog_op result" where
  "decodeCatalogOp buf allowBundle = (if allowBundle then decodeOp (Some (decodeOp None)) buf else decodeOp None buf)"

definition DecodeCatalogOp :: "bytes \<Rightarrow> catalog_op result" where
  "DecodeCatalogOp buf = decodeCatalogOp buf True"

section \<open>Columns and keys round trip\<close>

definition catcol_ok :: "catalog_column \<Rightarrow> bool" where
  "catcol_ok c \<longleftrightarrow> slice_ok (colName c) \<and> slice_ok (colType c) \<and> slice_ok (colDefault c) \<and> slice_ok (colClockGroup c)"

definition key_ok :: "catalog_key \<Rightarrow> bool" where
  "key_ok k \<longleftrightarrow> pred_ok (keyPredicate k) \<and> slice_ok (keyMembers k)"

lemma column_flags_bits:
  "column_flags c AND NOT 7 = 0" "column_flags c AND - 8 = 0" "column_flags c AND 1 \<noteq> 0 \<longleftrightarrow> colNotNull c"
  "column_flags c AND 2 \<noteq> 0 \<longleftrightarrow> colIsPK c" "column_flags c AND 4 \<noteq> 0 \<longleftrightarrow> colGenerated c"
  by (cases "colNotNull c"; cases "colIsPK c"; cases "colGenerated c"; simp add: column_flags_def)+

lemma appendBytes16_nonempty [simp]: "appendBytes16 x \<noteq> []"
  by (simp add: appendBytes16_def flip: length_0_conv)

interpretation catcol_codec: codec appendColumn readColumn catcol_ok
  by unfold_locales
    (simp add: catcol_ok_def appendColumn_def readColumn_def field_codecs readUvarint_append readByte_def column_flags_bits)

interpretation member_codec: codec appendMember readMember "\<lambda>_. True"
  by unfold_locales (simp add: appendMember_def readMember_def field_codecs readUvarint_append)

lemma columns_roundtrip:
  "slice_ok cols \<Longrightarrow> list_all catcol_ok cols \<Longrightarrow> readColumns (appendColumns cols @ rest) = Inr (cols, rest)"
  using catcol_codec.dec_counted [of cols rest]
  by (simp add: readColumns_def appendColumns_def list_all_iff slice_ok_def u64_len_def appendColumn_def)

lemma members_roundtrip:
  "slice_ok ms \<Longrightarrow> readCounted readMember (AppendUvarint (u64_len ms) @ concat (map appendMember ms) @ rest) = Inr (ms, rest)"
  using member_codec.dec_counted [of ms rest] by (simp add: slice_ok_def u64_len_def appendMember_def)

definition enc_key_body :: "catalog_key \<Rightarrow> bytes" where
  "enc_key_body k = projr (appendKeyBody k)"

lemma appendKeyBody_total: "key_ok k \<Longrightarrow> appendKeyBody k = Inr (enc_key_body k)"
  by (simp add: enc_key_body_def appendKeyBody_def key_ok_def appendPredicate_total)

lemma key_body_roundtrip:
  "key_ok k \<Longrightarrow> readKeyBody kid True True (enc_key_body k @ rest) = Inr (k\<lparr>keyKeyID := kid\<rparr>, rest)"
  by (simp add: enc_key_body_def appendKeyBody_def key_ok_def appendPredicate_total readKeyBody_def field_codecs
      predicate_codec.dec_enc members_roundtrip)

definition enc_key :: "catalog_key \<Rightarrow> bytes" where
  "enc_key k = appendBytes16 (keyKeyID k) @ enc_key_body k"

interpretation key_codec: codec enc_key "readKey True True" key_ok
  by unfold_locales (simp add: enc_key_def readKey_def field_codecs key_body_roundtrip)

lemma keys_roundtrip:
  assumes "slice_ok keys" and "list_all key_ok keys"
  shows "\<exists>b. appendKeys keys = Inr b \<and> (\<forall>rest. readKeys True True (b @ rest) = Inr (keys, rest))"
proof -
  have "mapE appendKey keys = Inr (map enc_key keys)"
    using assms(2) by (intro mapE_ok) (simp add: list_all_iff appendKey_def appendKeyBody_total enc_key_def)
  then show ?thesis using key_codec.dec_counted [of keys] assms
    by (simp add: appendKeys_def readKeys_def list_all_iff slice_ok_def u64_len_def enc_key_def)
qed

section \<open>Operations round trip\<close>

text \<open>
  Fields that do not apply to a kind are ignored on encode and zero on decode; the key of an
  \<open>AddUniqueKey\<close> takes the id of the operation. \<open>canon\<close> is what survives.
\<close>

definition canon_fields :: "op_fields \<Rightarrow> op_fields" where
  "canon_fields op =
     (let k = opKind op; z = zero_fields k; t = z\<lparr>opTableID := opTableID op\<rparr> in
      if k = OpCreateTable then t\<lparr>opTableName := opTableName op, opColumns := opColumns op, opKeys := opKeys op,
        opWithoutRowid := opWithoutRowid op\<rparr>
      else if k = OpAddColumn \<or> k = OpAlterColumn then t\<lparr>opColumns := opColumns op\<rparr>
      else if k = OpRenameTable then t\<lparr>opTableName := opTableName op\<rparr>
      else if k = OpRenameColumn then t\<lparr>opColumnID := opColumnID op, opColumnName := opColumnName op\<rparr>
      else if k = OpDropColumn then t\<lparr>opColumnID := opColumnID op\<rparr>
      else if k = OpDropTable then t
      else if k = OpSetClockGroup then t\<lparr>opClockGroup := opClockGroup op\<rparr>
      else if k = OpAddUniqueKey then t\<lparr>opKeyID := opKeyID op, opKeys := map (\<lambda>k. k\<lparr>keyKeyID := opKeyID op\<rparr>) (opKeys op)\<rparr>
      else if k = OpDropUniqueKey then t\<lparr>opKeyID := opKeyID op\<rparr>
      else if k \<in> namedSQL then z\<lparr>opObjectName := opObjectName op, opRawSQL := opRawSQL op\<rparr>
      else if k = OpCreateTrigger \<or> k = OpDropTrigger then t\<lparr>opObjectName := opObjectName op, opRawSQL := opRawSQL op\<rparr>
      else z)"

fun canon :: "catalog_op \<Rightarrow> catalog_op" where
  "canon (CatalogOp op subs) = CatalogOp (canon_fields op) (if opKind op = OpBundle then map canon subs else [])"

text \<open>What Go can hold in memory.\<close>

definition fields_ok :: "op_fields \<Rightarrow> bool" where
  "fields_ok op \<longleftrightarrow> slice_ok (opTableName op) \<and> slice_ok (opColumnName op) \<and> slice_ok (opRawSQL op) \<and>
     slice_ok (opObjectName op) \<and> slice_ok (opClockGroup op) \<and> slice_ok (opColumns op) \<and> list_all catcol_ok (opColumns op) \<and>
     slice_ok (opKeys op) \<and> list_all key_ok (opKeys op)"

definition simple_ok :: "catalog_op \<Rightarrow> bool" where
  "simple_ok op \<longleftrightarrow> fields_ok (Fields op) \<and> slice_ok (SubOps op) \<and>
     (\<forall>b. EncodeCatalogOp op = Inr b \<longrightarrow> slice_ok b)"

definition op_ok :: "catalog_op \<Rightarrow> bool" where
  "op_ok op \<longleftrightarrow> simple_ok op \<and> list_all simple_ok (SubOps op)"

lemma body_roundtrip:
  assumes "opKind op \<noteq> OpBundle" and "fields_ok op" and "encodeOpBody op = Inr b"
  shows "decodeCatalogOpBody sub (opKind op) True True (b @ rest) = Inr (CatalogOp (canon_fields op) [], rest)"
proof -
  note codecs = field_codecs columns_roundtrip
  note defs = encodeOpBody_def decodeCatalogOpBody_def canon_fields_def Let_def
  have ok: "slice_ok (opTableName op)" "slice_ok (opColumnName op)" "slice_ok (opRawSQL op)"
    "slice_ok (opObjectName op)" "slice_ok (opClockGroup op)" "slice_ok (opColumns op)" "list_all catcol_ok (opColumns op)"
    "slice_ok (opKeys op)" "list_all key_ok (opKeys op)"
    using assms(2) by (auto simp: fields_ok_def)
  consider (create) "opKind op = OpCreateTable" | (unique) "opKind op = OpAddUniqueKey"
    | (column) "opKind op = OpAddColumn \<or> opKind op = OpAlterColumn \<or> opKind op = OpRenameTable \<or> opKind op = OpRenameColumn \<or>
      opKind op = OpDropColumn \<or> opKind op = OpDropTable \<or> opKind op = OpSetClockGroup \<or> opKind op = OpDropUniqueKey"
    | (named) "opKind op \<in> namedSQL" | (trigger) "opKind op = OpCreateTrigger \<or> opKind op = OpDropTrigger"
    using assms(1,3) by (auto simp: encodeOpBody_def Let_def split: if_splits)
  then show ?thesis
  proof cases
    case create
    obtain ks where "appendKeys (opKeys op) = Inr ks" "\<And>rest. readKeys True True (ks @ rest) = Inr (opKeys op, rest)"
      using keys_roundtrip [OF ok(8,9)] by blast
    then show ?thesis using assms(3) create ok by (auto simp: defs codecs)
  next
    case unique
    with assms(3) obtain k where k: "opKeys op = [k]"
      by (auto simp: defs op_kinds appendKeyMembers_def bindE_Inr_iff split: list.splits)
    then show ?thesis using assms(3) unique ok
      by (auto simp: defs op_kinds codecs appendKeyMembers_def readKeyMembers_def key_body_roundtrip appendKeyBody_total)
  next
    case column
    then show ?thesis using assms(3) ok by (elim disjE) (auto simp: defs op_kinds codecs)
  next
    case named
    then show ?thesis using assms(3) ok unfolding namedSQL_def by (auto simp: defs op_kinds codecs namedSQL_def)
  next
    case trigger
    then show ?thesis using assms(3) ok by (elim disjE) (auto simp: defs op_kinds codecs namedSQL_def)
  qed
qed

text \<open>Extension entries a later writer may append: a nonzero tag and a length-prefixed payload.\<close>

definition enc_ext :: "u64 \<times> bytes \<Rightarrow> bytes" where
  "enc_ext x = AppendUvarint (fst x) @ appendString (snd x)"

definition ext_ok :: "u64 \<times> bytes \<Rightarrow> bool" where
  "ext_ok x \<longleftrightarrow> fst x \<noteq> 0 \<and> slice_ok (snd x)"

lemma Uvarint_append: "Uvarint (AppendUvarint v @ rest) = (v, int (length (AppendUvarint v)))"
  using uvarint_loop_append [of 0 0 v 0 rest] unsigned_less [of v] by (simp add: Uvarint_def)

lemma skipExtensions_exts: "list_all ext_ok exts \<Longrightarrow> skipExtensions (concat (map enc_ext exts)) = Inr ()"
proof (induction exts)
  case (Cons x exts)
  then show ?case
    by (subst skipExtensions.simps) (simp add: enc_ext_def [of x] ext_ok_def [of x] Uvarint_append appendString_def readUvarint_append)
qed (simp add: skipExtensions.simps)

lemma opVersion_range: "\<not> opVersion k < catalogOpVersion" "\<not> catalogOpMaxVersion < opVersion k"
  by (simp_all add: opVersion_def catalogOpVersion_def catalogOpMaxVersion_def)

lemma ucast_kind: "(ucast (ucast (k :: byte) :: u64) :: byte) = k" "\<not> (0xFF :: u64) < ucast (k :: byte)" "(ucast (k :: byte) :: u64) = 0 \<longleftrightarrow> k = 0"
proof -
  have lt: "unat k < 2 ^ 8" using unsigned_less [of k] by simp
  then have u: "unat (ucast k :: u64) = unat k" by (simp add: unsigned_ucast_eq take_bit_nat_eq_self_iff)
  show "\<not> (0xFF :: u64) < ucast k" using lt by (simp add: word_less_nat_alt u)
  show "(ucast (ucast k :: u64) :: byte) = k" by (rule bit_word_eqI) (simp add: bit_simps)
  show "(ucast k :: u64) = 0 \<longleftrightarrow> k = 0" by (simp add: word_unat_eq_iff u)
qed

lemma framed_roundtrip:
  assumes "k \<noteq> 0" and "list_all ext_ok exts"
    and "\<And>rest. decodeCatalogOpBody sub k True True (body @ rest) = Inr (op, rest)"
  shows "decodeOp sub (catalogOpSentinel # AppendUvarint (opVersion k) @ AppendUvarint (ucast k) @ body @ concat (map enc_ext exts)) = Inr op"
  using assms skipExtensions_exts [OF assms(2)]
  by (simp add: decodeOp_def decodeFramedCatalogOp_def readUvarint_append opVersion_range ucast_kind)

lemma simple_roundtrip:
  assumes "EncodeCatalogOp (CatalogOp op subs) = Inr b" and "opKind op \<noteq> OpBundle" and "fields_ok op" and "list_all ext_ok exts"
  shows "decodeOp sub (b @ concat (map enc_ext exts)) = Inr (canon (CatalogOp op subs))"
proof -
  from assms(1,2) obtain body where k: "opKind op \<noteq> 0" and body: "encodeOpBody op = Inr body"
    and b: "b = catalogOpSentinel # AppendUvarint (opVersion (opKind op)) @ AppendUvarint (ucast (opKind op)) @ body"
    by (auto simp: bindE_Inr_iff split: if_splits)
  from framed_roundtrip [OF k assms(4) body_roundtrip [OF assms(2,3) body]] show ?thesis
    using assms(2) by (simp add: b)
qed

definition enc_sub :: "catalog_op \<Rightarrow> bytes" where
  "enc_sub op = (let b = projr (EncodeCatalogOp op) in AppendUvarint (u64_len b) @ b)"

declare EncodeCatalogOp.simps [simp del]

lemma mapE_Inr_iff: "mapE f xs = Inr ys \<longleftrightarrow> list_all2 (\<lambda>x y. f x = Inr y) xs ys"
  by (induction xs arbitrary: ys) (auto simp: bindE_Inr_iff list_all2_Cons1)

lemma readSub_enc:
  assumes "simple_ok op" and "opKind (Fields op) \<noteq> OpBundle" and "EncodeCatalogOp op = Inr b"
  shows "readSub (decodeOp None) (enc_sub op @ rest) = Inr (canon op, rest)"
proof -
  have "decodeOp None b = Inr (canon op)"
    using simple_roundtrip [of "Fields op" "SubOps op" b "[]" None] assms by (simp add: simple_ok_def)
  moreover have "slice_ok b" using assms(1,3) by (simp add: simple_ok_def)
  ultimately show ?thesis using assms(3) string_codec.dec_enc [of b rest]
    by (simp add: readSub_def enc_sub_def appendString_def)
qed

lemma bundle_body_roundtrip:
  assumes "slice_ok subs"
    and "\<forall>op \<in> set subs. simple_ok op \<and> opKind (Fields op) \<noteq> OpBundle \<and> (\<exists>b. EncodeCatalogOp op = Inr b)"
  shows "decodeCatalogOpBody (Some (decodeOp None)) OpBundle True True
      ((AppendUvarint (u64_len subs) @ concat (map enc_sub subs)) @ rest) = Inr (CatalogOp (zero_fields OpBundle) (map canon subs), rest)"
proof -
  have rd: "readN (readSub (decodeOp None)) (length subs) (concat (map enc_sub subs) @ rest) = Inr (map canon subs, rest)"
    using assms(2) by (induction subs) (auto simp: readSub_enc)
  have "length subs \<le> length (concat (map enc_sub subs))"
  proof -
    have "1 \<le> length (enc_sub op)" for op by (simp add: enc_sub_def Let_def Suc_le_eq)
    then have "sum_list (map (\<lambda>_. 1) subs) \<le> sum_list (map (\<lambda>s. length (enc_sub s)) subs)"
      by (intro sum_list_mono) auto
    then show ?thesis by (simp add: length_concat comp_def sum_list_triv)
  qed
  then have "readCounted (readSub (decodeOp None)) (AppendUvarint (u64_len subs) @ concat (map enc_sub subs) @ rest) = Inr (map canon subs, rest)"
    using rd assms(1) by (simp add: readCounted_def readUvarint_append)
  then show ?thesis by (simp add: decodeCatalogOpBody_def Let_def op_kinds namedSQL_def)
qed

lemma catalog_op_decodes:
  assumes "EncodeCatalogOp op = Inr b" and "op_ok op" and "list_all ext_ok exts"
  shows "DecodeCatalogOp (b @ concat (map enc_ext exts)) = Inr (canon op)"
proof -
  obtain f subs where op: "op = CatalogOp f subs" by (cases op)
  have ok: "fields_ok f" "slice_ok subs" "list_all simple_ok subs"
    using assms(2) by (auto simp: op op_ok_def simple_ok_def)
  show ?thesis
  proof (cases "opKind f = OpBundle")
    case False
    with assms ok show ?thesis unfolding op DecodeCatalogOp_def decodeCatalogOp_def
      by (simp only: if_True) (rule simple_roundtrip)
  next
    case True
    with assms(1) obtain bs where bs: "mapE (\<lambda>sub. if opKind (Fields sub) = OpBundle then Inl ErrNestedBundle
        else bindE (EncodeCatalogOp sub) (\<lambda>b. Inr (AppendUvarint (u64_len b) @ b))) subs = Inr bs"
      and b: "b = catalogOpSentinel # AppendUvarint (opVersion OpBundle) @ AppendUvarint (ucast OpBundle) @
        AppendUvarint (u64_len subs) @ concat bs"
      by (auto simp: op EncodeCatalogOp.simps bindE_Inr_iff split: if_splits)
    have all: "\<forall>s \<in> set subs. opKind (Fields s) \<noteq> OpBundle \<and> (\<exists>b. EncodeCatalogOp s = Inr b)" and "bs = map enc_sub subs"
      using bs by (induction subs arbitrary: bs) (auto simp: bindE_Inr_iff enc_sub_def split: if_splits)
    moreover have "OpBundle \<noteq> 0" by (simp add: op_kinds)
    moreover note framed_roundtrip [OF this assms(3) bundle_body_roundtrip [of subs]]
    moreover have "canon_fields f = zero_fields OpBundle" using True by (simp add: canon_fields_def Let_def op_kinds namedSQL_def)
    ultimately show ?thesis using True ok
      by (simp add: op b DecodeCatalogOp_def decodeCatalogOp_def list_all_iff)
  qed
qed

section \<open>Properties\<close>





end
