(* ===== verification/Key_Tuple.thy ===== *)
theory Key_Tuple
  imports Catalog_Op
begin

text \<open>
  \<open>catalog/tuple.go\<close>: the canonical encoding of key tuples, the bytes that identify a row or a
  unique key cluster-wide.
\<close>

definition AppendValue :: "col_value \<Rightarrow> bytes result" where
  "AppendValue v =
     (if TypeTag v = ColNull then Inl ErrNullKeyMember
      else if TypeTag v > 0xff then Inl (ErrKeyTypeTag (TypeTag v))
      else Inr (put_id (Column v) @ [ucast (TypeTag v)] @ AppendUvarint (u64_len (VBytes v)) @ VBytes v))"

definition EncodeTuple :: "col_value list \<Rightarrow> bytes result" where
  "EncodeTuple vs = bindE (mapE AppendValue vs) (\<lambda>bs. Inr (concat bs))"

text \<open>
  \<open>RangeTuple\<close> calls \<open>fn\<close> on each member; what the callback does to its captured state is threaded
  as \<open>st\<close>. Offsets in errors are positions in the whole tuple.
\<close>

function range_loop :: "(col_value \<Rightarrow> 's \<Rightarrow> 's result) \<Rightarrow> bytes \<Rightarrow> nat \<Rightarrow> 's \<Rightarrow> 's result" where
  "range_loop fn tuple off st =
     (if off \<ge> length tuple then Inr st
      else if off + 17 > length tuple then Inl (ErrTruncatedTuple off)
      else let col = be_word (take 16 (drop off tuple)); tag = ucast (tuple ! (off + 16)) in
        case Uvarint (drop (off + 17) tuple) of (n, sz) \<Rightarrow>
          if sz \<le> 0 then Inl (ErrTupleLength (off + 17))
          else let off' = off + 17 + nat sz in
            if unat n > length tuple - off' then Inl (ErrTruncatedTuple off')
            else bindE (fn (ColValue col tag 0 (take (unat n) (drop off' tuple))) st)
              (\<lambda>st. range_loop fn tuple (off' + unat n) st))"
  by pat_completeness auto
termination
  by (relation "measure (\<lambda>(fn, tuple, off, st). length tuple - off)") auto

definition RangeTuple :: "(col_value \<Rightarrow> 's \<Rightarrow> 's result) \<Rightarrow> bytes \<Rightarrow> 's \<Rightarrow> 's result" where
  "RangeTuple fn tuple st = range_loop fn tuple 0 st"

declare range_loop.simps [simp del]

definition member_value :: "col_value \<Rightarrow> col_value" where
  "member_value v = ColValue (Column v) (TypeTag v) 0 (VBytes v)"

definition enc_value :: "col_value \<Rightarrow> bytes" where
  "enc_value v = projr (AppendValue v)"

text \<open>The visits the callback sees, one after the other.\<close>

fun visit :: "(col_value \<Rightarrow> 's \<Rightarrow> 's result) \<Rightarrow> col_value list \<Rightarrow> 's \<Rightarrow> 's result" where
  "visit fn [] st = Inr st"
| "visit fn (v # vs) st = bindE (fn v st) (\<lambda>st. visit fn vs st)"

lemma AppendValue_Inr: "AppendValue v = Inr b \<longleftrightarrow> TypeTag v \<noteq> ColNull \<and> TypeTag v \<le> 0xff \<and>
    b = put_id (Column v) @ [ucast (TypeTag v)] @ AppendUvarint (u64_len (VBytes v)) @ VBytes v"
  by (auto simp: AppendValue_def not_less)

lemma ucast_tag: "(t :: u32) \<le> 0xff \<Longrightarrow> ucast (ucast t :: byte) = t"
proof -
  assume "t \<le> 0xff"
  then have lt: "unat t < 256" by (simp add: word_le_nat_alt)
  then have "unat (ucast t :: byte) = unat t" by (simp add: unsigned_ucast_eq take_bit_nat_eq_self)
  with lt show ?thesis by (simp add: word_unat_eq_iff unsigned_ucast_eq take_bit_eq_mod unat_mod_distrib)
qed

lemma range_loop_step:
  assumes "AppendValue v = Inr b" and "slice_ok (VBytes v)" and "length pre = off"
  shows "range_loop fn (pre @ b @ rest) off st =
    bindE (fn (member_value v) st) (\<lambda>st. range_loop fn ((pre @ b) @ rest) (off + length b) st)"
proof -
  let ?u = "AppendUvarint (u64_len (VBytes v))"
  have b: "b = put_id (Column v) @ [ucast (TypeTag v)] @ ?u @ VBytes v" and t: "TypeTag v \<le> 0xff"
    using assms(1) by (auto simp: AppendValue_Inr)
  have d: "drop off (pre @ b @ rest) = b @ rest" "drop (off + 17) (pre @ b @ rest) = ?u @ VBytes v @ rest"
    "drop (off + 17 + length ?u) (pre @ b @ rest) = VBytes v @ rest" "(pre @ b @ rest) ! (off + 16) = ucast (TypeTag v)"
    using assms(3) by (simp_all add: b nth_append)
  have "17 \<le> length b" by (simp add: b)
  then show ?thesis using assms(2,3) t unfolding range_loop.simps [of fn "pre @ b @ rest" off st] d
    by (simp add: Let_def Uvarint_append b ucast_tag member_value_def add.assoc)
qed

lemma range_loop_visit:
  assumes "\<forall>v \<in> set vs. (\<exists>b. AppendValue v = Inr b) \<and> slice_ok (VBytes v)" and "length pre = off"
  shows "range_loop fn (pre @ concat (map enc_value vs)) off st = visit fn (map member_value vs) st"
  using assms
proof (induction vs arbitrary: pre off st)
  case Nil
  then show ?case by (simp add: range_loop.simps)
next
  case (Cons v vs)
  then obtain b where b: "AppendValue v = Inr b" "slice_ok (VBytes v)" "enc_value v = b" by (auto simp: enc_value_def)
  have IH: "range_loop fn ((pre @ b) @ concat (map enc_value vs)) (off + length b) st = visit fn (map member_value vs) st" for st
    by (rule Cons.IH) (use Cons.prems in auto)
  show ?case using range_loop_step [OF b(1,2) Cons.prems(2), of fn "concat (map enc_value vs)" st] b(3) IH by simp
qed

lemma EncodeTuple_Inr:
  assumes "EncodeTuple vs = Inr t"
  shows "t = concat (map enc_value vs) \<and> (\<forall>v \<in> set vs. \<exists>b. AppendValue v = Inr b)"
  using assms unfolding EncodeTuple_def
  by (induction vs arbitrary: t) (fastforce simp: bindE_Inr_iff enc_value_def)+

lemma visit_collect: "visit (\<lambda>v acc. Inr (acc @ [v])) vs acc = Inr (acc @ vs)"
  by (induction vs arbitrary: acc) auto

section \<open>Properties\<close>

text \<open>
  C33: a key is its bytes. Visiting an encoded tuple calls the function on exactly the encoded
  members, in order, for any callback; so the members can be read back, and two keys with
  the same bytes have the same columns, types and values.
\<close>

theorem tuple_roundtrip:
  assumes "EncodeTuple vs = Inr t" and "\<forall>v \<in> set vs. slice_ok (VBytes v)"
  shows "RangeTuple fn t st = visit fn (map member_value vs) st \<and>
    RangeTuple (\<lambda>v acc. Inr (acc @ [v])) t [] = Inr (map member_value vs) \<and>
    (EncodeTuple ws = Inr t \<and> (\<forall>w \<in> set ws. slice_ok (VBytes w)) \<longrightarrow> map member_value ws = map member_value vs)"
proof -
  have c: "RangeTuple (\<lambda>v acc. Inr (acc @ [v])) t [] = Inr (map member_value xs)"
    if "EncodeTuple xs = Inr t" "\<forall>v \<in> set xs. slice_ok (VBytes v)" for xs
    using EncodeTuple_Inr [OF that(1)] that(2) range_loop_visit [of xs "[]" 0 "\<lambda>v acc. Inr (acc @ [v])" "[]"]
    by (simp add: RangeTuple_def visit_collect)
  have "RangeTuple fn t st = visit fn (map member_value vs) st"
    using EncodeTuple_Inr [OF assms(1)] assms(2) range_loop_visit [of vs "[]" 0 fn st] by (simp add: RangeTuple_def)
  then show ?thesis using c [OF assms] c [of ws] by auto
qed

theorem tuple_roundtrip_witness:
  "\<exists>t. EncodeTuple [ColValue 1 ColText 0 [65, 66], IntColValue 7] = Inr t \<and>
    RangeTuple (\<lambda>v acc. Inr (acc @ [v])) t [] = Inr [ColValue 1 ColText 0 [65, 66], IntColValue 7]"
proof -
  let ?vs = "[ColValue 1 ColText 0 [65, 66], IntColValue 7]"
  obtain t where t: "EncodeTuple ?vs = Inr t"
    by (simp add: EncodeTuple_def AppendValue_def IntColValue_def col_tags)
  moreover have "\<forall>v \<in> set ?vs. slice_ok (VBytes v)" by (simp add: slice_ok_def IntColValue_def)
  ultimately show ?thesis using tuple_roundtrip [OF t, of "\<lambda>v acc. Inr (acc @ [v])" "[]" "[]"] by (simp add: member_value_def IntColValue_def)
qed

end
