(* ===== verification/Causal.thy ===== *)
theory Causal
  imports Identity
begin

text \<open>
  \<open>crdt/causal.go\<close>: inclusive sequence ranges and the sparse sequence set \<open>SeqSet\<close>, a sorted list of
  non-adjacent ranges searched by bisection. The abstraction is the finite set of sequence numbers
  the ranges cover; \<open>Contains\<close>, \<open>Add\<close> and \<open>PromoteContiguous\<close> are shown to be membership,
  insertion and removal of a contiguous prefix, with the 64-bit wrap-around of \<open>Hi + 1\<close> and
  \<open>v + 1\<close> taken into account.
\<close>

datatype seq_range = SeqRange (Lo: seq) (Hi: seq)

definition SeqRange_Empty :: "seq_range \<Rightarrow> bool" where
  "SeqRange_Empty r \<longleftrightarrow> Lo r > Hi r"

definition SeqRange_Contains :: "seq_range \<Rightarrow> seq \<Rightarrow> bool" where
  "SeqRange_Contains r s \<longleftrightarrow> s \<ge> Lo r \<and> s \<le> Hi r"

text \<open>A \<open>SeqSet\<close> is its only field, \<open>ranges\<close>.\<close>

type_synonym seqset = "seq_range list"

definition SeqSet_IsEmpty :: "seqset \<Rightarrow> bool" where
  "SeqSet_IsEmpty s \<longleftrightarrow> length s = 0"

definition SeqSet_Contains :: "seqset \<Rightarrow> seq \<Rightarrow> bool" where
  "SeqSet_Contains s v =
     (let i = sort_Search (length s) (\<lambda>i. Lo (s ! i) > v)
      in i > 0 \<and> v \<le> Hi (s ! (i - 1)))"

definition SeqSet_Add :: "seqset \<Rightarrow> seq \<Rightarrow> seqset" where
  "SeqSet_Add s v =
     (let i = sort_Search (length s) (\<lambda>i. Lo (s ! i) > v) in
      if i > 0 \<and> v \<le> Hi (s ! (i - 1)) then s
      else
        let prevAdj = (i > 0 \<and> Hi (s ! (i - 1)) + 1 = v);
            nextAdj = (i < length s \<and> v + 1 = Lo (s ! i))
        in if prevAdj \<and> nextAdj
           then let s = s[i - 1 := SeqRange (Lo (s ! (i - 1))) (Hi (s ! i))]
                in take i s @ drop (i + 1) s
           else if prevAdj then s[i - 1 := SeqRange (Lo (s ! (i - 1))) v]
           else if nextAdj then s[i := SeqRange v (Hi (s ! i))]
           else take i s @ SeqRange v v # drop i s)"

definition PromoteContiguous :: "seqset \<Rightarrow> seq \<Rightarrow> seq \<times> seqset" where
  "PromoteContiguous s prev =
     (case s of [] \<Rightarrow> (prev, s)
      | first # rest \<Rightarrow> if Lo first \<noteq> prev + 1 then (prev, s) else (Hi first, rest))"

section \<open>Invariant and abstraction\<close>

definition range_gap :: "seq_range \<Rightarrow> seq_range \<Rightarrow> bool" where
  "range_gap r r' \<longleftrightarrow> Suc (unat (Hi r)) < unat (Lo r')"

definition seqset_inv :: "seqset \<Rightarrow> bool" where
  "seqset_inv s \<longleftrightarrow> (\<forall>r \<in> set s. Lo r \<le> Hi r) \<and> sorted_wrt range_gap s"

definition seqs :: "seqset \<Rightarrow> seq set" where
  "seqs s = (\<Union>r \<in> set s. {Lo r..Hi r})"

lemma seqs_simps [simp]:
  "seqs [] = {}" "seqs (r # s) = {Lo r..Hi r} \<union> seqs s" "seqs (s @ t) = seqs s \<union> seqs t"
  by (simp_all add: seqs_def)

lemma seqset_inv_Nil [simp]: "seqset_inv []"
  by (simp add: seqset_inv_def)

lemma seqset_inv_append: "seqset_inv (s @ t) \<longleftrightarrow>
    seqset_inv s \<and> seqset_inv t \<and> (\<forall>r \<in> set s. \<forall>r' \<in> set t. range_gap r r')"
  by (auto simp: seqset_inv_def sorted_wrt_append)

lemma seqset_inv_Cons: "seqset_inv (r # t) \<longleftrightarrow>
    Lo r \<le> Hi r \<and> seqset_inv t \<and> (\<forall>r' \<in> set t. range_gap r r')"
  by (auto simp: seqset_inv_def)

lemma seqset_sorted_Lo: "seqset_inv s \<Longrightarrow> sorted_wrt (\<lambda>a b. Lo b \<le> v \<longrightarrow> Lo a \<le> v) s"
  by (induction s) (auto simp: seqset_inv_Cons range_gap_def word_le_nat_alt)

lemma seqset_search:
  assumes "seqset_inv s"
  shows "sort_Search (length s) (\<lambda>i. Lo (s ! i) > v) = length (takeWhile (\<lambda>r. Lo r \<le> v) s)"
  using sort_Search_takeWhile [OF seqset_sorted_Lo [OF assms]] by (simp add: not_le)

lemma seqset_split:
  assumes "seqset_inv s"
  obtains xs ys where "s = xs @ ys" "\<forall>r \<in> set xs. Lo r \<le> v" "\<forall>r \<in> set ys. v < Lo r"
    "sort_Search (length s) (\<lambda>i. Lo (s ! i) > v) = length xs"
proof
  let ?P = "\<lambda>r. Lo r \<le> v"
  show "s = takeWhile ?P s @ dropWhile ?P s" by simp
  show "\<forall>r \<in> set (takeWhile ?P s). Lo r \<le> v" by (auto dest: set_takeWhileD)
  show "\<forall>r \<in> set (dropWhile ?P s). v < Lo r"
  proof (cases "dropWhile ?P s")
    case (Cons y ys)
    then have "v < Lo y" by (metis hd_dropWhile list.distinct(1) list.sel(1) not_le)
    moreover have "sorted_wrt (\<lambda>a b. Lo b \<le> v \<longrightarrow> Lo a \<le> v) (takeWhile ?P s @ y # ys)"
      using seqset_sorted_Lo [OF assms] Cons by (metis takeWhile_dropWhile_id)
    ultimately show ?thesis unfolding Cons by (auto simp: sorted_wrt_append not_le [symmetric])
  qed (simp only: list.set ball_empty)
qed (rule seqset_search [OF assms])

section \<open>Membership and insertion\<close>

lemma range_gap_Hi: "seqset_inv (us @ [p]) \<Longrightarrow> r \<in> set us \<Longrightarrow> Hi r < Hi p"
  by (auto simp: seqset_inv_append seqset_inv_Cons range_gap_def word_less_nat_alt word_le_nat_alt)

lemma seqset_Contains: "seqset_inv s \<Longrightarrow> SeqSet_Contains s v \<longleftrightarrow> v \<in> seqs s"
proof -
  assume inv: "seqset_inv s"
  then obtain xs ys where s: "s = xs @ ys" "\<forall>r \<in> set xs. Lo r \<le> v" "\<forall>r \<in> set ys. v < Lo r"
    and i: "sort_Search (length s) (\<lambda>i. Lo (s ! i) > v) = length xs"
    by (rule seqset_split)
  have ys: "v \<notin> seqs ys" using s(3) by (auto simp: seqs_def)
  show ?thesis
  proof (cases xs rule: rev_cases)
    case Nil
    then show ?thesis using ys i s(1) by (simp add: SeqSet_Contains_def)
  next
    case (snoc us p)
    then have "seqset_inv (us @ [p])" using inv s(1) by (simp add: seqset_inv_append seqset_inv_Cons)
    then have "v \<in> seqs us \<Longrightarrow> v \<le> Hi p" using range_gap_Hi by (force simp: seqs_def)
    then show ?thesis using ys i s snoc by (auto simp: SeqSet_Contains_def nth_append)
  qed
qed

text \<open>The four outcomes of \<open>Add\<close> on a list split at the insertion point.\<close>

lemma SeqSet_Add_split:
  assumes "seqset_inv s" and "s = xs @ ys" "\<forall>r \<in> set xs. Lo r \<le> v" "\<forall>r \<in> set ys. v < Lo r"
    and i: "sort_Search (length s) (\<lambda>i. Lo (s ! i) > v) = length xs"
  shows "SeqSet_Add s v =
    (if xs \<noteq> [] \<and> v \<le> Hi (last xs) then s
     else if xs \<noteq> [] \<and> Hi (last xs) + 1 = v
       then if ys \<noteq> [] \<and> v + 1 = Lo (hd ys)
            then butlast xs @ SeqRange (Lo (last xs)) (Hi (hd ys)) # tl ys
            else butlast xs @ SeqRange (Lo (last xs)) v # ys
       else if ys \<noteq> [] \<and> v + 1 = Lo (hd ys) then xs @ SeqRange v (Hi (hd ys)) # tl ys
            else xs @ SeqRange v v # ys)"
proof (cases xs rule: rev_cases)
  case Nil
  then show ?thesis using i assms(2)
    by (cases ys) (simp_all add: SeqSet_Add_def Let_def)
next
  case (snoc us p)
  then show ?thesis using i assms(2)
    by (cases ys) (auto simp: SeqSet_Add_def Let_def nth_append list_update_append)
qed

lemmas gap_simps = seqset_inv_append seqset_inv_Cons range_gap_def

lemma Hi_below:
  assumes "seqset_inv (us @ [p])" and "Hi p < v" and "r \<in> set us"
  shows "Suc (unat (Hi r)) < unat v"
  using assms by (fastforce simp: gap_simps word_less_nat_alt word_le_nat_alt)

lemma add_alone:
  assumes "seqset_inv (xs @ ys)" "\<forall>r \<in> set xs. Suc (unat (Hi r)) < unat v"
    and "\<forall>r \<in> set ys. Suc (unat v) < unat (Lo r)"
  shows "seqset_inv (xs @ SeqRange v v # ys) \<and> seqs (xs @ SeqRange v v # ys) = insert v (seqs (xs @ ys))"
  using assms by (auto simp: gap_simps)

lemma add_next:
  assumes "seqset_inv (xs @ y # ys)" "\<forall>r \<in> set xs. Suc (unat (Hi r)) < unat v"
    and "v + 1 = Lo y" "v < Lo y"
  shows "seqset_inv (xs @ SeqRange v (Hi y) # ys) \<and>
    seqs (xs @ SeqRange v (Hi y) # ys) = insert v (seqs (xs @ y # ys))"
proof -
  have "Lo y \<le> Hi y" using assms(1) by (simp add: gap_simps)
  then have "{v..Hi y} = insert v {Lo y..Hi y}"
    using assms(3,4) unat_succ [OF assms(4)]
    by (auto simp: word_le_nat_alt word_less_nat_alt word_unat_eq_iff)
  then show ?thesis using assms by (auto simp: gap_simps)
qed

lemma add_prev:
  assumes "seqset_inv (us @ p # ys)" "Hi p + 1 = v" "Hi p < v"
    and "\<forall>r \<in> set ys. Suc (unat v) < unat (Lo r)"
  shows "seqset_inv (us @ SeqRange (Lo p) v # ys) \<and>
    seqs (us @ SeqRange (Lo p) v # ys) = insert v (seqs (us @ p # ys))"
proof -
  have "Lo p \<le> Hi p" using assms(1) by (simp add: gap_simps)
  then have "{Lo p..v} = insert v {Lo p..Hi p}"
    using assms(2,3) atMost_Suc_word [OF assms(2,3)] by auto
  then show ?thesis using assms by (auto simp: gap_simps)
qed

lemma add_both:
  assumes "seqset_inv (us @ p # y # ys)" "Hi p + 1 = v" "Hi p < v" "v + 1 = Lo y" "v < Lo y"
  shows "seqset_inv (us @ SeqRange (Lo p) (Hi y) # ys) \<and>
    seqs (us @ SeqRange (Lo p) (Hi y) # ys) = insert v (seqs (us @ p # y # ys))"
proof -
  have le: "Lo p \<le> Hi p" "Lo y \<le> Hi y" using assms(1) by (simp_all add: gap_simps)
  then have "{Lo p..Hi y} = insert v ({Lo p..Hi p} \<union> {Lo y..Hi y})"
    using assms(2-5) unat_succ [OF assms(3)] unat_succ [OF assms(5)]
    by (auto simp: word_le_nat_alt word_less_nat_alt word_unat_eq_iff)
  then show ?thesis using assms le by (auto simp: gap_simps)
qed

lemma SeqSet_Add_correct:
  assumes inv: "seqset_inv s"
  shows "seqset_inv (SeqSet_Add s v) \<and> seqs (SeqSet_Add s v) = insert v (seqs s)"
proof -
  obtain xs ys where s: "s = xs @ ys" "\<forall>r \<in> set xs. Lo r \<le> v" "\<forall>r \<in> set ys. v < Lo r"
    and i: "sort_Search (length s) (\<lambda>i. Lo (s ! i) > v) = length xs"
    using inv by (rule seqset_split)
  note add = SeqSet_Add_split [OF inv s i]
  have iy: "seqset_inv ys" and ix: "seqset_inv xs" using inv s(1) by (simp_all add: seqset_inv_append)
  have next_gap: "Suc (unat v) < unat (Lo r)" if "r \<in> set ys" "\<not> (ys \<noteq> [] \<and> v + 1 = Lo (hd ys))" for r
  proof (cases ys)
    case (Cons y zs)
    then have vy: "v < Lo y" using s(3) by simp
    then have "Suc (unat v) \<noteq> unat (Lo y)"
      using that Cons unat_succ [OF vy] by (auto simp: word_unat_eq_iff)
    with vy have "Suc (unat v) < unat (Lo y)" by (simp add: word_less_nat_alt)
    moreover have "unat (Lo y) \<le> unat (Lo r)"
      using that(1) iy unfolding Cons by (auto simp: gap_simps word_le_nat_alt)
    ultimately show ?thesis by simp
  qed (use that in simp)
  have prev_gap: "Suc (unat (Hi r)) < unat v"
    if "r \<in> set xs" "\<not> (xs \<noteq> [] \<and> v \<le> Hi (last xs))" "\<not> (xs \<noteq> [] \<and> Hi (last xs) + 1 = v)" for r
  proof (cases xs rule: rev_cases)
    case (snoc us p)
    then have pv: "Hi p < v" "Hi p + 1 \<noteq> v" using that by auto
    then have "Suc (unat (Hi p)) < unat v"
      using unat_succ [OF pv(1)] by (auto simp: word_less_nat_alt word_unat_eq_iff)
    then show ?thesis using Hi_below [of us p v r] pv ix snoc that(1) by auto
  qed (use that in simp)
  consider (present) "xs \<noteq> []" "v \<le> Hi (last xs)"
    | (apart) "\<not> (xs \<noteq> [] \<and> v \<le> Hi (last xs))" "\<not> (xs \<noteq> [] \<and> Hi (last xs) + 1 = v)"
    | (adjacent) us p where "xs = us @ [p]" "\<not> v \<le> Hi p" "Hi p + 1 = v"
    by (cases xs rule: rev_cases) auto
  then show ?thesis
  proof cases
    case present
    then have "SeqSet_Contains s v" using i s(1) by (simp add: SeqSet_Contains_def nth_append last_conv_nth)
    then show ?thesis using present add inv by (simp add: seqset_Contains insert_absorb)
  next
    case apart
    then show ?thesis
      using add s inv add_alone [of xs ys v] add_next [of xs "hd ys" "tl ys" v] next_gap prev_gap
      by (cases ys) (auto split: if_splits)
  next
    case adjacent
    then show ?thesis
      using add s inv add_prev [of us p ys v] add_both [of us p "hd ys" "tl ys" v] next_gap
      by (cases ys) (auto split: if_splits)
  qed
qed

section \<open>Promotion of the contiguous prefix\<close>

lemma PromoteContiguous_inv: "seqset_inv s \<Longrightarrow> seqset_inv (snd (PromoteContiguous s prev))"
  by (auto simp: PromoteContiguous_def seqset_inv_Cons split: list.splits)

text \<open>
  With every member above the head, promotion moves a (possibly empty) run \<open>head + 1..head'\<close> of
  members out of the set, and what remains lies beyond the first missing number.
\<close>

definition all_above :: "seq \<Rightarrow> seqset \<Rightarrow> bool" where
  "all_above h s \<longleftrightarrow> (\<forall>v \<in> seqs s. h < v)"

lemma seqs_beyond:
  assumes "seqset_inv (r # rs)" and "x \<in> seqs rs" shows "Suc (unat (Hi r)) < unat x"
  using assms by (auto simp: seqs_def gap_simps word_le_nat_alt intro: less_le_trans)

lemma PromoteContiguous_correct:
  assumes inv: "seqset_inv s" and above: "all_above h s" and res: "PromoteContiguous s h = (h', s')"
  shows "h \<le> h' \<and> {1..h'} \<union> seqs s' = {1..h} \<union> seqs s \<and> all_above h' s' \<and> h' + 1 \<notin> seqs s'"
proof (cases s)
  case Nil
  then show ?thesis using assms by (simp add: PromoteContiguous_def all_above_def)
next
  case (Cons r rs)
  have le: "Lo r \<le> Hi r" and lo: "h < Lo r"
    using inv above Cons by (auto simp: seqset_inv_Cons all_above_def)
  have far: "Suc (unat (Hi r)) < unat x" if "x \<in> seqs rs" for x
    using that inv Cons seqs_beyond by blast
  have h1: "unat (h + 1) = Suc (unat h)" using lo by (rule unat_succ)
  show ?thesis
  proof (cases "Lo r = h + 1")
    case True
    then have eq: "h' = Hi r" "s' = rs" using res Cons by (simp_all add: PromoteContiguous_def)
    have "{1..Hi r} = {1..h} \<union> {Lo r..Hi r}"
      using True h1 le lo by (auto simp: word_le_nat_alt word_less_nat_alt)
    moreover have "Hi r + 1 \<notin> seqs rs"
      using far unat_succ [of "Hi r" "Hi r + 1"] by (force simp: word_less_nat_alt)
    moreover have "all_above (Hi r) rs" using far by (auto simp: all_above_def word_less_nat_alt Suc_lessD)
    ultimately show ?thesis using eq Cons le lo by auto
  next
    case False
    then have eq: "h' = h" "s' = s" using res Cons by (simp_all add: PromoteContiguous_def)
    have "h + 1 \<notin> seqs s"
      using False h1 lo le far Cons
      by (fastforce simp: word_le_nat_alt word_less_nat_alt word_unat_eq_iff)
    then show ?thesis using eq above by simp
  qed
qed

section \<open>One list of ranges for each set\<close>

lemma seqs_Lo_least: "seqset_inv (r # rs) \<Longrightarrow> x \<in> seqs (r # rs) \<Longrightarrow> Lo r \<le> x"
  using seqs_beyond [of r rs x] by (auto simp: seqset_inv_Cons word_le_nat_alt)

lemma seqs_Hi_gap:
  assumes "seqset_inv (r # rs)" and "Hi r < b" shows "Hi r + 1 \<notin> seqs (r # rs)"
proof -
  have u: "unat (Hi r + 1) = Suc (unat (Hi r))" using assms(2) by (rule unat_succ)
  have "Hi r + 1 \<notin> seqs rs" using seqs_beyond [OF assms(1), of "Hi r + 1"] u by auto
  then show ?thesis using u by (simp add: word_le_nat_alt)
qed

lemma seqs_Hi_le:
  assumes r: "seqset_inv (r # rs)" and q: "seqset_inv (q # qs)" and eq: "seqs (r # rs) = seqs (q # qs)"
    and lo: "Lo r = Lo q"
  shows "Hi q \<le> Hi r"
proof (rule ccontr)
  assume "\<not> Hi q \<le> Hi r"
  then have lt: "Hi r < Hi q" by simp
  have "Lo q \<le> Hi r" using r lo by (simp add: seqset_inv_Cons)
  then have "Hi r + 1 \<in> {Lo q..Hi q}"
    using unat_succ [OF lt] lt by (simp add: word_le_nat_alt word_less_nat_alt)
  then show False using seqs_Hi_gap [OF r lt] eq by auto
qed

lemma seqs_inj: "seqset_inv s \<Longrightarrow> seqset_inv t \<Longrightarrow> seqs s = seqs t \<Longrightarrow> s = t"
proof (induction s arbitrary: t)
  case Nil
  then show ?case by (cases t) (auto simp: seqset_inv_Cons)
next
  case (Cons r rs)
  obtain q qs where t: "t = q # qs"
    using Cons.prems by (cases t) (auto simp: seqset_inv_Cons)
  note inv = Cons.prems(1) Cons.prems(2) [unfolded t]
  note eq = Cons.prems(3) [unfolded t]
  have "Lo r \<in> seqs (r # rs)" "Lo q \<in> seqs (q # qs)" using inv by (simp_all add: seqset_inv_Cons)
  then have lo: "Lo r = Lo q"
    using seqs_Lo_least [OF inv(1)] seqs_Lo_least [OF inv(2)] eq by (metis order_antisym)
  have hi: "Hi r = Hi q"
    using seqs_Hi_le [OF inv eq lo] seqs_Hi_le [OF inv(2,1) eq [symmetric] lo [symmetric]] by simp
  have rq: "r = q" using lo hi by (rule seq_range.expand [OF conjI])
  have "{Lo r..Hi r} \<inter> seqs rs = {}" "{Lo r..Hi r} \<inter> seqs qs = {}"
    using seqs_beyond [OF inv(1)] seqs_beyond [OF inv(2)] hi by (fastforce simp: word_le_nat_alt)+
  moreover have "{Lo r..Hi r} \<union> seqs rs = {Lo r..Hi r} \<union> seqs qs" using eq rq by simp
  ultimately have "seqs rs = seqs qs" by blast
  then have "rs = qs" using Cons.IH [of qs] inv by (simp add: seqset_inv_Cons)
  with rq t show ?case by simp
qed

section \<open>The interface\<close>

text \<open>
  What the applied frontier needs of a store of sequence numbers. \<open>advance\<close> is the frontier step:
  add the number, then absorb the run that now touches the head.
\<close>

definition advance :: "('s \<Rightarrow> seq \<Rightarrow> 's) \<Rightarrow> ('s \<Rightarrow> seq \<Rightarrow> seq \<times> 's) \<Rightarrow> seq \<times> 's \<Rightarrow> seq \<Rightarrow> seq \<times> 's" where
  "advance add promote = (\<lambda>(head, gaps) v.
     case promote (add gaps v) head of
       (newHead, gaps) \<Rightarrow> (if newHead > head then newHead else head, gaps))"

text \<open>
  A frontier is normal when the store lies above the head and does not continue it. It stands for
  the numbers up to the head and the members of the store. A delivery skips what is there.
\<close>

definition frontier_normal :: "('s \<Rightarrow> bool) \<Rightarrow> ('s \<Rightarrow> seq set) \<Rightarrow> seq \<times> 's \<Rightarrow> bool" where
  "frontier_normal ok members = (\<lambda>(h, s). ok s \<and> (\<forall>v \<in> members s. h < v) \<and> h + 1 \<notin> members s)"

definition frontier_applied :: "('s \<Rightarrow> seq set) \<Rightarrow> seq \<times> 's \<Rightarrow> seq set" where
  "frontier_applied members = (\<lambda>(h, s). {1..h} \<union> members s)"

definition frontier_deliver ::
    "('s \<Rightarrow> seq \<Rightarrow> bool) \<Rightarrow> (seq \<times> 's \<Rightarrow> seq \<Rightarrow> seq \<times> 's) \<Rightarrow> seq \<Rightarrow> seq \<times> 's \<Rightarrow> seq \<times> 's" where
  "frontier_deliver contains step v f = (if v \<le> fst f \<or> contains (snd f) v then f else step f v)"

locale seq_store =
  fixes contains :: "'s \<Rightarrow> seq \<Rightarrow> bool"
    and add :: "'s \<Rightarrow> seq \<Rightarrow> 's"
    and promote :: "'s \<Rightarrow> seq \<Rightarrow> seq \<times> 's"
    and inv :: "'s \<Rightarrow> bool"
    and members :: "'s \<Rightarrow> seq set"
  assumes contains_iff: "inv s \<Longrightarrow> contains s v \<longleftrightarrow> v \<in> members s"
    and add_inv: "inv s \<Longrightarrow> inv (add s v)"
    and add_members: "inv s \<Longrightarrow> members (add s v) = insert v (members s)"
    and promote_inv: "inv s \<Longrightarrow> inv (snd (promote s h))"
    and promote_members: "inv s \<Longrightarrow> \<forall>v \<in> members s. h < v \<Longrightarrow> promote s h = (h', s') \<Longrightarrow>
      h \<le> h' \<and> {1..h'} \<union> members s' = {1..h} \<union> members s \<and> (\<forall>v \<in> members s'. h' < v) \<and>
      h' + 1 \<notin> members s'"
    and members_inj: "inv s \<Longrightarrow> inv t \<Longrightarrow> members s = members t \<Longrightarrow> s = t"
begin

lemma advance_correct:
  assumes "frontier_normal inv members f" and "fst f < v"
  shows "frontier_normal inv members (advance add promote f v) \<and>
    frontier_applied members (advance add promote f v) = insert v (frontier_applied members f) \<and>
    fst f \<le> fst (advance add promote f v)"
proof -
  obtain h s where f: "f = (h, s)" by (cases f)
  obtain h' s' where p: "promote (add s v) h = (h', s')" by (cases "promote (add s v) h")
  have s: "inv s" "\<forall>v \<in> members s. h < v" using assms f by (auto simp: frontier_normal_def)
  note law = promote_members [OF add_inv [OF s(1)] _ p]
  have "h \<le> h' \<and> {1..h'} \<union> members s' = {1..h} \<union> insert v (members s) \<and> (\<forall>v \<in> members s'. h' < v) \<and>
      h' + 1 \<notin> members s'"
    using law s assms f by (simp add: add_members)
  moreover have "inv s'" using promote_inv [OF add_inv [OF s(1)], of v h] p by simp
  ultimately show ?thesis
    using f p by (auto simp: advance_def frontier_normal_def frontier_applied_def not_less)
qed

lemma applied_iff: "frontier_normal inv members (h, s) \<Longrightarrow> 0 < v \<Longrightarrow>
    v \<in> frontier_applied members (h, s) \<longleftrightarrow> v \<le> h \<or> contains s v"
  by (auto simp: frontier_normal_def frontier_applied_def contains_iff
      word_less_nat_alt word_le_nat_alt Suc_le_eq)

lemma head_le:
  assumes "frontier_normal inv members (h, s)" "frontier_normal inv members (h', s')"
    and "frontier_applied members (h, s) = frontier_applied members (h', s')"
  shows "h' \<le> h"
proof (rule ccontr)
  assume "\<not> h' \<le> h"
  then have lt: "h < h'" by simp
  then have u: "unat (h + 1) = Suc (unat h)" by (rule unat_succ)
  then have "h + 1 \<in> frontier_applied members (h', s')"
    using lt by (simp add: frontier_applied_def word_le_nat_alt word_less_nat_alt)
  then have "h + 1 \<in> {1..h} \<union> members s" using assms(3) by (simp add: frontier_applied_def)
  then show False using assms(1) u by (auto simp: frontier_normal_def word_le_nat_alt)
qed

lemma frontier_unique:
  assumes "frontier_normal inv members f" "frontier_normal inv members g"
    and "frontier_applied members f = frontier_applied members g"
  shows "f = g"
proof -
  obtain h s h' s' where f: "f = (h, s)" and g: "g = (h', s')" by (cases f, cases g)
  have h: "h = h'" using head_le assms f g by (metis order_antisym)
  have "{1..h} \<inter> members s = {}" "{1..h} \<inter> members s' = {}"
    using assms(1,2) f g h by (fastforce simp: frontier_normal_def simp flip: not_le)+
  then have "members s = members s'"
    using assms(3) f g h by (auto simp: frontier_applied_def)
  then show ?thesis using assms(1,2) f g h members_inj by (auto simp: frontier_normal_def)
qed

lemma deliver_correct:
  assumes "frontier_normal inv members f" and "0 < v"
  shows "frontier_normal inv members (frontier_deliver contains (advance add promote) v f) \<and>
    frontier_applied members (frontier_deliver contains (advance add promote) v f) =
      insert v (frontier_applied members f)"
  using assms advance_correct [of f v] applied_iff [of "fst f" "snd f" v]
  by (auto simp: frontier_deliver_def insert_absorb)

end

sublocale seq_store < frontier: replicated "frontier_deliver contains (advance add promote)"
    "frontier_normal inv members" "\<lambda>v. 0 < v" "\<lambda>_ _. True"
  by unfold_locales (auto simp: deliver_correct intro!: frontier_unique)

interpretation seqset: seq_store SeqSet_Contains SeqSet_Add PromoteContiguous seqset_inv seqs
  by unfold_locales
    (use PromoteContiguous_correct in \<open>auto simp: seqset_Contains SeqSet_Add_correct
      PromoteContiguous_inv all_above_def intro: seqs_inj\<close>)

section \<open>Properties\<close>

text \<open>
  \<open>SeqSet.Add\<close> inserts exactly one number. On a list of ranges that is sorted, disjoint and free
  of adjacent ranges it returns such a list again, covering the old numbers and \<open>v\<close>; and
  \<open>Contains\<close> afterwards answers yes for \<open>v\<close> and for what it answered yes for before.
\<close>

theorem seqset_add_membership:
  assumes "seqset_inv s"
  shows "seqset_inv (SeqSet_Add s v) \<and> seqs (SeqSet_Add s v) = insert v (seqs s) \<and>
    (\<forall>w. SeqSet_Contains (SeqSet_Add s v) w \<longleftrightarrow> w = v \<or> SeqSet_Contains s w)"
  using SeqSet_Add_correct [OF assms, of v] assms by (simp add: seqset_Contains)

theorem seqset_add_membership_witness:
  "let s = [SeqRange 2 4, SeqRange 6 9] in seqset_inv s \<and> seqs (SeqSet_Add s 5) = insert 5 (seqs s)"
proof -
  have "seqset_inv [SeqRange 2 4, SeqRange 6 9]" by (simp add: seqset_inv_def range_gap_def)
  with seqset_add_membership [OF this, of 5] show ?thesis by simp
qed

text \<open>
  C16: \<open>SeqSet.PromoteContiguous\<close> moves the head to the end of the run that follows it and no
  further: nothing is lost or invented, what stays in the set lies above the new head, and the
  number after the new head is missing.
\<close>

theorem promote_contiguous_exact:
  assumes "seqset_inv s" and "all_above h s" and "PromoteContiguous s h = (h', s')"
  shows "seqset_inv s' \<and> h \<le> h' \<and> {1..h'} \<union> seqs s' = {1..h} \<union> seqs s \<and> all_above h' s' \<and>
    \<not> SeqSet_Contains s' (h' + 1)"
  using PromoteContiguous_correct [OF assms] PromoteContiguous_inv [OF assms(1), of h] assms(3)
  by (simp add: seqset_Contains)

theorem promote_contiguous_exact_witness:
  "seqset_inv [SeqRange 6 9, SeqRange 12 12] \<and> all_above 5 [SeqRange 6 9, SeqRange 12 12] \<and>
   PromoteContiguous [SeqRange 6 9, SeqRange 12 12] 5 = (9, [SeqRange 12 12]) \<and>
   \<not> SeqSet_Contains [SeqRange 12 12] 10"
proof -
  let ?s = "[SeqRange 6 9, SeqRange 12 12]"
  have h: "seqset_inv ?s" "all_above 5 ?s" "PromoteContiguous ?s 5 = (9, [SeqRange 12 12])"
    by (auto simp: seqset_inv_def range_gap_def all_above_def PromoteContiguous_def
        word_less_nat_alt word_le_nat_alt)
  with promote_contiguous_exact [OF h] show ?thesis by simp
qed

end
