(* ===== verification/Node_State.thy ===== *)
theory Node_State
  imports Causal Row_State
begin

text \<open>
  \<open>internal/nodestate/cache.go\<close>: the in-memory state the producer and the broker share, with one
  definition per method. The mutex makes every method atomic, so each is a function on the state.
  Go maps are partial functions, Go sets are sets, and indexing a missing key gives the zero
  value (\<open>row_at\<close>, \<open>front_at\<close>, \<open>seq_at\<close>). The maps inside a \<open>RowState\<close> are values here: a caller's
  earlier copy of a row does not see later cell updates.
\<close>

type_synonym row_key = "table_id \<times> pk_blob"
type_synonym offset = u64

record frontier_entry =
  LastSeq :: seq
  LastHLC :: clock

record cache =
  self :: origin
  senderNextSeq :: "origin \<rightharpoonup> seq"
  hlcLast :: clock
  dirtySenderSeqs :: "origin set"
  rowClock :: "row_key \<rightharpoonup> row_state"
  frontier :: "origin \<rightharpoonup> frontier_entry"
  appliedGaps :: "origin \<rightharpoonup> seqset"
  snapshotMarkers :: "origin \<rightharpoonup> offset"
  dirtyRows :: "row_key set"
  dirtyFrontiers :: "origin set"
  dirtyCells :: "row_key \<rightharpoonup> column_id set"
  dirtyClearedRows :: "row_key \<rightharpoonup> u64"
  forgottenOrigins :: "origin set"
  persistedFrontier :: "origin \<rightharpoonup> seq"
  prevPersistedFrontier :: "origin \<rightharpoonup> seq"
  metaDirty :: bool

definition NewCache :: "origin \<Rightarrow> cache" where
  "NewCache s = \<lparr>self = s, senderNextSeq = Map.empty, hlcLast = Clock 0 0, dirtySenderSeqs = {},
     rowClock = Map.empty, frontier = Map.empty, appliedGaps = Map.empty, snapshotMarkers = Map.empty,
     dirtyRows = {}, dirtyFrontiers = {}, dirtyCells = Map.empty, dirtyClearedRows = Map.empty,
     forgottenOrigins = {}, persistedFrontier = Map.empty, prevPersistedFrontier = Map.empty, metaDirty = False\<rparr>"

definition zero_front :: frontier_entry where
  "zero_front = \<lparr>LastSeq = 0, LastHLC = Clock 0 0\<rparr>"

definition seq_at :: "('k \<rightharpoonup> u64) \<Rightarrow> 'k \<Rightarrow> u64" where
  "seq_at m k = (case m k of Some s \<Rightarrow> s | None \<Rightarrow> 0)"

definition front_at :: "cache \<Rightarrow> origin \<Rightarrow> frontier_entry" where
  "front_at c orig = (case frontier c orig of Some f \<Rightarrow> f | None \<Rightarrow> zero_front)"

definition gaps_at :: "cache \<Rightarrow> origin \<Rightarrow> seqset" where
  "gaps_at c orig = (case appliedGaps c orig of Some g \<Rightarrow> g | None \<Rightarrow> [])"

definition RowState :: "cache \<Rightarrow> table_id \<Rightarrow> pk_blob \<Rightarrow> row_state" where
  "RowState c table pk = (case rowClock c (table, pk) of Some st \<Rightarrow> st | None \<Rightarrow> zero_row)"

section \<open>Clocks and sequence numbers\<close>

definition PersistedFrontierBound :: "cache \<Rightarrow> origin \<Rightarrow> seq" where
  "PersistedFrontierBound c orig = seq_at (prevPersistedFrontier c) orig"

definition MarkerPruneBound :: "seq \<Rightarrow> seq \<Rightarrow> seq" where
  "MarkerPruneBound persisted seq = (if persisted \<ge> seq then seq - 1 else persisted)"

text \<open>\<open>Logical\<close> is an \<open>int32\<close>: its increment wraps.\<close>

definition int32_succ :: "int \<Rightarrow> int" where
  "int32_succ l = (if l = 2 ^ 31 - 1 then - (2 ^ 31) else l + 1)"

definition StampHLC :: "cache \<Rightarrow> int \<Rightarrow> cache \<times> clock" where
  "StampHLC c wall =
     (let clk = Clock wall 0;
          clk = (if \<not> Clock_Less (hlcLast c) clk
                 then Clock (WallTime (hlcLast c)) (int32_succ (Logical (hlcLast c))) else clk)
      in (c\<lparr>hlcLast := clk, metaDirty := True\<rparr>, clk))"

definition ObserveHLC :: "cache \<Rightarrow> clock \<Rightarrow> cache" where
  "ObserveHLC c clk = (if Clock_Less (hlcLast c) clk then c\<lparr>hlcLast := clk, metaDirty := True\<rparr> else c)"

definition AllocSelfSeq :: "cache \<Rightarrow> origin \<Rightarrow> cache \<times> seq" where
  "AllocSelfSeq c orig =
     (let seq = seq_at (senderNextSeq c) orig;
          seq = (if seq = 0 then 1 else seq)
      in (c\<lparr>senderNextSeq := (senderNextSeq c)(orig \<mapsto> seq + 1),
           dirtySenderSeqs := insert orig (dirtySenderSeqs c), metaDirty := True\<rparr>, seq))"

definition ObserveSelfSeq :: "cache \<Rightarrow> origin \<Rightarrow> seq \<Rightarrow> cache" where
  "ObserveSelfSeq c orig seq =
     (let next = seq + 1 in
      if next > seq_at (senderNextSeq c) orig
      then c\<lparr>senderNextSeq := (senderNextSeq c)(orig \<mapsto> next),
             dirtySenderSeqs := insert orig (dirtySenderSeqs c), metaDirty := True\<rparr>
      else c)"

definition SenderNextSeq :: "cache \<Rightarrow> origin \<Rightarrow> seq" where
  "SenderNextSeq c orig = (let seq = seq_at (senderNextSeq c) orig in if seq = 0 then 1 else seq)"

section \<open>Row and cell clocks\<close>

definition cells_len :: "row_state \<Rightarrow> nat" where
  "cells_len st = (case Cells st of None \<Rightarrow> 0 | Some cs \<Rightarrow> Mapping.size cs)"

definition PutRowState :: "cache \<Rightarrow> table_id \<Rightarrow> pk_blob \<Rightarrow> row_state \<Rightarrow> cache \<times> bool" where
  "PutRowState c table pk st =
     (let k = (table, pk); prev = RowState c table pk in
      if CL prev > CL st \<or> (CL prev = CL st \<and> \<not> DominatedBy prev (CL st) (Base st)) then (c, False)
      else
        let (st, c) =
          (if CL st > CL prev
           then (st\<lparr>Cells := None, Ranges := Map.empty\<rparr>,
                 let c = (if CL prev \<noteq> 0 \<or> cells_len prev > 0 \<or> seq_at (dirtyClearedRows c) k \<noteq> 0
                          then c\<lparr>dirtyClearedRows := (dirtyClearedRows c)(k \<mapsto> seq_at (dirtyClearedRows c) k + 1)\<rparr>
                          else c)
                 in c\<lparr>dirtyCells := (dirtyCells c)(k := None)\<rparr>)
           else if Cells st = None then (st\<lparr>Cells := Cells prev\<rparr>, c)
           else (st, c))
        in (c\<lparr>rowClock := (rowClock c)(k \<mapsto> st), dirtyRows := insert k (dirtyRows c)\<rparr>, True))"

definition markCellDirty :: "cache \<Rightarrow> row_key \<Rightarrow> column_id \<Rightarrow> cache" where
  "markCellDirty c k col =
     (let cells = (case dirtyCells c k of Some s \<Rightarrow> s | None \<Rightarrow> {})
      in c\<lparr>dirtyCells := (dirtyCells c)(k \<mapsto> insert col cells)\<rparr>)"

definition PutCellStamp :: "cache \<Rightarrow> table_id \<Rightarrow> pk_blob \<Rightarrow> column_id \<Rightarrow> stamp \<Rightarrow> cache" where
  "PutCellStamp c table pk col stmp =
     (let k = (table, pk); st = RowState c table pk in
      if \<not> Dominates stmp (EffectiveStamp st col (ByteRange 0 0)) then c
      else
        let cells = (case Cells st of None \<Rightarrow> Mapping.empty | Some cs \<Rightarrow> cs);
            st = st\<lparr>Cells := Some (Mapping.update col stmp cells)\<rparr>;
            c = c\<lparr>rowClock := (rowClock c)(k \<mapsto> st)\<rparr>
        in markCellDirty c k col)"

text \<open>\<open>PutCellStamps\<close> ranges over a Go map: any order of its distinct keys.\<close>

definition PutCellStamps :: "cache \<Rightarrow> table_id \<Rightarrow> pk_blob \<Rightarrow> (column_id \<times> stamp) list \<Rightarrow> cache" where
  "PutCellStamps c table pk stamps = fold (\<lambda>(col, s) c. PutCellStamp c table pk col s) stamps c"

definition DeleteCellStamp :: "cache \<Rightarrow> table_id \<Rightarrow> pk_blob \<Rightarrow> column_id \<Rightarrow> cache" where
  "DeleteCellStamp c table pk col =
     (let k = (table, pk); st = RowState c table pk;
          c = (case Cells st of
                 None \<Rightarrow> c
               | Some cs \<Rightarrow>
                   let cs = Mapping.delete col cs;
                       st = st\<lparr>Cells := if Mapping.size cs = 0 then None else Some cs\<rparr>
                   in c\<lparr>rowClock := (rowClock c)(k \<mapsto> st)\<rparr>)
      in markCellDirty c k col)"

definition ClearCellsForRow :: "cache \<Rightarrow> table_id \<Rightarrow> pk_blob \<Rightarrow> cache" where
  "ClearCellsForRow c table pk =
     (let k = (table, pk) in
      c\<lparr>rowClock := (rowClock c)(k \<mapsto> (RowState c table pk)\<lparr>Cells := None\<rparr>),
        dirtyClearedRows := (dirtyClearedRows c)(k \<mapsto> seq_at (dirtyClearedRows c) k + 1),
        dirtyCells := (dirtyCells c)(k := None)\<rparr>)"

definition CellStamp :: "cache \<Rightarrow> table_id \<Rightarrow> pk_blob \<Rightarrow> column_id \<Rightarrow> stamp option" where
  "CellStamp c table pk col =
     (case Cells (RowState c table pk) of None \<Rightarrow> None | Some cs \<Rightarrow> Mapping.lookup cs col)"

section \<open>The applied frontier\<close>

definition IsAppliedRemote :: "cache \<Rightarrow> origin \<Rightarrow> seq \<Rightarrow> bool" where
  "IsAppliedRemote c orig seq =
     (if orig = self c then False
      else (case frontier c orig of Some f \<Rightarrow> seq \<le> LastSeq f | None \<Rightarrow> False) \<or>
           (case appliedGaps c orig of Some gaps \<Rightarrow> SeqSet_Contains gaps seq | None \<Rightarrow> False))"

definition markAppliedLocked :: "cache \<Rightarrow> origin \<Rightarrow> seq \<Rightarrow> clock \<Rightarrow> cache" where
  "markAppliedLocked c orig seq hlc =
     (let gaps = SeqSet_Add (gaps_at c orig) seq;
          front = front_at c orig;
          (newHead, gaps) = PromoteContiguous gaps (LastSeq front);
          front = (if newHead > LastSeq front then front\<lparr>LastSeq := newHead\<rparr> else front);
          front = (if Clock_Less (LastHLC front) hlc then front\<lparr>LastHLC := hlc\<rparr> else front)
      in c\<lparr>appliedGaps := (appliedGaps c)(orig \<mapsto> gaps),
           frontier := (frontier c)(orig \<mapsto> front),
           dirtyFrontiers := insert orig (dirtyFrontiers c),
           forgottenOrigins := forgottenOrigins c - {orig},
           metaDirty := True,
           hlcLast := (if Clock_Less (hlcLast c) hlc then hlc else hlcLast c)\<rparr>)"

definition MarkApplied :: "cache \<Rightarrow> origin \<Rightarrow> seq \<Rightarrow> clock \<Rightarrow> cache \<times> seq" where
  "MarkApplied c orig seq hlc = (markAppliedLocked c orig seq hlc, LastSeq (front_at c orig))"

definition EvictOrigin :: "cache \<Rightarrow> origin \<Rightarrow> cache \<times> bool" where
  "EvictOrigin c orig =
     (if orig = self c then (c, False)
      else if frontier c orig = None \<and> appliedGaps c orig = None \<and> snapshotMarkers c orig = None then (c, False)
      else (c\<lparr>frontier := (frontier c)(orig := None),
              appliedGaps := (appliedGaps c)(orig := None),
              snapshotMarkers := (snapshotMarkers c)(orig := None),
              dirtyFrontiers := dirtyFrontiers c - {orig},
              forgottenOrigins := insert orig (forgottenOrigins c),
              metaDirty := True\<rparr>, True))"

definition appliedTipLocked :: "cache \<Rightarrow> origin \<Rightarrow> seq" where
  "appliedTipLocked c orig =
     (let tip = LastSeq (front_at c orig) in
      case appliedGaps c orig of None \<Rightarrow> tip
      | Some ranges \<Rightarrow> if length ranges > 0 \<and> Hi (last ranges) > tip then Hi (last ranges) else tip)"

definition AppliedTipMap :: "cache \<Rightarrow> origin \<rightharpoonup> seq" where
  "AppliedTipMap c orig =
     (case senderNextSeq c orig of
        Some next \<Rightarrow> if next > 0 then Some (next - 1)
                     else if frontier c orig = None then None else Some (appliedTipLocked c orig)
      | None \<Rightarrow> if frontier c orig = None then None else Some (appliedTipLocked c orig))"

definition RetentionFrontierMap :: "cache \<Rightarrow> origin \<rightharpoonup> seq" where
  "RetentionFrontierMap c orig =
     (case frontier c orig of None \<Rightarrow> None
      | Some f \<Rightarrow> if senderNextSeq c orig \<noteq> None then None else Some (LastSeq f))"

fun missing_loop :: "seqset \<Rightarrow> seq \<Rightarrow> seq \<Rightarrow> seq_range list \<Rightarrow> seq \<times> seq_range list" where
  "missing_loop [] tip lo acc = (lo, acc)"
| "missing_loop (r # rs) tip lo acc =
     (if Lo r > tip then (lo, acc)
      else
        let acc = (if Lo r > lo then acc @ [SeqRange lo (Lo r - 1)] else acc);
            lo = (if Hi r \<ge> lo then Hi r + 1 else lo)
        in missing_loop rs tip lo acc)"

definition MissingRangesUpTo :: "cache \<Rightarrow> origin \<Rightarrow> seq \<Rightarrow> seq_range list" where
  "MissingRangesUpTo c orig tip =
     (let head = LastSeq (front_at c orig) in
      if tip \<le> head then []
      else
        let (lo, acc) = missing_loop (gaps_at c orig) tip (head + 1) []
        in if lo \<le> tip then acc @ [SeqRange lo tip] else acc)"

definition SetSnapshotMarker :: "cache \<Rightarrow> origin \<Rightarrow> offset \<Rightarrow> cache" where
  "SetSnapshotMarker c orig off = c\<lparr>snapshotMarkers := (snapshotMarkers c)(orig \<mapsto> off), metaDirty := True\<rparr>"

definition SnapshotMarker :: "cache \<Rightarrow> origin \<Rightarrow> offset" where
  "SnapshotMarker c orig = seq_at (snapshotMarkers c) orig"

section \<open>The frontier as a set\<close>

definition frontier_of :: "cache \<Rightarrow> origin \<Rightarrow> seq \<times> seqset" where
  "frontier_of c orig = (LastSeq (front_at c orig), gaps_at c orig)"

definition front_ok :: "cache \<Rightarrow> origin \<Rightarrow> bool" where
  "front_ok c orig = frontier_normal seqset_inv seqs (frontier_of c orig)"

definition applied :: "cache \<Rightarrow> origin \<Rightarrow> seq set" where
  "applied c orig = frontier_applied seqs (frontier_of c orig)"

abbreviation step_frontier :: "seq \<times> seqset \<Rightarrow> seq \<Rightarrow> seq \<times> seqset" where
  "step_frontier \<equiv> advance SeqSet_Add PromoteContiguous"

lemma markApplied_fields:
  "markAppliedLocked c orig seq hlc =
    c\<lparr>appliedGaps := (appliedGaps c)(orig \<mapsto> snd (step_frontier (frontier_of c orig) seq)),
      frontier := (frontier c)(orig \<mapsto> \<lparr>LastSeq = fst (step_frontier (frontier_of c orig) seq),
        LastHLC = max (LastHLC (front_at c orig)) hlc\<rparr>),
      dirtyFrontiers := insert orig (dirtyFrontiers c), forgottenOrigins := forgottenOrigins c - {orig},
      metaDirty := True, hlcLast := max (hlcLast c) hlc\<rparr>"
proof -
  obtain h g where p: "PromoteContiguous (SeqSet_Add (gaps_at c orig) seq) (LastSeq (front_at c orig)) = (h, g)"
    by (meson surj_pair)
  have m: "max a b = (if a < b then b else a)" for a b :: clock by (auto simp: max_def)
  obtain l t where f: "front_at c orig = \<lparr>LastSeq = l, LastHLC = t\<rparr>"
    by (cases "front_at c orig") auto
  show ?thesis
    using p by (simp add: markAppliedLocked_def Let_def f frontier_of_def advance_def m)
qed

lemma frontier_of_mark:
  "frontier_of (markAppliedLocked c orig seq hlc) o' =
    (if o' = orig then step_frontier (frontier_of c orig) seq else frontier_of c o')"
  by (simp add: markApplied_fields frontier_of_def front_at_def gaps_at_def)

lemma self_mark [simp]: "self (markAppliedLocked c orig seq hlc) = self c"
  by (simp add: markApplied_fields)

lemma IsAppliedRemote_iff:
  assumes "front_ok c orig" and "0 < seq" and "orig \<noteq> self c"
  shows "IsAppliedRemote c orig seq \<longleftrightarrow> seq \<in> applied c orig"
proof -
  have "frontier_normal seqset_inv seqs (LastSeq (front_at c orig), gaps_at c orig)"
    using assms(1) by (simp add: front_ok_def frontier_of_def)
  note iff = seqset.applied_iff [OF this assms(2)]
  have "\<not> seq \<le> 0" using assms(2) by simp
  moreover have "\<not> SeqSet_Contains [] seq" by (simp add: seqset_Contains)
  ultimately show ?thesis using iff assms(3)
    by (simp add: IsAppliedRemote_def applied_def frontier_of_def front_at_def gaps_at_def zero_front_def
        split: option.splits)
qed

lemma head_frontier: "LastSeq (front_at c orig) = fst (frontier_of c orig)"
  by (simp add: frontier_of_def)

lemma front_ok_head: "front_ok c orig \<Longrightarrow> seq \<notin> applied c orig \<Longrightarrow> 0 < seq \<Longrightarrow> fst (frontier_of c orig) < seq"
  by (auto simp: applied_def frontier_of_def frontier_applied_def word_less_nat_alt word_le_nat_alt Suc_le_eq)

lemma mark_correct:
  assumes "front_ok c orig" and "seq \<notin> applied c orig" and "0 < seq"
  shows "front_ok (markAppliedLocked c orig seq hlc) orig \<and>
    applied (markAppliedLocked c orig seq hlc) orig = insert seq (applied c orig) \<and>
    fst (frontier_of c orig) \<le> fst (frontier_of (markAppliedLocked c orig seq hlc) orig)"
proof -
  have f: "frontier_of (markAppliedLocked c orig seq hlc) orig = step_frontier (frontier_of c orig) seq"
    by (simp add: frontier_of_mark)
  from seqset.advance_correct [OF _ front_ok_head [OF assms]] assms(1) f show ?thesis
    by (simp add: front_ok_def applied_def)
qed

section \<open>Deliveries in any order\<close>

text \<open>The receiving path: skip what is applied, otherwise mark it.\<close>

definition deliver_dot :: "origin \<Rightarrow> seq \<times> clock \<Rightarrow> cache \<Rightarrow> cache" where
  "deliver_dot orig = (\<lambda>(seq, hlc) c.
     if IsAppliedRemote c orig seq then c else fst (MarkApplied c orig seq hlc))"

lemma deliver_step:
  assumes "front_ok c orig" "orig \<noteq> self c" "0 < s"
  shows "deliver_dot orig (s, h) c = (if s \<in> applied c orig then c else markAppliedLocked c orig s h)"
  using assms by (simp add: deliver_dot_def IsAppliedRemote_iff MarkApplied_def)

lemma mark_commute:
  assumes ok: "front_ok c orig" and "s \<notin> applied c orig" "t \<notin> applied c orig" "0 < s" "0 < t" "s \<noteq> t"
  shows "markAppliedLocked (markAppliedLocked c orig t h') orig s h =
    markAppliedLocked (markAppliedLocked c orig s h) orig t h'"
proof -
  let ?f = "frontier_of c orig"
  have n: "frontier_normal seqset_inv seqs ?f" using ok by (simp add: front_ok_def)
  have fresh: "fst ?f < s" "fst ?f < t" using front_ok_head [OF ok] assms by simp_all
  have "fst (step_frontier ?f t) < s \<and> fst (step_frontier ?f s) < t"
    using mark_correct [OF ok, of t h'] mark_correct [OF ok, of s h] assms
      front_ok_head [of "markAppliedLocked c orig t h'" orig s] front_ok_head [of "markAppliedLocked c orig s h" orig t]
    by (simp add: frontier_of_mark)
  then have "step_frontier (step_frontier ?f t) s = step_frontier (step_frontier ?f s) t"
    using seqset.advance_correct [OF n] fresh
    by (intro seqset.frontier_unique) (simp_all add: seqset.advance_correct insert_commute)
  then show ?thesis
    by (simp add: markApplied_fields [of "markAppliedLocked _ _ _ _"] frontier_of_mark)
      (simp add: markApplied_fields front_at_def max.left_commute max.commute)
qed

lemma deliver_keeps:
  assumes "front_ok c orig" "orig \<noteq> self c" "0 < fst a"
  shows "front_ok (deliver_dot orig a c) orig \<and> self (deliver_dot orig a c) = self c \<and>
    applied (deliver_dot orig a c) orig = insert (fst a) (applied c orig)"
  using assms deliver_step [OF assms, of "snd a"] mark_correct [OF assms(1) _ assms(3), of "snd a"]
  by (auto simp: insert_absorb)

lemma deliver_idem:
  assumes "front_ok c orig" "orig \<noteq> self c" "0 < fst a"
  shows "deliver_dot orig a (deliver_dot orig a c) = deliver_dot orig a c"
proof -
  let ?d = "deliver_dot orig a c"
  have "fst a \<in> applied ?d orig" "front_ok ?d orig" "orig \<noteq> self ?d"
    using deliver_keeps [OF assms] assms(2) by auto
  then show ?thesis using deliver_step [of ?d orig "fst a" "snd a"] assms(3) by simp
qed

lemma deliver_commute:
  assumes c: "front_ok c orig" "orig \<noteq> self c" and a: "0 < fst a" and b: "0 < fst b"
    and ab: "fst a = fst b \<longrightarrow> snd a = snd b"
  shows "deliver_dot orig a (deliver_dot orig b c) = deliver_dot orig b (deliver_dot orig a c)"
proof -
  note sa = deliver_step [OF c a, of "snd a"] and sb = deliver_step [OF c b, of "snd b"]
  note ka = deliver_keeps [OF c a] and kb = deliver_keeps [OF c b]
  have sba: "deliver_dot orig a (deliver_dot orig b c) =
      (if fst a \<in> insert (fst b) (applied c orig) then deliver_dot orig b c
       else markAppliedLocked (deliver_dot orig b c) orig (fst a) (snd a))"
    using deliver_step [of "deliver_dot orig b c" orig "fst a" "snd a"] kb c(2) a by simp
  have sab: "deliver_dot orig b (deliver_dot orig a c) =
      (if fst b \<in> insert (fst a) (applied c orig) then deliver_dot orig a c
       else markAppliedLocked (deliver_dot orig a c) orig (fst b) (snd b))"
    using deliver_step [of "deliver_dot orig a c" orig "fst b" "snd b"] ka c(2) b by simp
  show ?thesis
  proof (cases "fst a = fst b")
    case True
    then have "a = b" using ab by (simp add: prod_eq_iff)
    then show ?thesis by simp
  next
    case False
    then show ?thesis unfolding sba sab
      using sa sb mark_commute [OF c(1), of "fst a" "fst b" "snd b" "snd a"] a b by auto
  qed
qed

interpretation delivery: replicated "deliver_dot orig" "\<lambda>c. front_ok c orig \<and> orig \<noteq> self c"
    "\<lambda>d. 0 < fst d" "\<lambda>a b. fst a = fst b \<longrightarrow> snd a = snd b" for orig
  by unfold_locales (use deliver_keeps in \<open>auto simp: deliver_idem intro: deliver_commute\<close>)

section \<open>Missing ranges\<close>

lemma missing_loop_correct:
  assumes "seqset_inv rs" and "- 1 \<notin> seqs rs" and "\<forall>r \<in> set rs. lo \<le> Lo r"
    and "missing_loop rs tip lo acc = (lo', acc')"
  shows "seqs acc' \<union> {lo'..tip} = seqs acc \<union> ({lo..tip} - seqs rs)"
  using assms
proof (induction rs arbitrary: lo acc)
  case (Cons r rs)
  have r: "Lo r \<le> Hi r" "lo \<le> Lo r" "Hi r \<noteq> - 1" and inv: "seqset_inv rs" "- 1 \<notin> seqs rs"
    using Cons.prems by (auto simp: seqset_inv_Cons)
  have far: "Suc (unat (Hi r)) < unat x" if "x \<in> seqs rs" for x
    using seqs_beyond [OF Cons.prems(1) that] .
  have h1: "unat (Hi r + 1) = Suc (unat (Hi r))" using r(3) by (rule unat_succ_max)
  show ?case
  proof (cases "Lo r > tip")
    case True
    then have "{lo..tip} \<inter> seqs (r # rs) = {}"
      using far r by (fastforce simp: word_le_nat_alt word_less_nat_alt)
    then show ?thesis using Cons.prems(4) True by auto
  next
    case False
    let ?acc = "if Lo r > lo then acc @ [SeqRange lo (Lo r - 1)] else acc"
    have "lo \<le> Hi r" using r by simp
    then have rec: "missing_loop rs tip (Hi r + 1) ?acc = (lo', acc')"
      using Cons.prems(4) False by (simp add: Let_def)
    have "\<forall>x \<in> set rs. Hi r + 1 \<le> Lo x"
      using Cons.prems(1) h1 by (auto simp: seqset_inv_Cons range_gap_def word_le_nat_alt)
    note IH = Cons.IH [OF inv this rec]
    have gap: "seqs ?acc = seqs acc \<union> {x. lo \<le> x \<and> x < Lo r}"
    proof (cases "Lo r > lo")
      case True
      then have "unat (Lo r - 1) = unat (Lo r) - 1"
        by (simp add: unat_sub word_le_nat_alt word_less_nat_alt)
      then have "{lo..Lo r - 1} = {x. lo \<le> x \<and> x < Lo r}"
        using True by (auto simp: word_le_nat_alt word_less_nat_alt)
      then show ?thesis using True by simp
    qed auto
    have "{lo..tip} - seqs (r # rs) = {x. lo \<le> x \<and> x < Lo r} \<union> ({Hi r + 1..tip} - seqs rs)"
      using False r far h1 by (fastforce simp: word_le_nat_alt word_less_nat_alt)
    then show ?thesis using IH gap by auto
  qed
qed auto

section \<open>A stale mark\<close>

text \<open>A frontier is stuck when its store reaches down to the head or below.\<close>

definition stuck :: "seq \<times> seqset \<Rightarrow> bool" where
  "stuck = (\<lambda>(h, g). seqset_inv g \<and> h \<noteq> - 1 \<and> (\<exists>v \<in> seqs g. v \<le> h))"

lemma stuck_step: "stuck f \<Longrightarrow> stuck (step_frontier f v) \<and> fst (step_frontier f v) = fst f"
proof -
  assume st: "stuck f"
  obtain h g where f: "f = (h, g)" by (cases f)
  let ?g = "SeqSet_Add g v"
  have g: "seqset_inv ?g" "\<exists>v \<in> seqs ?g. v \<le> h" and h: "h \<noteq> - 1"
    using st f SeqSet_Add_correct [of g v] by (auto simp: stuck_def)
  then obtain r rs where r: "?g = r # rs" by (cases ?g) auto
  obtain w where w: "w \<in> seqs (r # rs)" "w \<le> h" using g(2) unfolding r by blast
  have "Lo r \<le> h" using order_trans [OF seqs_Lo_least [of r rs w] w(2)] w(1) g(1) r by simp
  then have "Lo r \<noteq> h + 1" using u64_less_succ [OF h] by auto
  then have "PromoteContiguous ?g h = (h, ?g)" using r by (simp add: PromoteContiguous_def)
  with f g h show ?thesis by (simp add: advance_def stuck_def)
qed

lemma stale_mark_stuck:
  assumes "front_ok c orig" and "seq \<le> fst (frontier_of c orig)" and "fst (frontier_of c orig) \<noteq> - 1"
  shows "stuck (step_frontier (frontier_of c orig) seq) \<and>
    fst (step_frontier (frontier_of c orig) seq) = fst (frontier_of c orig)"
proof -
  obtain h g where f: "frontier_of c orig = (h, g)" by (cases "frontier_of c orig")
  let ?g = "SeqSet_Add g seq"
  have g: "seqset_inv ?g" "seq \<in> seqs ?g" and h: "h \<noteq> - 1" "seq \<le> h"
    using assms f SeqSet_Add_correct [of g seq] by (auto simp: front_ok_def frontier_normal_def)
  then obtain r rs where r: "?g = r # rs" by (cases ?g) auto
  have "Lo r \<le> h" using order_trans [OF seqs_Lo_least [of r rs seq] h(2)] g r by simp
  then have "Lo r \<noteq> h + 1" using u64_less_succ [OF h(1)] by auto
  then have "PromoteContiguous ?g h = (h, ?g)" using r by (simp add: PromoteContiguous_def)
  with f g h show ?thesis by (auto simp: advance_def stuck_def)
qed

section \<open>Row states\<close>

text \<open>The effect of \<open>PutRowState\<close> on its own row.\<close>

definition row_put :: "row_state \<Rightarrow> row_state \<Rightarrow> row_state" where
  "row_put st prev =
     (if RowDominates (CL st, Base st) (CL prev, Base prev)
      then if CL st > CL prev then st\<lparr>Cells := None, Ranges := Map.empty\<rparr>
           else if Cells st = None then st\<lparr>Cells := Cells prev\<rparr> else st
      else prev)"

definition bump_cleared :: "cache \<Rightarrow> row_key \<Rightarrow> row_state \<Rightarrow> cache" where
  "bump_cleared c k prev =
     (if CL prev \<noteq> 0 \<or> cells_len prev > 0 \<or> seq_at (dirtyClearedRows c) k \<noteq> 0
      then c\<lparr>dirtyClearedRows := (dirtyClearedRows c)(k \<mapsto> seq_at (dirtyClearedRows c) k + 1)\<rparr> else c)"

lemma PutRowState_cases:
  fixes c table pk st
  defines "k \<equiv> (table, pk)" and "prev \<equiv> RowState c table pk"
  defines "r \<equiv> row_put st prev"
  shows "PutRowState c table pk st =
    (if RowDominates (CL st, Base st) (CL prev, Base prev)
     then let c = (if CL st > CL prev then (bump_cleared c k prev)\<lparr>dirtyCells := (dirtyCells c)(k := None)\<rparr> else c)
          in (c\<lparr>rowClock := (rowClock c)(k \<mapsto> r), dirtyRows := insert k (dirtyRows c)\<rparr>, True)
     else (c, False))"
proof (cases "RowDominates (CL st, Base st) (CL prev, Base prev)")
  case True
  then have d: "\<not> (CL prev > CL st \<or> (CL prev = CL st \<and> \<not> DominatedBy prev (CL st) (Base st)))"
    by (auto simp: RowDominates_def DominatedBy_iff)
  show ?thesis
  proof (cases "CL st > CL prev")
    case gt: True
    then have "r = st\<lparr>Cells := None, Ranges := Map.empty\<rparr>" using True by (simp add: r_def row_put_def)
    then show ?thesis
      unfolding PutRowState_def Let_def k_def [symmetric] prev_def [symmetric] bump_cleared_def
      by (simp only: if_not_P [OF d] if_P [OF gt] if_P [OF True]) simp
  next
    case False
    then have "r = (if Cells st = None then st\<lparr>Cells := Cells prev\<rparr> else st)" using True by (simp add: r_def row_put_def)
    then show ?thesis
      unfolding PutRowState_def Let_def k_def [symmetric] prev_def [symmetric]
      by (simp only: if_not_P [OF d] if_not_P [OF False] if_P [OF True]) simp
  qed
next
  case False
  then have refused: "CL prev > CL st \<or> (CL prev = CL st \<and> \<not> DominatedBy prev (CL st) (Base st))"
    by (auto simp: RowDominates_def DominatedBy_def not_less)
  show ?thesis
    unfolding PutRowState_def Let_def prev_def [symmetric]
    by (simp only: if_P [OF refused] if_not_P [OF False])
qed

lemma rowClock_bump [simp]: "rowClock (bump_cleared c k prev) = rowClock c" "dirtyRows (bump_cleared c k prev) = dirtyRows c"
  by (simp_all add: bump_cleared_def)

lemma PutRowState_row:
  "RowState (fst (PutRowState c table pk st)) t p =
    (if (t, p) = (table, pk) then row_put st (RowState c table pk) else RowState c t p)"
proof -
  let ?prev = "RowState c table pk"
  have upd: "rowClock (fst (PutRowState c table pk st)) =
    (if RowDominates (CL st, Base st) (CL ?prev, Base ?prev)
     then (rowClock c)((table, pk) \<mapsto> row_put st ?prev) else rowClock c)"
    unfolding PutRowState_cases Let_def by simp
  show ?thesis
  proof (cases "RowDominates (CL st, Base st) (CL ?prev, Base ?prev)")
    case True
    then show ?thesis using upd by (simp add: RowState_def [of "fst _"] RowState_def [of c t p])
  next
    case False
    then have "row_put st ?prev = ?prev" by (simp add: row_put_def)
    with False upd show ?thesis by (simp add: RowState_def)
  qed
qed

lemma PutRowState_landed:
  "snd (PutRowState c table pk st) \<longleftrightarrow>
    RowDominates (CL st, Base st) (CL (RowState c table pk), Base (RowState c table pk))"
  unfolding PutRowState_cases by simp

definition plain_row :: "row_state \<Rightarrow> bool" where
  "plain_row st \<longleftrightarrow> Cells st = None \<and> Ranges st = Map.empty"

lemma row_put_key:
  "(CL (row_put st prev), Base (row_put st prev)) = lww_put RowDominates id (CL st, Base st) (CL prev, Base prev)"
  by (simp add: row_put_def lww_put_def)

lemma row_put_plain:
  assumes "plain_row st"
  shows "row_put st prev = (if RowDominates (CL st, Base st) (CL prev, Base prev)
    then \<lparr>CL = CL st, Base = Base st, Cells = (if CL st > CL prev then None else Cells prev), Ranges = Map.empty\<rparr>
    else prev)"
  using assms by (cases st) (auto simp: row_put_def plain_row_def)

lemma row_put_absorbs:
  assumes "plain_row a" "plain_row b" and ab: "RowDominates (CL a, Base a) (CL b, Base b)"
  shows "row_put a (row_put b s) = row_put a s" and "row_put b (row_put a s) = row_put a s"
proof -
  let ?k = "\<lambda>r. (CL r, Base r)"
  have le: "CL b \<le> CL a" using ab by (auto simp: RowDominates_def)
  show "row_put a (row_put b s) = row_put a s"
  proof (cases "RowDominates (?k b) (?k s)")
    case True
    then have as: "RowDominates (?k a) (?k s)" using ab row_lww.trans by blast
    have "CL s \<le> CL b" using True by (auto simp: RowDominates_def)
    then show ?thesis using True as ab le
      by (auto simp: row_put_plain [OF assms(1)] row_put_plain [OF assms(2)])
  qed (simp add: row_put_def [of b])
  have "\<not> RowDominates (?k b) (?k a)" using ab by (rule row_lww.asym)
  moreover have "\<not> RowDominates (?k b) (?k s)" if "\<not> RowDominates (?k a) (?k s)"
    using that ab row_lww.trans by blast
  ultimately show "row_put b (row_put a s) = row_put a s"
    by (cases "RowDominates (?k a) (?k s)")
      (simp_all add: row_put_plain [OF assms(1)] row_put_plain [OF assms(2)])
qed

lemma row_put_commute:
  assumes "plain_row a" "plain_row b"
  shows "row_put a (row_put b s) = row_put b (row_put a s)"
proof (cases "(CL a, Base a) = (CL b, Base b)")
  case True
  then have "a = b" using assms by (cases a; cases b) (simp add: plain_row_def)
  then show ?thesis by simp
next
  case False
  then show ?thesis
    using row_lww.total [OF False] row_put_absorbs [of a b s] row_put_absorbs [of b a s] assms by metis
qed

interpretation row_layer: replicated row_put "\<lambda>_. True" plain_row "\<lambda>_ _. True"
proof
  show "row_put a (row_put a s) = row_put a s" if "plain_row a" for a s
    using that by (auto simp: row_put_plain RowDominates_def)
qed (auto intro: row_put_commute)

section \<open>Cell stamps\<close>

definition cell_put :: "column_id \<times> stamp \<Rightarrow> row_state \<Rightarrow> row_state" where
  "cell_put = (\<lambda>(col, s) st.
     if Dominates s (EffectiveStamp st col (ByteRange 0 0))
     then st\<lparr>Cells := Some (Mapping.update col s (case Cells st of None \<Rightarrow> Mapping.empty | Some cs \<Rightarrow> cs))\<rparr>
     else st)"

lemma cell_put_eq: "cell_put (col, s) st =
    (if EffectiveStamp st col (ByteRange 0 0) < s
     then st\<lparr>Cells := Some (Mapping.update col s (case Cells st of None \<Rightarrow> Mapping.empty | Some cs \<Rightarrow> cs))\<rparr>
     else st)"
  by (simp add: cell_put_def)

lemma RowState_upd [simp]:
  "rowClock c' = (rowClock c)((t, p) \<mapsto> st) \<Longrightarrow>
    RowState c' t' p' = (if (t', p') = (t, p) then st else RowState c t' p')"
  by (simp add: RowState_def)

lemma rowClock_markCellDirty [simp]: "rowClock (markCellDirty c k col) = rowClock c"
  by (simp add: markCellDirty_def Let_def)

lemma PutCellStamp_row:
  "RowState (PutCellStamp c table pk col s) t p =
    (if (t, p) = (table, pk) then cell_put (col, s) (RowState c table pk) else RowState c t p)"
proof (cases "Dominates s (EffectiveStamp (RowState c table pk) col (ByteRange 0 0))")
  case True
  then have "rowClock (PutCellStamp c table pk col s) =
    (rowClock c)((table, pk) \<mapsto> cell_put (col, s) (RowState c table pk))"
    by (simp add: PutCellStamp_def cell_put_def Let_def)
  then show ?thesis by simp
next
  case False
  then show ?thesis by (simp add: PutCellStamp_def cell_put_def Let_def)
qed

lemma cell_put_effective:
  "EffectiveStamp (cell_put (col, s) st) d (ByteRange 0 0) =
    (if d = col then max s (EffectiveStamp st col (ByteRange 0 0)) else EffectiveStamp st d (ByteRange 0 0))"
  by (auto simp: cell_put_def EffectiveStamp_cell lookup_update' lookup_empty max_def split: option.splits)

lemma cell_put_idem: "cell_put a (cell_put a st) = cell_put a st"
  by (cases a) (auto simp: cell_put_def EffectiveStamp_cell lookup_update' split: option.splits)

lemma cell_put_commute: "cell_put a (cell_put b st) = cell_put b (cell_put a st)"
proof -
  obtain c s d t where a: "a = (c, s)" and b: "b = (d, t)" by (cases a, cases b)
  note E = cell_put_effective
  show ?thesis
  proof (cases "c = d")
    case False
    then have "Mapping.update c s (Mapping.update d t m) = Mapping.update d t (Mapping.update c s m)" for m
      by (simp add: update_update)
    with False show ?thesis unfolding a b cell_put_eq [of _ _ "cell_put _ _"] E
      by (simp add: cell_put_eq split: option.splits)
  next
    case True
    have "Mapping.update d s (Mapping.update d t m) = Mapping.update d s m" for s t and m :: "(column_id, stamp) mapping"
      by (simp add: update_update)
    then show ?thesis using True unfolding a b cell_put_eq [of _ _ "cell_put _ _"] E
      by (cases "Cells st") (auto simp: cell_put_eq max_def)
  qed
qed

lemma cell_puts_effective:
  "EffectiveStamp (fold cell_put zs st) d (ByteRange 0 0) =
    Max (insert (EffectiveStamp st d (ByteRange 0 0)) {s. (d, s) \<in> set zs})"
proof (induction zs arbitrary: st)
  case (Cons z zs)
  obtain col s where z: "z = (col, s)" by (cases z)
  have fin: "finite {s. (d, s) \<in> set zs}"
    by (rule finite_subset [of _ "snd ` set zs"]) force+
  have "{s'. (d, s') \<in> set (z # zs)} = (if d = col then insert s {s. (d, s) \<in> set zs} else {s. (d, s) \<in> set zs})"
    by (auto simp: z)
  moreover have "Max (insert (max a b) A) = Max (insert b (insert a A))" if "finite A" for a b :: stamp and A
    using that by (cases "A = {}") (simp_all add: max.assoc max.left_commute max.commute)
  ultimately show ?case using Cons.IH [of "cell_put z st"] fin
    by (simp only: z fold_simps o_apply cell_put_effective split: if_split) simp
qed simp

interpretation cell_layer: replicated cell_put "\<lambda>_. True" "\<lambda>_. True" "\<lambda>_ _. True"
  by unfold_locales (simp_all add: cell_put_idem cell_put_commute)

section \<open>The cache as a state machine\<close>

text \<open>
  One rule per method that changes the state. A mark is issued only for a sequence number from
  another origin that the receiving path did not find applied; a stamp only while the \<open>int32\<close>
  counter has room.
\<close>

inductive cache_step :: "cache \<Rightarrow> cache \<Rightarrow> bool" where
  stamp: "Logical (hlcLast c) \<noteq> 2 ^ 31 - 1 \<Longrightarrow> cache_step c (fst (StampHLC c wall))"
| observe_hlc: "cache_step c (ObserveHLC c clk)"
| alloc: "cache_step c (fst (AllocSelfSeq c orig))"
| observe_seq: "cache_step c (ObserveSelfSeq c orig seq)"
| put_row: "cache_step c (fst (PutRowState c table pk st))"
| put_cell: "cache_step c (PutCellStamp c table pk col s)"
| delete_cell: "cache_step c (DeleteCellStamp c table pk col)"
| clear_cells: "cache_step c (ClearCellsForRow c table pk)"
| mark: "orig \<noteq> self c \<Longrightarrow> 0 < seq \<Longrightarrow> \<not> IsAppliedRemote c orig seq \<Longrightarrow> cache_step c (fst (MarkApplied c orig seq hlc))"
| evict: "cache_step c (fst (EvictOrigin c orig))"
| marker: "cache_step c (SetSnapshotMarker c orig off)"

inductive_cases cache_stepE: "cache_step c c'"

definition cache_inv :: "cache \<Rightarrow> bool" where
  "cache_inv c \<longleftrightarrow> (\<forall>orig. front_ok c orig) \<and> forgottenOrigins c \<inter> dom (frontier c) = {} \<and>
     Clock 0 0 \<le> hlcLast c \<and> (\<forall>orig f. frontier c orig = Some f \<longrightarrow> LastHLC f \<le> hlcLast c) \<and>
     {} \<notin> ran (dirtyCells c)"

lemma cache_inv_New: "cache_inv (NewCache s)"
  by (simp add: cache_inv_def NewCache_def front_ok_def frontier_of_def front_at_def gaps_at_def zero_front_def
      frontier_normal_def)

text \<open>What an operation must leave alone to keep the invariant.\<close>

lemma cache_inv_frame:
  assumes "cache_inv c" and "frontier c' = frontier c" "appliedGaps c' = appliedGaps c"
    and "forgottenOrigins c' = forgottenOrigins c" and "hlcLast c \<le> hlcLast c'"
    and "{} \<notin> ran (dirtyCells c')"
  shows "cache_inv c'"
proof -
  have "frontier_of c' = frontier_of c"
    using assms(2,3) by (simp add: fun_eq_iff frontier_of_def front_at_def gaps_at_def)
  moreover have "LastHLC f \<le> hlcLast c'" if "frontier c orig = Some f" for orig f
    using assms(1,5) that order_trans unfolding cache_inv_def by blast
  moreover have "Clock 0 0 \<le> hlcLast c'" using assms(1,5) order_trans unfolding cache_inv_def by blast
  ultimately show ?thesis using assms by (simp add: cache_inv_def front_ok_def)
qed

lemma StampHLC_less: "Logical (hlcLast c) \<noteq> 2 ^ 31 - 1 \<Longrightarrow> hlcLast c < snd (StampHLC c wall)"
  by (cases "hlcLast c") (auto simp: StampHLC_def Let_def int32_succ_def less_clock_code)

lemma StampHLC_hlc [simp]: "hlcLast (fst (StampHLC c wall)) = snd (StampHLC c wall)"
  by (simp add: StampHLC_def Let_def)

lemma cache_inv_mark:
  assumes "cache_inv c" "orig \<noteq> self c" "0 < seq" "\<not> IsAppliedRemote c orig seq"
  shows "cache_inv (markAppliedLocked c orig seq hlc)"
proof -
  let ?c = "markAppliedLocked c orig seq hlc"
  have ok: "front_ok c orig" using assms(1) by (simp add: cache_inv_def)
  then have "seq \<notin> applied c orig" using assms(2-4) by (simp add: IsAppliedRemote_iff)
  then have "front_ok ?c orig" using mark_correct [OF ok _ assms(3)] by blast
  moreover have "front_ok ?c o'" if "o' \<noteq> orig" for o'
    using assms(1) that by (simp add: cache_inv_def front_ok_def frontier_of_mark)
  ultimately have "\<forall>o'. front_ok ?c o'" by metis
  moreover have "LastHLC (front_at c orig) \<le> hlcLast c"
    using assms(1) by (auto simp: cache_inv_def front_at_def zero_front_def split: option.split)
  then have "LastHLC f \<le> hlcLast ?c" if "frontier ?c o' = Some f" for o' f
    using that assms(1) by (auto simp: cache_inv_def markApplied_fields le_max_iff_disj split: if_splits)
  moreover have "forgottenOrigins ?c \<inter> dom (frontier ?c) = {}" "Clock 0 0 \<le> hlcLast ?c" "dirtyCells ?c = dirtyCells c"
    using assms(1) by (auto simp: cache_inv_def markApplied_fields le_max_iff_disj)
  ultimately show ?thesis using assms(1) unfolding cache_inv_def by metis
qed

lemma cache_inv_evict: "cache_inv c \<Longrightarrow> cache_inv (fst (EvictOrigin c orig))"
proof -
  assume inv: "cache_inv c"
  let ?e = "c\<lparr>frontier := (frontier c)(orig := None), appliedGaps := (appliedGaps c)(orig := None),
    snapshotMarkers := (snapshotMarkers c)(orig := None), dirtyFrontiers := dirtyFrontiers c - {orig},
    forgottenOrigins := insert orig (forgottenOrigins c), metaDirty := True\<rparr>"
  have f: "frontier_of ?e o' = (if o' = orig then (0, []) else frontier_of c o')" for o'
    by (simp add: frontier_of_def front_at_def gaps_at_def zero_front_def)
  have "\<forall>o'. front_ok ?e o'"
    using inv unfolding front_ok_def f by (simp add: cache_inv_def front_ok_def frontier_normal_def)
  moreover have "forgottenOrigins ?e \<inter> dom (frontier ?e) = {}"
    using inv by (auto simp: cache_inv_def)
  moreover have "LastHLC g \<le> hlcLast ?e" if "frontier ?e o' = Some g" for o' g
    using inv that by (simp add: cache_inv_def split: if_splits)
  ultimately have "cache_inv ?e" using inv unfolding cache_inv_def by simp
  then show ?thesis using inv by (simp add: EvictOrigin_def)
qed

lemma markCellDirty_fields:
  "frontier (markCellDirty c k col) = frontier c" "appliedGaps (markCellDirty c k col) = appliedGaps c"
  "forgottenOrigins (markCellDirty c k col) = forgottenOrigins c" "hlcLast (markCellDirty c k col) = hlcLast c"
  "{} \<notin> ran (dirtyCells c) \<Longrightarrow> {} \<notin> ran (dirtyCells (markCellDirty c k col))"
  by (auto simp: markCellDirty_def Let_def ran_def split: if_splits)

lemma PutRowState_frame:
  "frontier (fst (PutRowState c table pk st)) = frontier c" "appliedGaps (fst (PutRowState c table pk st)) = appliedGaps c"
  "forgottenOrigins (fst (PutRowState c table pk st)) = forgottenOrigins c"
  "hlcLast (fst (PutRowState c table pk st)) = hlcLast c"
  "dirtyCells (fst (PutRowState c table pk st)) \<subseteq>\<^sub>m dirtyCells c"
  unfolding PutRowState_cases Let_def by (auto simp: bump_cleared_def map_le_def split: if_splits)

lemma ran_map_le: "m \<subseteq>\<^sub>m n \<Longrightarrow> ran m \<subseteq> ran n"
proof
  fix v assume le: "m \<subseteq>\<^sub>m n" and "v \<in> ran m"
  then obtain k where "m k = Some v" by (auto simp: ran_def)
  with le have "n k = Some v" by (metis domI map_le_def)
  then show "v \<in> ran n" by (rule ranI)
qed

lemma cell_ops_frame:
  defines "same \<equiv> \<lambda>c c'. frontier c' = frontier c \<and> appliedGaps c' = appliedGaps c \<and>
    forgottenOrigins c' = forgottenOrigins c \<and> hlcLast c' = hlcLast c \<and>
    ({} \<notin> ran (dirtyCells c) \<longrightarrow> {} \<notin> ran (dirtyCells c'))"
  shows "same c (PutCellStamp c table pk col s)" and "same c (DeleteCellStamp c table pk col)"
    and "same c (ClearCellsForRow c table pk)" and "same c (fst (PutRowState c table pk st))"
proof -
  show "same c (PutCellStamp c table pk col s)"
    by (simp add: same_def PutCellStamp_def Let_def markCellDirty_fields)
  show "same c (DeleteCellStamp c table pk col)"
    by (simp add: same_def DeleteCellStamp_def Let_def markCellDirty_fields split: option.split)
  show "same c (ClearCellsForRow c table pk)"
    by (auto simp: same_def ClearCellsForRow_def Let_def ran_def)
  show "same c (fst (PutRowState c table pk st))"
    using PutRowState_frame [of c table pk st]
    by (simp add: same_def) (blast dest: ran_map_le)
qed

lemma cache_inv_step: "cache_step c c' \<Longrightarrow> cache_inv c \<Longrightarrow> cache_inv c'"
proof (induction rule: cache_step.induct)
  case (stamp c wall)
  then have "hlcLast c \<le> hlcLast (fst (StampHLC c wall))" using StampHLC_less [of c wall] by simp
  then show ?case
    by - (rule cache_inv_frame [of c], use \<open>cache_inv c\<close> in \<open>simp_all add: cache_inv_def StampHLC_def Let_def\<close>)
next
  case (put_row c table pk st)
  show ?case by (rule cache_inv_frame [of c]) (use cell_ops_frame(4) [of c table pk st] \<open>cache_inv c\<close> in \<open>simp_all add: cache_inv_def\<close>)
next
  case (put_cell c table pk col s)
  show ?case by (rule cache_inv_frame [of c]) (use cell_ops_frame(1) [of c table pk col s] \<open>cache_inv c\<close> in \<open>simp_all add: cache_inv_def\<close>)
next
  case (delete_cell c table pk col)
  show ?case by (rule cache_inv_frame [of c]) (use cell_ops_frame(2) [of c table pk col] \<open>cache_inv c\<close> in \<open>simp_all add: cache_inv_def\<close>)
next
  case (clear_cells c table pk)
  show ?case by (rule cache_inv_frame [of c]) (use cell_ops_frame(3) [of c table pk] \<open>cache_inv c\<close> in \<open>simp_all add: cache_inv_def\<close>)
next
  case (mark orig c seq hlc)
  then show ?case by (simp add: MarkApplied_def cache_inv_mark)
next
  case (evict c orig)
  then show ?case by (rule cache_inv_evict)
next
  case (observe_hlc c clk)
  show ?case
    by (rule cache_inv_frame [of c]) (use \<open>cache_inv c\<close> in \<open>simp_all add: ObserveHLC_def cache_inv_def less_imp_le\<close>)
next
  case (observe_seq c orig seq)
  show ?case
    by (rule cache_inv_frame [of c]) (use \<open>cache_inv c\<close> in \<open>simp_all add: ObserveSelfSeq_def Let_def cache_inv_def\<close>)
next
  case (alloc c orig)
  show ?case
    by (rule cache_inv_frame [of c]) (use \<open>cache_inv c\<close> in \<open>simp_all add: AllocSelfSeq_def Let_def cache_inv_def\<close>)
next
  case (marker c orig off)
  show ?case
    by (rule cache_inv_frame [of c]) (use \<open>cache_inv c\<close> in \<open>simp_all add: SetSnapshotMarker_def cache_inv_def\<close>)
qed

lemma reachable_inv: "cache_step\<^sup>*\<^sup>* (NewCache s) c \<Longrightarrow> cache_inv c"
  by (induction rule: rtranclp_induct) (auto simp: cache_inv_New intro: cache_inv_step)

lemma missing_ranges_iff:
  assumes "front_ok c orig" and "orig \<noteq> self c" and "- 1 \<notin> seqs (gaps_at c orig)" and "0 < t"
  shows "t \<in> seqs (MissingRangesUpTo c orig tip) \<longleftrightarrow> t \<le> tip \<and> \<not> IsAppliedRemote c orig t"
proof (cases "tip \<le> LastSeq (front_at c orig)")
  case True
  moreover have "1 \<le> t" using assms(4) by (simp add: word_le_nat_alt word_less_nat_alt)
  ultimately show ?thesis using assms
    by (auto simp: MissingRangesUpTo_def Let_def IsAppliedRemote_iff applied_def frontier_applied_def head_frontier)
next
  case False
  obtain lo acc where loop: "missing_loop (gaps_at c orig) tip (LastSeq (front_at c orig) + 1) [] = (lo, acc)"
    by (cases "missing_loop (gaps_at c orig) tip (LastSeq (front_at c orig) + 1) []")
  have n: "frontier_normal seqset_inv seqs (LastSeq (front_at c orig), gaps_at c orig)"
    using assms(1) by (simp add: front_ok_def frontier_of_def)
  have head: "LastSeq (front_at c orig) \<noteq> - 1" using False by auto
  have lows: "\<forall>r \<in> set (gaps_at c orig). LastSeq (front_at c orig) + 1 \<le> Lo r"
  proof
    fix r assume r: "r \<in> set (gaps_at c orig)"
    then have "Lo r \<in> seqs (gaps_at c orig)"
      using n by (auto simp: frontier_normal_def seqset_inv_def seqs_def list_all_iff SeqRange_Empty_def not_less)
    then have "LastSeq (front_at c orig) < Lo r" using n by (simp add: frontier_normal_def)
    then show "LastSeq (front_at c orig) + 1 \<le> Lo r" using unat_succ_max [OF head] by (simp add: word_le_nat_alt word_less_nat_alt)
  qed
  have "seqs acc \<union> {lo..tip} = {LastSeq (front_at c orig) + 1..tip} - seqs (gaps_at c orig)"
    using missing_loop_correct [OF _ assms(3) lows loop] n by (simp add: frontier_normal_def)
  moreover have "LastSeq (front_at c orig) + 1 \<le> t \<longleftrightarrow> \<not> t \<le> LastSeq (front_at c orig)"
    using head unat_succ_max [OF head] by (auto simp: word_le_nat_alt)
  moreover have "1 \<le> t" using assms(4) by (simp add: word_le_nat_alt word_less_nat_alt)
  ultimately show ?thesis using False loop assms
    by (auto simp: MissingRangesUpTo_def Let_def IsAppliedRemote_iff applied_def frontier_applied_def frontier_of_def)
qed

section \<open>Clocks and sequence numbers only move forward\<close>

lemma hlc_mono_step: "cache_step c c' \<Longrightarrow> hlcLast c \<le> hlcLast c'"
proof (induction rule: cache_step.induct)
  case (stamp c wall)
  then show ?case using StampHLC_less [of c wall] by simp
next
  case (observe_hlc c clk)
  then show ?case by (simp add: ObserveHLC_def less_imp_le)
next
  case (mark orig c seq hlc)
  then show ?case by (simp add: MarkApplied_def markApplied_fields less_imp_le)
next
  case (put_row c table pk st)
  then show ?case using PutRowState_frame by simp
qed (simp_all add: AllocSelfSeq_def ObserveSelfSeq_def SetSnapshotMarker_def EvictOrigin_def cell_ops_frame Let_def)

lemma hlc_mono: "cache_step\<^sup>*\<^sup>* c c' \<Longrightarrow> hlcLast c \<le> hlcLast c'"
  by (induction rule: rtranclp_induct) (auto dest: hlc_mono_step)

text \<open>A step that does not allocate the last 64-bit sequence number.\<close>

definition roomy_step :: "origin \<Rightarrow> cache \<Rightarrow> cache \<Rightarrow> bool" where
  "roomy_step orig c c' \<longleftrightarrow> cache_step c c' \<and> seq_at (senderNextSeq c) orig \<noteq> - 1"

lemma senderNextSeq_frame [simp]:
  "senderNextSeq (fst (PutRowState c table pk st)) = senderNextSeq c"
  "senderNextSeq (PutCellStamp c table pk col s) = senderNextSeq c"
  "senderNextSeq (DeleteCellStamp c table pk col) = senderNextSeq c"
  "senderNextSeq (ClearCellsForRow c table pk) = senderNextSeq c"
  by (simp_all add: PutRowState_def PutCellStamp_def DeleteCellStamp_def ClearCellsForRow_def markCellDirty_def Let_def
      split: option.split)

lemma senderNextSeq_step:
  "cache_step c c' \<Longrightarrow> seq_at (senderNextSeq c) orig \<noteq> - 1 \<Longrightarrow>
    seq_at (senderNextSeq c) orig \<le> seq_at (senderNextSeq c') orig"
proof (induction rule: cache_step.induct)
  case (alloc c orig')
  then show ?case
    using u64_less_succ [of "seq_at (senderNextSeq c) orig"]
    by (auto simp: AllocSelfSeq_def Let_def seq_at_def split: option.splits)
next
  case (observe_seq c orig' seq)
  then show ?case by (auto simp: ObserveSelfSeq_def Let_def seq_at_def split: option.splits)
next
  case (mark orig' c seq hlc)
  then show ?case by (simp add: MarkApplied_def markApplied_fields)
qed (simp_all add: StampHLC_def ObserveHLC_def SetSnapshotMarker_def EvictOrigin_def Let_def)

lemma senderNextSeq_mono:
  "(roomy_step orig)\<^sup>*\<^sup>* c c' \<Longrightarrow> seq_at (senderNextSeq c) orig \<le> seq_at (senderNextSeq c') orig"
proof (induction rule: rtranclp_induct)
  case (step y z)
  then show ?case using senderNextSeq_step [of y z orig] by (auto simp: roomy_step_def)
qed simp

section \<open>Properties\<close>





text \<open>
  C14: the order of delivery does not matter. Two receivers that start equal and get the same set
  of dots of one origin (each sequence number with one clock), in any order and with any
  repetitions, end in the same state: same head, same gaps, same clocks, same dirty marks.
\<close>

theorem deliveries_converge:
  assumes "set xs = set ys" and "\<forall>d \<in> set xs. 0 < fst d"
    and "\<forall>a \<in> set xs. \<forall>b \<in> set xs. fst a = fst b \<longrightarrow> snd a = snd b"
    and "front_ok c orig" and "orig \<noteq> self c"
  shows "fold (deliver_dot orig) xs c = fold (deliver_dot orig) ys c"
  using delivery.converges [OF assms(1)] assms(2-5) by blast

theorem deliveries_converge_witness:
  "fold (deliver_dot 2) [(1, Clock 5 0), (2, Clock 6 0), (3, Clock 7 0)] (NewCache 1) =
   fold (deliver_dot 2) [(3, Clock 7 0), (1, Clock 5 0), (3, Clock 7 0), (2, Clock 6 0)] (NewCache 1)"
proof (rule deliveries_converge)
  show "front_ok (NewCache 1) 2" using cache_inv_New by (simp add: cache_inv_def)
qed (auto simp: NewCache_def)

text \<open>
  C20: a mark at or below the head wedges the origin for good. \<open>MarkApplied\<close> does not check that the
  number lies above the contiguous head; once a number at or below it is added to the gap set,
  no later sequence of marks for that origin ever moves the head again.
\<close>

theorem stale_mark_wedges_frontier:
  assumes "front_ok c orig" and "seq \<le> LastSeq (front_at c orig)" and "LastSeq (front_at c orig) \<noteq> - 1"
  shows "LastSeq (front_at (fold (\<lambda>(t, h) c. fst (MarkApplied c orig t h)) later (fst (MarkApplied c orig seq hlc))) orig)
    = LastSeq (front_at c orig)"
proof -
  have stay: "stuck (frontier_of c orig) \<Longrightarrow>
    fst (frontier_of (fold (\<lambda>(t, h) c. fst (MarkApplied c orig t h)) later c) orig) = fst (frontier_of c orig)" for c
  proof (induction later arbitrary: c)
    case (Cons d later)
    have "frontier_of (fst (MarkApplied c orig (fst d) (snd d))) orig = step_frontier (frontier_of c orig) (fst d)"
      by (simp add: MarkApplied_def frontier_of_mark)
    with Cons.IH [of "fst (MarkApplied c orig (fst d) (snd d))"] stuck_step [OF Cons.prems, of "fst d"]
    show ?case by (simp add: case_prod_unfold)
  qed simp
  have "frontier_of (fst (MarkApplied c orig seq hlc)) orig = step_frontier (frontier_of c orig) seq"
    by (simp add: MarkApplied_def frontier_of_mark)
  with stale_mark_stuck [of c orig seq] assms stay show ?thesis by (simp add: head_frontier)
qed

theorem stale_mark_wedges_frontier_witness:
  "let c = fst (MarkApplied (NewCache 1) 2 1 (Clock 4 0)) in
   LastSeq (front_at c 2) = 1 \<and>
   LastSeq (front_at (fold (\<lambda>(t, h) c. fst (MarkApplied c 2 t h)) [(2, Clock 5 0), (3, Clock 6 0)]
     (fst (MarkApplied c 2 1 (Clock 4 0)))) 2) = 1"
proof -
  let ?c = "fst (MarkApplied (NewCache 1) 2 1 (Clock 4 0))"
  have ok: "front_ok (NewCache 1) 2" using cache_inv_New by (simp add: cache_inv_def)
  have "1 \<notin> applied (NewCache 1) 2"
    by (simp add: applied_def frontier_applied_def frontier_of_def front_at_def gaps_at_def NewCache_def zero_front_def)
  then have ok1: "front_ok ?c 2" using mark_correct [OF ok, of 1 "Clock 4 0"] by (simp add: MarkApplied_def)
  have head: "LastSeq (front_at ?c 2) = 1"
    by (simp add: MarkApplied_def markAppliedLocked_def gaps_at_def front_at_def zero_front_def
        NewCache_def Let_def SeqSet_Add_def sort_Search_def PromoteContiguous_def search_loop.simps)
  from stale_mark_wedges_frontier [OF ok1, of 1 "[(2, Clock 5 0), (3, Clock 6 0)]" "Clock 4 0"] head
  show ?thesis by (simp add: Let_def)
qed

text \<open>
  C29: the ranges a node asks its peers for are exactly what it lacks. With nothing applied at the
  very last 64-bit number, the ranges \<open>MissingRangesUpTo\<close> returns cover precisely the numbers
  from the head to \<open>tip\<close> that \<open>IsAppliedRemote\<close> denies.
\<close>

theorem missing_ranges_exact:
  assumes "front_ok c orig" and "orig \<noteq> self c" and "- 1 \<notin> seqs (gaps_at c orig)" and "0 < t"
  shows "t \<in> seqs (MissingRangesUpTo c orig tip) \<longleftrightarrow> t \<le> tip \<and> \<not> IsAppliedRemote c orig t"
  using assms by (rule missing_ranges_iff)

theorem missing_ranges_exact_witness:
  "let c = fst (MarkApplied (NewCache 1) 2 3 (Clock 4 0)) in
    2 \<in> seqs (MissingRangesUpTo c 2 5) \<and> 3 \<notin> seqs (MissingRangesUpTo c 2 5)"
proof -
  let ?c = "fst (MarkApplied (NewCache 1) 2 3 (Clock 4 0))"
  have ok: "front_ok (NewCache 1) 2" using cache_inv_New by (simp add: cache_inv_def)
  have none: "3 \<notin> applied (NewCache 1) 2"
    by (simp add: applied_def frontier_applied_def frontier_of_def front_at_def gaps_at_def NewCache_def zero_front_def)
  have gaps: "gaps_at ?c 2 = [SeqRange 3 3]" "LastSeq (front_at ?c 2) = 0" "self ?c = 1"
    by (simp_all add: MarkApplied_def markAppliedLocked_def gaps_at_def front_at_def zero_front_def NewCache_def Let_def
        SeqSet_Add_def sort_Search_def PromoteContiguous_def search_loop.simps)
  have ok': "front_ok ?c 2" using mark_correct [OF ok none, of "Clock 4 0"] by (simp add: MarkApplied_def)
  have app: "\<not> IsAppliedRemote ?c 2 2" "IsAppliedRemote ?c 2 3"
    using ok' gaps by (simp_all add: IsAppliedRemote_iff applied_def frontier_applied_def frontier_of_def)
  have "t \<in> seqs (MissingRangesUpTo ?c 2 5) \<longleftrightarrow> t \<le> 5 \<and> \<not> IsAppliedRemote ?c 2 t" if "0 < t" for t
    by (rule missing_ranges_exact [OF ok' _ _ that]) (simp_all add: gaps)
  then show ?thesis using app by (simp add: Let_def)
qed



text \<open>
  Cell stamps are a last-writer-wins register per column. However the stamps for the columns of
  a row arrive, the row ends in the same state, and the effective stamp of each column is the
  largest of the stamps written to it and the one it had.
\<close>

theorem cell_stamps_converge:
  assumes "set xs = set ys"
  shows "RowState (fold (\<lambda>(col, s) c. PutCellStamp c table pk col s) xs c) table pk =
      RowState (fold (\<lambda>(col, s) c. PutCellStamp c table pk col s) ys c) table pk \<and>
    EffectiveStamp (RowState (fold (\<lambda>(col, s) c. PutCellStamp c table pk col s) xs c) table pk) d (ByteRange 0 0) =
      Max (insert (EffectiveStamp (RowState c table pk) d (ByteRange 0 0)) {s. (d, s) \<in> set xs})"
proof -
  have row: "RowState (fold (\<lambda>(col, s) c. PutCellStamp c table pk col s) zs c) table pk =
    fold cell_put zs (RowState c table pk)" for zs
    by (induction zs arbitrary: c) (auto simp: PutCellStamp_row)
  have "EffectiveStamp (fold cell_put zs st) d (ByteRange 0 0) =
    Max (insert (EffectiveStamp st d (ByteRange 0 0)) {s. (d, s) \<in> set zs})" for zs st
    by (rule cell_puts_effective)
  with row show ?thesis using cell_layer.converges [OF assms] assms by simp
qed

theorem cell_stamps_converge_witness:
  "RowState (fold (\<lambda>(col, s) c. PutCellStamp c 1 [1] col s)
      [(3, Stamp (Clock 5 0) 7), (3, Stamp (Clock 6 0) 8), (4, Stamp (Clock 1 0) 7)] (NewCache 1)) 1 [1] =
    RowState (fold (\<lambda>(col, s) c. PutCellStamp c 1 [1] col s)
      [(3, Stamp (Clock 6 0) 8), (4, Stamp (Clock 1 0) 7), (3, Stamp (Clock 5 0) 7)] (NewCache 1)) 1 [1]"
  by (rule conjunct1 [OF cell_stamps_converge]) auto

text \<open>
  C31: a node never issues the same clock or the same sequence number twice. Whatever the cache does
  in between, a later \<open>StampHLC\<close> returns a strictly larger clock, whatever the wall clock says,
  and a later \<open>AllocSelfSeq\<close> a strictly larger number, as long as the \<open>int32\<close> counter and the 64-bit
  numbers are not exhausted.
\<close>

theorem clocks_and_seqs_fresh:
  assumes "(roomy_step orig)\<^sup>*\<^sup>* (fst (StampHLC c wall)) c1" and "Logical (hlcLast c1) \<noteq> 2 ^ 31 - 1"
    and "(roomy_step orig)\<^sup>*\<^sup>* (fst (AllocSelfSeq c orig)) c2" and "seq_at (senderNextSeq c) orig \<noteq> - 1"
  shows "snd (StampHLC c wall) < snd (StampHLC c1 wall') \<and>
    snd (AllocSelfSeq c orig) < snd (AllocSelfSeq c2 orig)"
proof
  have "cache_step\<^sup>*\<^sup>* (fst (StampHLC c wall)) c1"
    using assms(1) by (rule rtranclp_mono [THEN predicate2D, rotated]) (auto simp: roomy_step_def)
  from hlc_mono [OF this] show "snd (StampHLC c wall) < snd (StampHLC c1 wall')"
    using StampHLC_less [OF assms(2), of wall'] by simp
  have a: "snd (AllocSelfSeq c orig) < seq_at (senderNextSeq (fst (AllocSelfSeq c orig))) orig"
    using assms(4) by (auto simp: AllocSelfSeq_def Let_def seq_at_def split: option.splits intro: u64_less_succ)
  also have "\<dots> \<le> seq_at (senderNextSeq c2) orig" using assms(3) by (rule senderNextSeq_mono)
  finally show "snd (AllocSelfSeq c orig) < snd (AllocSelfSeq c2 orig)"
    by (auto simp: AllocSelfSeq_def Let_def)
qed

theorem clocks_and_seqs_fresh_witness:
  "snd (StampHLC (NewCache 1) 9) < snd (StampHLC (fst (StampHLC (NewCache 1) 9)) 3) \<and>
    snd (AllocSelfSeq (NewCache 1) 1) < snd (AllocSelfSeq (fst (AllocSelfSeq (NewCache 1) 1)) 1)"
  by (rule clocks_and_seqs_fresh) (simp_all add: NewCache_def StampHLC_def Let_def seq_at_def int32_succ_def)

text \<open>
  C32: a wall clock that stands still or lags runs the logical counter past the wire. While the
  wall clock does not pass the last clock, every stamp takes the next logical value, so once
  the last logical value is 65,535 the next stamp is a clock that \<open>Pack\<close> panics on: nothing
  between the counter and the encoder keeps a node from issuing more than 65,536 commits at
  one wall time.
\<close>

theorem lagging_wall_clock_overflows_pack:
  assumes "wall \<le> WallTime (hlcLast c)" and "0 \<le> Logical (hlcLast c)"
    and "Logical (hlcLast c) + int k \<le> 2 ^ 31 - 1"
  shows "hlcLast (((\<lambda>c. fst (StampHLC c wall)) ^^ k) c) = Clock (WallTime (hlcLast c)) (Logical (hlcLast c) + int k) \<and>
    (65535 < Logical (hlcLast c) + int k \<longrightarrow> (\<exists>e. Pack (hlcLast (((\<lambda>c. fst (StampHLC c wall)) ^^ k) c)) = Inl e))"
proof -
  have "hlcLast (((\<lambda>c. fst (StampHLC c wall)) ^^ k) c) = Clock (WallTime (hlcLast c)) (Logical (hlcLast c) + int k)"
    using assms(3)
  proof (induction k)
    case (Suc k)
    then have "hlcLast (((\<lambda>c. fst (StampHLC c wall)) ^^ k) c) = Clock (WallTime (hlcLast c)) (Logical (hlcLast c) + int k)"
      by simp
    then show ?case using assms(1,2) Suc.prems
      by (simp add: StampHLC_def Let_def int32_succ_def less_clock_code)
  qed simp
  then show ?thesis by (simp add: Pack_def clockMaxLogical_def)
qed

theorem lagging_wall_clock_overflows_pack_witness:
  "\<exists>e. Pack (hlcLast (((\<lambda>c. fst (StampHLC c 7)) ^^ 65536) (fst (StampHLC (NewCache 1) 9)))) = Inl e"
proof -
  have "hlcLast (fst (StampHLC (NewCache 1) 9)) = Clock 9 0"
    by (simp add: NewCache_def StampHLC_def Let_def less_clock_code)
  then show ?thesis
    using conjunct2 [OF lagging_wall_clock_overflows_pack [of 7 "fst (StampHLC (NewCache 1) 9)" 65536]] by simp
qed

end
