(* ===== verification/Crc64.thy ===== *)
theory Crc64
  imports Bytes
begin

text \<open>
  CRC-64/ECMA as \<open>hash/crc64\<close> computes it with \<open>crc64.MakeTable(crc64.ECMA)\<close>: the reflected
  polynomial, the byte table, the update loop with its initial and final complement, and the
  running digest that \<open>New\<close>/\<open>Write\<close>/\<open>Sum64\<close> form. The step is linear and injective in both the
  running value and the byte, so a frame and a copy of it with one byte altered never share a
  checksum.
\<close>

definition ecma :: u64 where
  "ecma = 0xC96C5795D7870F42"

definition crc_shift :: "u64 \<Rightarrow> u64" where
  "crc_shift crc = (if bit crc 0 then drop_bit 1 crc XOR ecma else drop_bit 1 crc)"

definition crc_table :: "byte \<Rightarrow> u64" where
  "crc_table i = (crc_shift ^^ 8) (ucast i)"

definition crc_step :: "u64 \<Rightarrow> byte \<Rightarrow> u64" where
  "crc_step crc v = crc_table (ucast crc XOR v) XOR drop_bit 8 crc"

definition crc_update :: "u64 \<Rightarrow> bytes \<Rightarrow> u64" where
  "crc_update crc p = NOT (foldl crc_step (NOT crc) p)"

definition crc64_Sum64 :: "bytes list \<Rightarrow> u64" where
  "crc64_Sum64 writes = foldl crc_update 0 writes"

lemma crc_update_append: "crc_update (crc_update c p) q = crc_update c (p @ q)"
  by (simp add: crc_update_def)

lemma crc64_Sum64_concat: "crc64_Sum64 [p, q] = crc_update 0 (p @ q)"
  by (simp add: crc64_Sum64_def crc_update_append)

section \<open>Injectivity of one step\<close>

lemma xor_cancel [simp]: "a XOR k = b XOR k \<longleftrightarrow> a = (b :: 'a::len word)"
proof
  assume "a XOR k = b XOR k"
  then have "(a XOR k) XOR k = (b XOR k) XOR k" by simp
  then show "a = b" by (simp add: xor.assoc)
qed simp

lemma crc_shift_top: "bit (crc_shift x) 63 \<longleftrightarrow> bit x 0"
proof -
  have "bit ecma 63" by (simp add: ecma_def bit_iff_odd)
  moreover have "\<not> bit (drop_bit 1 x) 63" by (auto simp: bit_simps dest: bit_imp_le_length)
  ultimately show ?thesis by (simp add: crc_shift_def bit_xor_iff)
qed

lemma drop_bit_1_inj: "bit x 0 = bit y 0 \<Longrightarrow> drop_bit 1 x = drop_bit 1 y \<Longrightarrow> x = (y :: u64)"
proof (rule bit_word_eqI)
  fix n assume z: "bit x 0 = bit y 0" and d: "drop_bit 1 x = drop_bit 1 y"
  show "bit x n = bit y n"
  proof (cases n)
    case (Suc m)
    then show ?thesis using arg_cong [OF d, of "\<lambda>w. bit w m"] by (simp add: bit_simps)
  qed (use z in simp)
qed

lemma inj_crc_shift: "inj crc_shift"
proof (rule injI)
  fix x y assume eq: "crc_shift x = crc_shift y"
  then have z: "bit x 0 = bit y 0" by (metis crc_shift_top)
  moreover have "drop_bit 1 x = drop_bit 1 y"
    using eq z by (auto simp: crc_shift_def split: if_splits)
  ultimately show "x = y" by (rule drop_bit_1_inj)
qed

lemma unat_byte_lt: "unat (b :: byte) < 256"
  using unsigned_less [of b] by simp

lemma inj_crc_table: "crc_table i = crc_table j \<Longrightarrow> i = j"
proof -
  assume "crc_table i = crc_table j"
  then have "(ucast i :: u64) = ucast j"
    using inj_fn [OF inj_crc_shift, of 8] by (auto simp: crc_table_def dest: injD)
  then have "unat (ucast i :: u64) = unat (ucast j :: u64)" by simp
  then show "i = j" by (simp add: word_unat_eq_iff unsigned_ucast_eq take_bit_nat_eq_self
      order.strict_trans [OF unat_byte_lt])
qed

lemma crc_shift_xor: "crc_shift (a XOR b) = crc_shift a XOR crc_shift b"
  by (rule bit_word_eqI) (auto simp: crc_shift_def bit_simps)

lemma crc_shift_pow_xor: "(crc_shift ^^ n) (a XOR b) = (crc_shift ^^ n) a XOR (crc_shift ^^ n) b"
  by (induction n) (simp_all add: crc_shift_xor)

lemma crc_shift_pow_high: "take_bit n x = 0 \<Longrightarrow> (crc_shift ^^ n) x = drop_bit n x"
proof (induction n arbitrary: x)
  case (Suc n)
  have "\<not> bit x 0" using arg_cong [OF Suc.prems, of "\<lambda>w. bit w 0"] by (simp add: bit_take_bit_iff)
  then have s: "crc_shift x = drop_bit 1 x" by (simp add: crc_shift_def)
  have "take_bit n (drop_bit 1 x) = 0"
    using arg_cong [OF Suc.prems, of "drop_bit 1"] by (simp add: drop_bit_take_bit)
  from Suc.IH [OF this] show ?case by (simp add: s funpow_Suc_right del: funpow.simps)
qed simp

lemma crc_step_linear: "crc_step crc v = (crc_shift ^^ 8) (crc XOR ucast v)"
proof -
  let ?hi = "push_bit 8 (drop_bit 8 crc)"
  have split: "crc XOR ucast v = ucast (ucast crc XOR v :: byte) XOR ?hi"
    by (rule bit_word_eqI) (auto simp: bit_simps dest: bit_imp_le_length)
  have "(crc_shift ^^ 8) ?hi = drop_bit 8 ?hi"
    by (rule crc_shift_pow_high) (rule bit_word_eqI, simp add: bit_simps)
  moreover have "drop_bit 8 ?hi = drop_bit 8 crc"
    by (rule bit_word_eqI) (auto simp: bit_simps dest: bit_imp_le_length)
  ultimately show ?thesis
    by (simp only: split crc_shift_pow_xor) (simp only: crc_step_def crc_table_def)
qed

lemma crc_step_inj_crc: "crc_step a v = crc_step b v \<Longrightarrow> a = b"
  unfolding crc_step_linear by (drule injD [OF inj_fn [OF inj_crc_shift]]) simp

lemma crc_step_inj_byte: "crc_step c v = crc_step c w \<Longrightarrow> v = w"
  using inj_crc_table [of "ucast c XOR v" "ucast c XOR w"]
  by (auto simp: crc_step_def xor.commute [of "ucast c"])

lemma foldl_crc_step_inj: "foldl crc_step a p = foldl crc_step b p \<Longrightarrow> a = b"
  by (induction p arbitrary: a b) (auto dest: crc_step_inj_crc)

section \<open>One altered byte\<close>

lemma crc_update_one_byte:
  "crc_update c (p @ x # q) = crc_update c (p @ y # q) \<longleftrightarrow> x = y"
proof
  assume "crc_update c (p @ x # q) = crc_update c (p @ y # q)"
  then have "foldl crc_step (crc_step (foldl crc_step (NOT c) p) x) q
      = foldl crc_step (crc_step (foldl crc_step (NOT c) p) y) q"
    by (simp add: crc_update_def)
  then show "x = y" by (blast dest: foldl_crc_step_inj crc_step_inj_byte)
qed simp

end
