(* ===== verification/Codec.thy ===== *)
theory Codec
  imports Changeset Crc64
begin

text \<open>
  \<open>crdt/codec.go\<close>: the canonical wire and storage format of a changeset, byte for byte: the fixed
  header, the sorted dependency list, the checksum slot, the varint payload length and the record
  stream, for both wire versions on the reading side. The record stream, the columns and the
  blob ranges are instances of the \<open>codec\<close> interface. \<open>buf = appendX(buf, v)\<close> of the source is
  \<open>buf @ X v\<close>.
\<close>

section \<open>Columns\<close>

definition encodeColumn :: "col_value \<Rightarrow> bytes" where
  "encodeColumn c = put_id (Column c) @ put_u32 (TypeTag c) @ [Format c] @
     (if TypeTag c = ColNull then [] else AppendUvarint (u64_len (VBytes c)) @ VBytes c)"

definition encodeColumns :: "col_value list \<Rightarrow> bytes" where
  "encodeColumns cols = AppendUvarint (u64_len cols) @ concat (map encodeColumn cols)"

text \<open>
  \<open>make([]T, n)\<close> panics when \<open>n\<close> elements exceed the address space of the 64-bit runtime, \<open>2^48\<close> bytes.
  A \<open>ColValue\<close> takes 48 bytes, a \<open>BlobPatchRange\<close> 32.
\<close>

definition make_panics :: "nat \<Rightarrow> nat \<Rightarrow> bool" where
  "make_panics sz n \<longleftrightarrow> 2 ^ 48 < sz * n"

definition decodeColumn :: "bytes \<Rightarrow> (col_value \<times> bytes) result" where
  "decodeColumn buf =
     (if length buf < 16 + 4 + 1 then Inl ErrShortBuffer
      else
        let col = be_word (take 16 buf); buf = drop 16 buf;
            tag = be_word (take 4 buf); buf = drop 4 buf;
            format = hd buf; buf = tl buf
        in if tag = ColNull then Inr (ColValue col tag format [], buf)
           else bindE (readUvarint buf) (\<lambda>(byteLen, buf).
             if length buf < unat byteLen then Inl ErrShortBuffer
             else Inr (ColValue col tag format (take (unat byteLen) buf), drop (unat byteLen) buf)))"

definition decodeColumns :: "bytes \<Rightarrow> (col_value list \<times> bytes) result" where
  "decodeColumns buf = bindE (readUvarint buf) (\<lambda>(cnt, buf).
     if make_panics 48 (unat cnt) then Inl PanicMakeSlice else readN decodeColumn (unat cnt) buf)"

definition decodeColumnV1 :: "bytes \<Rightarrow> (col_value \<times> bytes) result" where
  "decodeColumnV1 buf =
     (if length buf < 17 then Inl ErrShortBuffer
      else
        let col = be_word (take 16 buf); buf = drop 16 buf;
            tag = hd buf; buf = tl buf
        in if (ucast tag :: u32) \<in> {ColInt, ColReal, ColText, ColBlob}
           then bindE (readUvarint buf) (\<lambda>(byteLen, buf).
             if length buf < unat byteLen then Inl ErrShortBuffer
             else Inr (ColValue col (ucast tag) 0 (take (unat byteLen) buf), drop (unat byteLen) buf))
           else if tag = 5 then Inr (ColValue col 0 0 [], buf)
           else Inl (ErrUnknownColType (ucast tag)))"

definition decodeColumnsV1 :: "bytes \<Rightarrow> (col_value list \<times> bytes) result" where
  "decodeColumnsV1 buf = bindE (readUvarint buf) (\<lambda>(cnt, buf).
     if make_panics 48 (unat cnt) then Inl PanicMakeSlice else readN decodeColumnV1 (unat cnt) buf)"

section \<open>Records\<close>

definition encodeRange :: "blob_patch_range \<Rightarrow> bytes" where
  "encodeRange rr = AppendUvarint (Offset rr) @ AppendUvarint (u64_len (RBytes rr)) @ RBytes rr"

fun encodeBody :: "dml_record \<Rightarrow> bytes" where
  "encodeBody (Insert _ _ _ img) = encodeColumns img"
| "encodeBody (Update _ _ _ changed) = encodeColumns changed"
| "encodeBody (Delete _ _ _) = AppendUvarint 0"
| "encodeBody (BlobPatch _ _ _ col ranges) =
     put_id col @ AppendUvarint (u64_len ranges) @ concat (map encodeRange ranges)"

definition encodeRecord :: "dml_record \<Rightarrow> bytes" where
  "encodeRecord r =
     (let h = Header r in
      [HOp h] @ put_id (HTable h) @ AppendUvarint (u64_len (HPK h)) @ HPK h @ AppendUvarint (HCL h) @
      encodeBody r)"

definition encodeRecords :: "dml_record list \<Rightarrow> bytes" where
  "encodeRecords recs = concat (map encodeRecord recs)"

definition decodeRange :: "bytes \<Rightarrow> (blob_patch_range \<times> bytes) result" where
  "decodeRange buf = bindE (readUvarint buf) (\<lambda>(offset, buf).
     bindE (readUvarint buf) (\<lambda>(byteLen, buf).
       if length buf < unat byteLen then Inl ErrShortBuffer
       else Inr (BlobPatchRange offset (take (unat byteLen) buf), drop (unat byteLen) buf)))"

definition decodeBody :: "byte \<Rightarrow> byte \<Rightarrow> table_id \<Rightarrow> pk_blob \<Rightarrow> u64 \<Rightarrow> bytes \<Rightarrow> (dml_record \<times> bytes) result" where
  "decodeBody version op tbl pk cl buf =
     (let decodeCols = (if version = wireVersionV1 then decodeColumnsV1 else decodeColumns) in
      if op = opInsert then bindE (decodeCols buf) (\<lambda>(cols, buf). Inr (Insert tbl pk cl cols, buf))
      else if op = opUpdate then bindE (decodeCols buf) (\<lambda>(cols, buf). Inr (Update tbl pk cl cols, buf))
      else if op = opDelete then bindE (readUvarint buf) (\<lambda>(cnt, buf).
        if cnt \<noteq> 0 then Inl (ErrDeleteColumns cnt) else Inr (Delete tbl pk cl, buf))
      else if op = opBlobPatch then
        if length buf < 16 then Inl ErrShortBuffer
        else bindE (readUvarint (drop 16 buf)) (\<lambda>(rangeCount, buf').
          if make_panics 32 (unat rangeCount) then Inl PanicMakeSlice
          else bindE (readN decodeRange (unat rangeCount) buf') (\<lambda>(ranges, buf').
            Inr (BlobPatch tbl pk cl (be_word (take 16 buf)) ranges, buf')))
      else Inl (ErrUnknownOp op))"

definition decodeRecord :: "byte \<Rightarrow> bytes \<Rightarrow> (dml_record \<times> bytes) result" where
  "decodeRecord version buf =
     (if length buf < 1 + 16 then Inl ErrShortBuffer
      else
        let op = hd buf; buf = tl buf; tbl = be_word (take 16 buf); buf = drop 16 buf
        in bindE (readUvarint buf) (\<lambda>(pkLen, buf).
             if length buf < unat pkLen then Inl ErrShortBuffer
             else
               let pk = take (unat pkLen) buf; buf = drop (unat pkLen) buf
               in bindE (readUvarint buf) (\<lambda>(cl, buf). decodeBody version op tbl pk cl buf)))"

lemma decodeColumn_shorter: "decodeColumn buf = Inr (x, rest) \<Longrightarrow> length rest \<le> length buf"
  by (auto simp: decodeColumn_def Let_def bindE_Inr_iff split: if_splits dest!: readUvarint_shorter)

lemma decodeColumnV1_shorter: "decodeColumnV1 buf = Inr (x, rest) \<Longrightarrow> length rest \<le> length buf"
  by (auto simp: decodeColumnV1_def Let_def bindE_Inr_iff split: if_splits dest!: readUvarint_shorter)

lemma decodeRange_shorter: "decodeRange buf = Inr (x, rest) \<Longrightarrow> length rest \<le> length buf"
  by (auto simp: decodeRange_def bindE_Inr_iff split: if_splits dest!: readUvarint_shorter)

interpretation columns_reader: reader decodeColumn by unfold_locales (rule decodeColumn_shorter)
interpretation columnsV1_reader: reader decodeColumnV1 by unfold_locales (rule decodeColumnV1_shorter)
interpretation ranges_reader: reader decodeRange by unfold_locales (rule decodeRange_shorter)

lemma decodeBody_shorter:
  "decodeBody version op tbl pk cl buf = Inr (r, rest) \<Longrightarrow> length rest \<le> length buf"
  by (auto simp: decodeBody_def decodeColumns_def decodeColumnsV1_def Let_def bindE_Inr_iff split: if_splits
      dest!: readUvarint_shorter columns_reader.readN_shorter columnsV1_reader.readN_shorter
        ranges_reader.readN_shorter)

lemma decodeRecord_shorter: "decodeRecord version buf = Inr (r, rest) \<Longrightarrow> length rest < length buf"
  by (auto simp: decodeRecord_def Let_def bindE_Inr_iff split: if_splits
      dest!: readUvarint_shorter decodeBody_shorter)

text \<open>The loop \<open>for len(buf) > 0\<close>: every iteration consumes input.\<close>

function decodeRecords :: "byte \<Rightarrow> bytes \<Rightarrow> dml_record list result" where
  "decodeRecords version buf =
     (if buf = [] then Inr []
      else bindE (decodeRecord version buf) (\<lambda>(r, buf).
        bindE (decodeRecords version buf) (\<lambda>recs. Inr (r # recs))))"
  by pat_completeness auto
termination
  by (relation "measure (\<lambda>(version, buf). length buf)") (auto dest: decodeRecord_shorter)

declare decodeRecords.simps [simp del]

section \<open>The frame\<close>

definition changesetHeaderLen :: "nat \<Rightarrow> nat" where
  "changesetHeaderLen depsCount = 1 + 8 + 8 + 8 + 16 + 1 + depsCount * 10"

definition crc64ChangesetIntegrity :: "bytes \<Rightarrow> nat \<Rightarrow> u64" where
  "crc64ChangesetIntegrity body crcOffset =
     crc64_Sum64 [take crcOffset body, drop (crcOffset + 8) body]"

definition encodeDeps :: "deps \<Rightarrow> bytes" where
  "encodeDeps d = concat (map (\<lambda>chain. put_u16 chain @ put_u64 (deps_at d chain)) (Mapping.ordered_keys d))"

definition encodeHeader :: "changeset \<Rightarrow> u64 \<Rightarrow> bytes" where
  "encodeHeader cs hlc = [WireVersion] @ put_u64 (DotOrigin (csDot cs)) @ put_u64 (DotSeq (csDot cs)) @
     put_u64 hlc @ put_id (csClusterID cs) @ [word_of_nat (Mapping.size (csDeps cs))] @ encodeDeps (csDeps cs)"

text \<open>Reserve the slot, append length and payload, then patch the checksum in.\<close>

definition sealFrame :: "bytes \<Rightarrow> nat \<Rightarrow> bytes \<Rightarrow> bytes \<times> u64" where
  "sealFrame hdr hdrLen payload =
     (let body = hdr @ replicate 8 0 @ AppendUvarint (u64_len payload) @ payload;
          crc = crc64ChangesetIntegrity body hdrLen
      in (take hdrLen body @ put_u64 crc @ drop (hdrLen + 8) body, crc))"

definition encodeChangeset :: "changeset \<Rightarrow> changeset result" where
  "encodeChangeset cs =
     (if Mapping.size (csDeps cs) > 0xff then Inl (ErrTooManyDeps (Mapping.size (csDeps cs)))
      else bindE (Pack (StampClock (csStamp cs))) (\<lambda>hlc.
        case sealFrame (encodeHeader cs hlc) (changesetHeaderLen (Mapping.size (csDeps cs)))
               (encodeRecords (csRecords cs)) of
          (body, crc) \<Rightarrow> Inr (cs\<lparr>encoded := body, csCRC := crc\<rparr>)))"

definition Build :: "dot \<Rightarrow> stamp \<Rightarrow> deps \<Rightarrow> cluster_id \<Rightarrow> dml_record list \<Rightarrow> changeset result" where
  "Build dt st d cluster records =
     (if Origin st \<noteq> DotOrigin dt then Inl ErrOriginMismatch
      else encodeChangeset \<lparr>csDot = dt, csStamp = st, csDeps = d, csClusterID = cluster,
        csRecords = records, encoded = [], csCRC = 0\<rparr>)"

definition decodeDeps :: "nat \<Rightarrow> bytes \<Rightarrow> deps" where
  "decodeDeps depsCount buf =
     fold (\<lambda>i d. Mapping.update (be_word (take 2 (drop (10 * i) buf))) (be_word (take 8 (drop (10 * i + 2) buf))) d)
       [0..<depsCount] Mapping.empty"

definition decodeChangeset :: "bytes \<Rightarrow> changeset result" where
  "decodeChangeset buf =
     (if length buf < 1 + 8 + 8 + 8 + 16 + 1 + 8 then Inl ErrShortBuffer
      else
        let version = buf ! 0 in
        if version \<noteq> WireVersion \<and> version \<noteq> wireVersionV1 then Inl ErrUnknownVersion
        else
          let origin = be_word (take 8 (drop 1 buf));
              seq = be_word (take 8 (drop 9 buf));
              clk = UnpackClock (be_word (take 8 (drop 17 buf)));
              cluster = be_word (take 16 (drop 25 buf));
              depsCount = unat (buf ! 41);
              off = 42
          in if length buf < off + depsCount * 10 + 8 then Inl ErrShortBuffer
             else
               let d = decodeDeps depsCount (drop off buf);
                   crcOffset = off + depsCount * 10;
                   expectedCRC = be_word (take 8 (drop crcOffset buf))
               in bindE (readUvarint (drop (crcOffset + 8) buf)) (\<lambda>(payloadLen, rest).
                    if length rest < unat payloadLen then Inl ErrShortBuffer
                    else
                      let payload = take (unat payloadLen) rest; trailing = length rest - unat payloadLen
                      in if trailing \<noteq> 0 then Inl (ErrTrailingBytes trailing)
                         else if crc64ChangesetIntegrity buf crcOffset \<noteq> expectedCRC then Inl ErrCRCMismatch
                         else bindE (decodeRecords version payload) (\<lambda>records.
                           Inr \<lparr>csDot = Dot origin seq, csStamp = Stamp clk origin, csDeps = d,
                             csClusterID = cluster, csRecords = records, encoded = buf, csCRC = expectedCRC\<rparr>)))"

definition Decode :: "bytes \<Rightarrow> changeset result" where
  "Decode buf = decodeChangeset buf"

section \<open>What the encoders accept\<close>

text \<open>
  The conditions hold for every value a Go program can build: slices shorter than \<open>2^63\<close> bytes,
  element counts below the allocation limit. A NULL column carries no bytes.
\<close>

definition column_ok :: "col_value \<Rightarrow> bool" where
  "column_ok c \<longleftrightarrow> (TypeTag c = ColNull \<longrightarrow> VBytes c = []) \<and> slice_ok (VBytes c)"

definition columns_ok :: "col_value list \<Rightarrow> bool" where
  "columns_ok cols \<longleftrightarrow> list_all column_ok cols \<and> \<not> make_panics 48 (length cols)"

definition ranges_ok :: "blob_patch_range list \<Rightarrow> bool" where
  "ranges_ok rs \<longleftrightarrow> list_all (\<lambda>r. slice_ok (RBytes r)) rs \<and> \<not> make_panics 32 (length rs)"

fun body_ok :: "dml_record \<Rightarrow> bool" where
  "body_ok (Insert _ _ _ cols) = columns_ok cols"
| "body_ok (Update _ _ _ cols) = columns_ok cols"
| "body_ok (Delete _ _ _) = True"
| "body_ok (BlobPatch _ _ _ _ rs) = ranges_ok rs"

definition record_ok :: "dml_record \<Rightarrow> bool" where
  "record_ok r \<longleftrightarrow> slice_ok (HPK (Header r)) \<and> body_ok r"

lemma make_slice_ok: "\<not> make_panics sz (length xs) \<Longrightarrow> 0 < sz \<Longrightarrow> slice_ok xs"
proof -
  assume a: "\<not> make_panics sz (length xs)" "0 < sz"
  then have "length xs \<le> sz * length xs" by (cases sz) auto
  also have "\<dots> \<le> 2 ^ 48" using a by (simp add: make_panics_def)
  finally show ?thesis by (simp add: slice_ok_def)
qed

interpretation column_codec: codec encodeColumn decodeColumn column_ok
proof
  fix c rest assume "column_ok c"
  then show "decodeColumn (encodeColumn c @ rest) = Inr (c, rest)"
    by (cases c) (simp add: encodeColumn_def decodeColumn_def column_ok_def Let_def codec_simps)
qed

interpretation columns_codec: codec encodeColumns decodeColumns columns_ok
proof
  fix cols rest assume ok: "columns_ok cols"
  then have "slice_ok cols" by (auto simp: columns_ok_def intro: make_slice_ok)
  with ok show "decodeColumns (encodeColumns cols @ rest) = Inr (cols, rest)"
    by (simp add: encodeColumns_def decodeColumns_def codec_simps columns_ok_def list_all_iff
        column_codec.dec_count)
qed

interpretation range_codec: codec encodeRange decodeRange "\<lambda>r. slice_ok (RBytes r)"
  by unfold_locales (simp add: encodeRange_def decodeRange_def codec_simps)

interpretation record_codec: codec encodeRecord "decodeRecord WireVersion" record_ok
proof
  fix r rest assume ok: "record_ok r"
  show "decodeRecord WireVersion (encodeRecord r @ rest) = Inr (r, rest)"
  proof (cases r)
    case (BlobPatch t pk cl col rs)
    then have "slice_ok rs" using ok by (auto simp: record_ok_def ranges_ok_def intro: make_slice_ok)
    with BlobPatch ok show ?thesis
      by (simp add: encodeRecord_def decodeRecord_def decodeBody_def record_ok_def ranges_ok_def list_all_iff
          Let_def codec_simps record_ops range_codec.dec_count)
  qed (use ok in \<open>simp_all add: encodeRecord_def decodeRecord_def decodeBody_def record_ok_def Let_def codec_simps
      record_ops columns_codec.dec_enc WireVersion_def wireVersionV1_def\<close>)
qed

lemma encodeRecord_nonempty [simp]: "encodeRecord r \<noteq> []"
  by (simp add: encodeRecord_def Let_def)

lemma decodeRecords_encode:
  "list_all record_ok recs \<Longrightarrow> decodeRecords WireVersion (encodeRecords recs) = Inr recs"
proof (induction recs)
  case Nil
  show ?case by (simp add: encodeRecords_def decodeRecords.simps)
next
  case (Cons r recs)
  then show ?case
    by (simp add: encodeRecords_def decodeRecords.simps [of _ "_ @ _"] record_codec.dec_enc)
qed

section \<open>Round trip of the frame\<close>

lemma deps_size: "Mapping.size (d :: deps) = length (Mapping.ordered_keys d)"
  by (simp add: Mapping.size_def ordered_keys_def)

lemma drop_blocks:
  assumes "\<forall>x \<in> set xs. length (e x) = n" and "i < length xs"
  shows "\<exists>rest'. drop (n * i) (concat (map e xs) @ rest) = e (xs ! i) @ rest'"
  using assms
proof (induction xs arbitrary: i)
  case (Cons x xs)
  show ?case
  proof (cases i)
    case (Suc j)
    then show ?thesis using Cons by auto
  qed simp
qed simp

lemma lookup_fold_update:
  "Mapping.lookup (fold (\<lambda>c. Mapping.update c (f c)) ks m) k = (if k \<in> set ks then Some (f k) else Mapping.lookup m k)"
  by (induction ks arbitrary: m) (auto simp: lookup_update')

lemma decodeDeps_encode: "decodeDeps (length (Mapping.ordered_keys d)) (encodeDeps d @ rest) = d"
proof -
  let ?ks = "Mapping.ordered_keys d" and ?e = "\<lambda>chain. put_u16 chain @ put_u64 (deps_at d chain)"
  let ?buf = "encodeDeps d @ rest"
  have step: "Mapping.update (be_word (take 2 (drop (10 * i) ?buf))) (be_word (take 8 (drop (10 * i + 2) ?buf))) m
      = Mapping.update (?ks ! i) (deps_at d (?ks ! i)) m" if i: "i < length ?ks" for i m
  proof -
    obtain rest' where r: "drop (10 * i) ?buf = put_u16 (?ks ! i) @ put_u64 (deps_at d (?ks ! i)) @ rest'"
      using drop_blocks [of ?ks ?e 10 i rest] i by (auto simp: encodeDeps_def)
    have r2: "drop (10 * i + 2) ?buf = drop 2 (drop (10 * i) ?buf)" by (simp only: drop_drop add.commute)
    show ?thesis unfolding r2 unfolding r by simp
  qed
  have "decodeDeps (length ?ks) ?buf = fold (\<lambda>i. Mapping.update (?ks ! i) (deps_at d (?ks ! i))) [0..<length ?ks] Mapping.empty"
    unfolding decodeDeps_def by (intro fold_cong refl ext step) simp
  also have "\<dots> = fold (\<lambda>c. Mapping.update c (deps_at d c)) ?ks Mapping.empty"
    using fold_map [of "\<lambda>c. Mapping.update c (deps_at d c)" "(!) ?ks" "[0..<length ?ks]"]
    by (simp only: map_nth comp_def)
  also have "\<dots> = d"
    by (rule mapping_eqI)
      (auto simp: lookup_fold_update ordered_keys_def deps_at_def keys_is_none_rep Option.is_none_def
        lookup_empty split: option.splits)
  finally show ?thesis .
qed

lemma length_encodeDeps: "length (encodeDeps d) = 10 * length (Mapping.ordered_keys d)"
  by (simp add: encodeDeps_def length_concat comp_def sum_list_triv)

lemma length_encodeHeader:
  "length (encodeHeader cs hlc) = changesetHeaderLen (Mapping.size (csDeps cs))"
  by (simp add: encodeHeader_def changesetHeaderLen_def length_encodeDeps deps_size)

lemma sealFrame_eq:
  assumes "length hdr = n"
  shows "sealFrame hdr n payload =
    (let crc = crc64_Sum64 [hdr, AppendUvarint (u64_len payload) @ payload]
     in (hdr @ put_u64 crc @ AppendUvarint (u64_len payload) @ payload, crc))"
  using assms by (simp add: sealFrame_def Let_def crc64ChangesetIntegrity_def)

lemma frame_crc:
  assumes "length hdr = n"
  shows "crc64ChangesetIntegrity (hdr @ put_u64 crc @ tail) n = crc64_Sum64 [hdr, tail]"
  using assms by (simp add: crc64ChangesetIntegrity_def)

text \<open>Decoding a sealed frame with the header \<open>encodeHeader\<close> writes reduces to decoding its payload.\<close>

lemma decode_sealed:
  assumes size: "Mapping.size d \<le> 255" and clk: "packable clk" "Pack clk = Inr hlc"
    and pay: "slice_ok payload"
    and cs: "cs = \<lparr>csDot = Dot o' q, csStamp = Stamp clk o', csDeps = d, csClusterID = cluster,
      csRecords = recs, encoded = enc, csCRC = c\<rparr>"
    and frame: "sealFrame (encodeHeader cs hlc) (changesetHeaderLen (Mapping.size d)) payload = (body, crc)"
  shows "Decode body = bindE (decodeRecords WireVersion payload)
    (\<lambda>records. Inr (cs\<lparr>csRecords := records, encoded := body, csCRC := crc\<rparr>))"
proof -
  let ?n = "Mapping.size d" and ?tail = "AppendUvarint (u64_len payload) @ payload"
  have hl: "length (encodeHeader cs hlc) = changesetHeaderLen ?n"
    using length_encodeHeader [of cs hlc] cs by simp
  have body: "body = encodeHeader cs hlc @ put_u64 crc @ ?tail"
    and crc: "crc = crc64_Sum64 [encodeHeader cs hlc, ?tail]"
    using frame unfolding sealFrame_eq [OF hl] Let_def by blast+
  have integ: "crc64ChangesetIntegrity body (42 + ?n * 10) = crc"
    using frame_crc [OF hl, of crc ?tail] crc unfolding body by (simp add: changesetHeaderLen_def)
  have unp: "UnpackClock hlc = clk" using Unpack_Pack [OF clk(1)] clk(2) by auto
  have bytes: "body = [WireVersion] @ put_u64 o' @ put_u64 q @ put_u64 hlc @ put_id cluster @
      [word_of_nat ?n] @ encodeDeps d @ put_u64 crc @ ?tail"
    unfolding body by (simp add: encodeHeader_def cs)
  have cnt: "unat (word_of_nat ?n :: byte) = ?n" using size by (simp add: unat_of_nat)
  have len: "length (encodeDeps d) = ?n * 10" by (simp add: length_encodeDeps deps_size)
  have deps: "decodeDeps ?n (encodeDeps d @ rest) = d" for rest
    using decodeDeps_encode [of d rest] by (simp add: deps_size)
  have at41: "body ! 41 = word_of_nat ?n" unfolding bytes by (simp add: nth_append)
  have fields: "body ! 0 = WireVersion" "take 8 (drop 1 body) = put_u64 o'" "take 8 (drop 9 body) = put_u64 q"
    "take 8 (drop 17 body) = put_u64 hlc" "take 16 (drop 25 body) = put_id cluster"
    "drop 42 body = encodeDeps d @ put_u64 crc @ ?tail"
    unfolding bytes by simp_all
  have crcs: "take 8 (drop (42 + ?n * 10) body) = put_u64 crc" "drop (42 + ?n * 10 + 8) body = ?tail"
  proof -
    have d1: "drop (42 + ?n * 10) body = drop (?n * 10) (drop 42 body)"
      and d2: "drop (42 + ?n * 10 + 8) body = drop 8 (drop (?n * 10) (drop 42 body))"
      by (simp_all only: drop_drop add.commute add.left_commute)
    show "take 8 (drop (42 + ?n * 10) body) = put_u64 crc" "drop (42 + ?n * 10 + 8) body = ?tail"
      unfolding d1 d2 fields(6) by (simp_all add: len)
  qed
  have blen: "length body = 42 + ?n * 10 + 8 + length ?tail" unfolding bytes by (simp add: len)
  show ?thesis
    unfolding Decode_def decodeChangeset_def Let_def at41 cnt fields crcs blen integ
    using pay by (simp add: deps readUvarint_append unp cs)
qed

section \<open>One altered byte\<close>

lemma crc_update_list_update: "i < length p \<Longrightarrow> crc_update c (p[i := x]) = crc_update c p \<Longrightarrow> p[i := x] = p"
  using crc_update_one_byte [of c "take i p" x "drop (Suc i) p" "p ! i"]
  by (metis Cons_nth_drop_Suc append_take_drop_id upd_conv_take_nth_drop)

lemma integrity_split: "crc64ChangesetIntegrity body n = crc_update 0 (take n body @ drop (n + 8) body)"
  by (simp add: crc64ChangesetIntegrity_def crc64_Sum64_concat)

lemma be_word_u64_inj: "length a = 8 \<Longrightarrow> length b = 8 \<Longrightarrow> (be_word a :: u64) = be_word b \<Longrightarrow> a = b"
  using put_be_be_word [of a, where 'a = 64] put_be_be_word [of b, where 'a = 64] by simp

lemma decode_accepts:
  assumes "Decode buf = Inr cs"
  shows "42 + unat (buf ! 41) * 10 + 8 \<le> length buf \<and>
    crc64ChangesetIntegrity buf (42 + unat (buf ! 41) * 10) =
      be_word (take 8 (drop (42 + unat (buf ! 41) * 10) buf))"
  using assms by (auto simp: Decode_def decodeChangeset_def Let_def bindE_Inr_iff split: if_splits)

lemma integrity_altered:
  assumes i: "i < length buf" "n + 8 \<le> length buf"
    and a: "crc64ChangesetIntegrity buf n = be_word (take 8 (drop n buf))"
    and b: "crc64ChangesetIntegrity (buf[i := x]) n = be_word (take 8 (drop n (buf[i := x])))"
  shows "x = buf ! i"
proof -
  let ?rest = "take n buf @ drop (n + 8) buf"
  have same: "buf[i := x] = buf \<Longrightarrow> x = buf ! i" using i(1) by (metis nth_list_update_eq)
  consider (low) "i < n" | (slot) "n \<le> i" "i < n + 8" | (high) "n + 8 \<le> i" by linarith
  then show ?thesis
  proof cases
    case low
    then have u: "crc_update 0 (?rest[i := x]) = crc_update 0 ?rest"
      using a b i by (simp add: integrity_split take_update_swap drop_update_cancel list_update_append)
    have "i < length ?rest" using low i by simp
    from crc_update_list_update [OF this u] have "?rest[i := x] ! i = ?rest ! i" by simp
    then show ?thesis using low i by (simp add: nth_append)
  next
    case slot
    have "(be_word (take 8 (drop n (buf[i := x]))) :: u64) = be_word (take 8 (drop n buf))"
      using a b slot by (simp add: integrity_split take_update_cancel drop_update_cancel)
    then have "take 8 (drop n (buf[i := x])) = take 8 (drop n buf)"
      using i by (intro be_word_u64_inj) simp_all
    then have "take 8 (drop n (buf[i := x])) ! (i - n) = take 8 (drop n buf) ! (i - n)" by simp
    then show ?thesis using slot i by simp
  next
    case high
    then have u: "crc_update 0 (?rest[i - 8 := x]) = crc_update 0 ?rest"
      using a b i diff_diff_left [of i 8 n]
      by (auto simp: integrity_split take_update_cancel drop_update_swap list_update_append add.commute [of 8 n])
    have "i - 8 < length ?rest" using high i by simp
    from crc_update_list_update [OF this u] have "?rest[i - 8 := x] ! (i - 8) = ?rest ! (i - 8)" by simp
    moreover have "\<not> i - 8 < n" using high by simp
    ultimately show ?thesis using high i by (simp add: nth_append)
  qed
qed

lemma Build_Decode:
  assumes "Build dt st d cluster records = Inr cs"
    and "list_all record_ok records" and "slice_ok (encodeRecords records)"
  shows "Decode (encoded cs) = Inr cs"
proof -
  obtain o' q where dt: "dt = Dot o' q" by (cases dt)
  obtain clk where st: "st = Stamp clk o'"
    using assms(1) dt by (cases st) (auto simp: Build_def split: if_splits)
  let ?cs = "\<lparr>csDot = dt, csStamp = st, csDeps = d, csClusterID = cluster, csRecords = records,
    encoded = [], csCRC = 0\<rparr>"
  have enc: "encodeChangeset ?cs = Inr cs"
    using assms(1) by (simp add: Build_def split: if_splits)
  then obtain hlc where size: "Mapping.size d \<le> 255" and hlc: "Pack clk = Inr hlc"
    by (auto simp: encodeChangeset_def bindE_Inr_iff st split: if_splits)
  obtain body crc where
    frame: "sealFrame (encodeHeader ?cs hlc) (changesetHeaderLen (Mapping.size d)) (encodeRecords records) = (body, crc)"
    by (meson surj_pair)
  have cs: "cs = ?cs\<lparr>encoded := body, csCRC := crc\<rparr>"
    using enc size hlc frame by (simp add: encodeChangeset_def st)
  have "packable clk" using hlc by (simp add: Pack_packable split: if_splits)
  from decode_sealed [OF size this hlc assms(3) _ frame, of o' q cluster records "[]" 0]
  show ?thesis using assms(2) by (simp add: dt st cs decodeRecords_encode)
qed

lemma Build_empty: "\<exists>cs. Build (Dot 7 1) (Stamp (Clock 5 0) 7) Mapping.empty 5 [] = Inr cs \<and> Decode (encoded cs) = Inr cs"
proof -
  have "\<exists>cs. Build (Dot 7 1) (Stamp (Clock 5 0) 7) Mapping.empty 5 [] = Inr cs"
    by (simp add: Build_def encodeChangeset_def Pack_packable packable_def clockMaxWall_def clockMaxLogical_def
        Mapping.size_def split: prod.splits)
  then show ?thesis using Build_Decode by (fastforce simp: encodeRecords_def slice_ok_def)
qed

section \<open>Properties\<close>

text \<open>
  C10: what \<open>Build\<close> encodes, \<open>Decode\<close> reads back: whenever \<open>Build\<close> succeeds on records that fit in
  memory and whose NULL columns carry no bytes, decoding the encoded form returns the same
  changeset: dot, stamp, dependencies, cluster, records, bytes and checksum.
\<close>

theorem changeset_roundtrip:
  assumes "Build dt st d cluster records = Inr cs"
    and "list_all record_ok records" and "slice_ok (encodeRecords records)"
  shows "Decode (encoded cs) = Inr cs"
  using assms by (rule Build_Decode)

theorem changeset_roundtrip_witness:
  "\<exists>cs. Build (Dot 7 42) (Stamp (Clock 1700000000000 3) 7) (Mapping.update SchemaChain 9 Mapping.empty) 5
      [Insert 1 [8, 9] 1 [ColValue 2 ColText FormatText [104, 105], ColValue 3 ColNull 0 []], Delete 1 [7] 4] = Inr cs \<and>
    Decode (encoded cs) = Inr cs"
proof -
  let ?rs = "[Insert 1 [8, 9] 1 [ColValue 2 ColText FormatText [104, 105], ColValue 3 ColNull 0 []], Delete 1 [7] 4]"
  let ?d = "Mapping.update SchemaChain 9 Mapping.empty :: deps"
  have "\<exists>cs. Build (Dot 7 42) (Stamp (Clock 1700000000000 3) 7) ?d 5 ?rs = Inr cs"
    by (simp add: Build_def encodeChangeset_def Pack_packable packable_def clockMaxWall_def clockMaxLogical_def
        Mapping.size_def split: prod.splits)
  then obtain cs where cs: "Build (Dot 7 42) (Stamp (Clock 1700000000000 3) 7) ?d 5 ?rs = Inr cs" by blast
  have ok: "list_all record_ok ?rs"
    by (simp add: record_ok_def columns_ok_def column_ok_def slice_ok_def make_panics_def col_tags)
  have uv: "AppendUvarint v = [ucast v]" if "v < 128" for v
    using that by (simp add: AppendUvarint.simps [of v] not_le)
  have "slice_ok (encodeRecords ?rs)"
    by (simp add: encodeRecords_def encodeRecord_def encodeColumns_def encodeColumn_def slice_ok_def Let_def
        uv u64_len_def col_tags)
  from changeset_roundtrip [OF cs ok this] cs show ?thesis by blast
qed

text \<open>
  C17: a single corrupted byte never goes unnoticed. If a frame decodes and any one byte other
  than the dependency count (offset 41, which moves the checksum slot itself) is replaced by
  a different value, the altered frame is rejected, whether the byte lies in the header, in
  the checksum or in the payload.
\<close>

theorem single_byte_corruption_detected:
  assumes "Decode buf = Inr cs" and "i < length buf" and "i \<noteq> 41" and "x \<noteq> buf ! i"
  shows "\<exists>err. Decode (buf[i := x]) = Inl err"
proof (cases "Decode (buf[i := x])")
  case (Inr cs')
  have "buf[i := x] ! 41 = buf ! 41" using assms(3) by simp
  with decode_accepts [OF assms(1)] decode_accepts [OF Inr] integrity_altered [OF assms(2)] assms(4)
  show ?thesis by (metis)
qed blast

theorem single_byte_corruption_detected_witness:
  "\<exists>buf cs err. Decode buf = Inr cs \<and> 0 < length buf \<and> buf ! 0 \<noteq> 9 \<and> Decode (buf[0 := 9]) = Inl err"
proof -
  obtain cs where d: "Decode (encoded cs) = Inr cs" using Build_empty by blast
  have v: "0 < length (encoded cs)" "(9::byte) \<noteq> encoded cs ! 0"
    using d by (auto simp: Decode_def decodeChangeset_def Let_def WireVersion_def wireVersionV1_def split: if_splits)
  from single_byte_corruption_detected [OF d v(1) _ v(2)] d v show ?thesis by (metis zero_neq_numeral)
qed

text \<open>
  C21: a short frame with a valid checksum can make the decoder panic. The column count of an
  insert is passed to \<open>make\<close> before any check against the bytes left, so for every count whose
  columns would not fit in the address space, the sealed frame holding just that record
  header makes \<open>Decode\<close> panic instead of returning an error.
\<close>

theorem decode_panics_on_column_count:
  assumes "packable clk" and "Pack clk = Inr hlc" and "make_panics 48 (unat cnt)"
    and "payload = [opInsert] @ put_id t @ AppendUvarint 0 @ AppendUvarint cl @ AppendUvarint cnt"
    and "slice_ok payload"
    and "cs = \<lparr>csDot = Dot o' q, csStamp = Stamp clk o', csDeps = Mapping.empty, csClusterID = cluster,
      csRecords = [], encoded = [], csCRC = 0\<rparr>"
    and "sealFrame (encodeHeader cs hlc) (changesetHeaderLen 0) payload = (body, crc)"
  shows "Decode body = Inl PanicMakeSlice"
proof -
  have "readUvarint (AppendUvarint cnt) = Inr (cnt, [])" using readUvarint_append [of cnt "[]"] by simp
  then have rec: "decodeRecord WireVersion payload = Inl PanicMakeSlice"
    using assms(3) unfolding assms(4)
    by (simp add: decodeRecord_def decodeBody_def decodeColumns_def Let_def codec_simps record_ops
        WireVersion_def wireVersionV1_def)
  have "payload \<noteq> []" using assms(4) by simp
  with rec have "decodeRecords WireVersion payload = Inl PanicMakeSlice"
    by (simp add: decodeRecords.simps [of _ payload])
  with decode_sealed [OF _ assms(1,2,5,6), of body crc] assms(7) show ?thesis
    by (simp add: Mapping.size_def)
qed

theorem decode_panics_on_column_count_witness:
  "\<exists>body. Decode body = Inl PanicMakeSlice"
proof -
  let ?pay = "[opInsert] @ put_id 1 @ AppendUvarint 0 @ AppendUvarint 1 @ AppendUvarint (2 ^ 43)"
  let ?cs = "\<lparr>csDot = Dot 7 1, csStamp = Stamp (Clock 5 0) 7, csDeps = Mapping.empty, csClusterID = 5,
      csRecords = [], encoded = [], csCRC = 0\<rparr>"
  have clk: "packable (Clock 5 0)" by (simp add: packable_def clockMaxWall_def clockMaxLogical_def)
  then obtain hlc where hlc: "Pack (Clock 5 0) = Inr hlc" using uint_Pack by blast
  have big: "make_panics 48 (unat (2 ^ 43 :: u64))" by (simp add: make_panics_def)
  have len: "slice_ok ?pay" by (simp add: slice_ok_def AppendUvarint.simps)
  obtain body crc where "sealFrame (encodeHeader ?cs hlc) (changesetHeaderLen 0) ?pay = (body, crc)"
    by (meson surj_pair)
  from decode_panics_on_column_count [OF clk hlc big refl len refl this] show ?thesis by blast
qed

end
