(* ===== verification/Anti_Entropy.thy ===== *)
theory Anti_Entropy
  imports Node_State Codec
begin

text \<open>
  Gap repair. \<open>transport/transport.go\<close>: ranges and the merging of interval lists;
  \<open>internal/antientropy/plan.go\<close>: which missing ranges to ask for this round, and when;
  \<open>internal/gapfillerchain/chain.go\<close>: how one request is narrowed from source to source.
  Fillers, tip sources and the apply callback are interfaces, hence arguments here.
\<close>

section \<open>Ranges\<close>

record range =
  rOrigin :: origin
  rLo :: seq
  rHi :: seq

definition OpenEnded :: "range \<Rightarrow> bool" where
  "OpenEnded r \<longleftrightarrow> rHi r = 0"

definition Range_Contains :: "range \<Rightarrow> seq \<Rightarrow> bool" where
  "Range_Contains r seq = (if seq < rLo r then False else if OpenEnded r then True else seq \<le> rHi r)"

text \<open>The loop of \<open>MergeIntervals\<close>; \<open>out\<close> is kept reversed, its head the last interval.\<close>

fun merge_loop :: "range list \<Rightarrow> range list \<Rightarrow> range list" where
  "merge_loop out [] = rev out"
| "merge_loop [] (r # rs) = merge_loop [r] rs"
| "merge_loop (l # out) (r # rs) =
     (if rLo r \<le> rHi l + 1
      then merge_loop ((if rHi r > rHi l then l\<lparr>rHi := rHi r\<rparr> else l) # out) rs
      else merge_loop (r # l # out) rs)"

definition MergeIntervals :: "range list \<Rightarrow> range list" where
  "MergeIntervals rs = merge_loop [] (sort_key rLo rs)"

section \<open>Planning\<close>

record plan_result =
  Ranges :: "range list"
  Unserveable :: "range list"
  Before :: "origin \<rightharpoonup> seq"
  Discovered :: "(origin \<rightharpoonup> seq) option"
  TipErr :: "error option"

definition AppliedTip :: "cache \<Rightarrow> origin \<Rightarrow> seq" where
  "AppliedTip c orig = appliedTipLocked c orig"

fun intersectsAny :: "range list \<Rightarrow> range \<Rightarrow> bool" where
  "intersectsAny [] r = False"
| "intersectsAny (c # iv) r = (if rLo c > rHi r then False else if rHi c \<ge> rLo r then True else intersectsAny iv r)"

text \<open>Tips the cache knows, without self, raised to what the tip source reports.\<close>

definition merge_tips :: "origin \<Rightarrow> (origin \<rightharpoonup> seq) \<Rightarrow> (origin \<rightharpoonup> seq) \<Rightarrow> origin \<rightharpoonup> seq" where
  "merge_tips self' tips d = (\<lambda>orig.
     case d orig of None \<Rightarrow> tips orig
     | Some t \<Rightarrow> if orig = self' \<or> t = 0 then tips orig
                 else case tips orig of None \<Rightarrow> Some t | Some cur \<Rightarrow> if t > cur then Some t else Some cur)"

definition plan_tips :: "cache \<Rightarrow> origin \<Rightarrow> (error + (origin \<rightharpoonup> seq)) option \<Rightarrow> origin \<rightharpoonup> seq" where
  "plan_tips c self' tipSource =
     (let tips = (AppliedTipMap c)(self' := None) in
      case tipSource of Some (Inr d) \<Rightarrow> merge_tips self' tips d | _ \<Rightarrow> tips)"

text \<open>The loop over one origin's missing ranges; the flag says that both lists are full.\<close>

fun plan_ranges :: "(origin \<Rightarrow> range list) option \<Rightarrow> nat \<Rightarrow> origin \<Rightarrow> seq_range list \<Rightarrow> plan_result \<Rightarrow> plan_result \<times> bool" where
  "plan_ranges coverage maxRanges orig [] res = (res, False)"
| "plan_ranges coverage maxRanges orig (r # miss) res =
     (let tr = \<lparr>rOrigin = orig, rLo = Lo r, rHi = Hi r\<rparr>;
          uncovered = (case coverage of None \<Rightarrow> False | Some cov \<Rightarrow> \<not> OpenEnded tr \<and> \<not> intersectsAny (cov orig) tr);
          res = (if uncovered
                 then if length (Unserveable res) < maxRanges then res\<lparr>Unserveable := Unserveable res @ [tr]\<rparr> else res
                 else if length (Ranges res) < maxRanges then res\<lparr>Ranges := Ranges res @ [tr]\<rparr> else res)
      in if length (Ranges res) \<ge> maxRanges \<and> length (Unserveable res) \<ge> maxRanges then (res, True)
         else plan_ranges coverage maxRanges orig miss res)"

fun plan_origins :: "cache \<Rightarrow> (origin \<Rightarrow> range list) option \<Rightarrow> nat \<Rightarrow> (origin \<rightharpoonup> seq) \<Rightarrow> origin list \<Rightarrow> plan_result \<Rightarrow> plan_result" where
  "plan_origins c coverage maxRanges tips [] res = res"
| "plan_origins c coverage maxRanges tips (orig # origs) res =
     (case tips orig of None \<Rightarrow> plan_origins c coverage maxRanges tips origs res
      | Some t \<Rightarrow>
        let miss = MissingRangesUpTo c orig t in
        if miss = [] then plan_origins c coverage maxRanges tips origs res
        else let (res, full) = plan_ranges coverage maxRanges orig miss
                   (res\<lparr>Before := (Before res)(orig \<mapsto> AppliedTip c orig)\<rparr>)
             in if full then res else plan_origins c coverage maxRanges tips origs res)"

text \<open>
  Go visits the map of tips in an unspecified order: the order is the argument \<open>order\<close>, a list of
  the origins with a tip. \<open>tipSource\<close> is \<open>None\<close> without a source, else what \<open>DiscoverTips\<close> returned;
  \<open>coverage\<close> is \<open>None\<close> when the source has no coverage or failed.
\<close>

definition Plan :: "cache \<Rightarrow> origin \<Rightarrow> (error + (origin \<rightharpoonup> seq)) option \<Rightarrow> (origin \<Rightarrow> range list) option \<Rightarrow> nat \<Rightarrow>
    origin list \<Rightarrow> plan_result" where
  "Plan c self' tipSource coverage maxRanges order =
     plan_origins c coverage maxRanges (plan_tips c self' tipSource) order
       \<lparr>Ranges = [], Unserveable = [], Before = Map.empty,
        Discovered = (case tipSource of Some (Inr d) \<Rightarrow> Some d | _ \<Rightarrow> None),
        TipErr = (case tipSource of Some (Inl e) \<Rightarrow> Some e | _ \<Rightarrow> None)\<rparr>"

definition NextInterval :: "int \<Rightarrow> int \<Rightarrow> int \<Rightarrow> bool \<Rightarrow> bool \<Rightarrow> int" where
  "NextInterval cur base mx issued progressed =
     (if \<not> issued then cur else if progressed then base else min (cur * 2) mx)"

definition Progressed :: "cache \<Rightarrow> (origin \<rightharpoonup> seq) \<Rightarrow> bool" where
  "Progressed c before \<longleftrightarrow> (\<exists>orig b. before orig = Some b \<and> AppliedTip c orig > b)"

section \<open>Probing\<close>

text \<open>Times are nanoseconds since the zero \<open>time.Time\<close>; the zero time is 0.\<close>

record prober =
  prInterval :: int
  prNext :: int

definition defaultProbeInterval :: int where
  "defaultProbeInterval = 15 * 60 * 1000000000"

definition Kick :: "prober \<Rightarrow> prober" where
  "Kick p = p\<lparr>prNext := 0\<rparr>"

text \<open>\<open>fetch\<close> delivers into the cache and may fail. Returns prober, cache, probed, filled and error.\<close>

definition Probe :: "prober \<Rightarrow> cache \<Rightarrow> plan_result \<Rightarrow> int \<Rightarrow> (range list \<Rightarrow> cache \<Rightarrow> cache \<times> error option) \<Rightarrow>
    prober \<times> cache \<times> bool \<times> bool \<times> error option" where
  "Probe p c res now fetch =
     (if Unserveable res = [] then (p, c, False, False, None)
      else if now < prNext p then (p, c, False, False, None)
      else
        let interval = (if prInterval p \<le> 0 then defaultProbeInterval else prInterval p);
            p = p\<lparr>prNext := now + interval\<rparr>;
            (c', err) = fetch (Unserveable res) c;
            filled = (\<exists>r \<in> set (Unserveable res). LastSeq (front_at c' (rOrigin r)) > LastSeq (front_at c (rOrigin r)));
            p = (if filled then Kick p else p)
        in (p, c', True, filled, err))"

section \<open>The filler chain\<close>

definition parseDot :: "bytes \<Rightarrow> (origin \<times> seq) option" where
  "parseDot payload =
     (if length payload < 17 then None
      else Some (be_word (take 8 (drop 1 payload)), be_word (take 8 (drop 9 payload))))"

fun subtract_open :: "seqset \<Rightarrow> seq \<Rightarrow> seq" where
  "subtract_open [] lo = lo"
| "subtract_open (sr # s) lo = (if Lo sr > lo then lo else subtract_open s (if Hi sr \<ge> lo then Hi sr + 1 else lo))"

fun subtract_closed :: "origin \<Rightarrow> seq \<Rightarrow> seqset \<Rightarrow> seq \<Rightarrow> range list" where
  "subtract_closed orig hi [] lo = (if lo \<le> hi then [\<lparr>rOrigin = orig, rLo = lo, rHi = hi\<rparr>] else [])"
| "subtract_closed orig hi (sr # s) lo =
     (if Hi sr < lo then subtract_closed orig hi s lo
      else if Lo sr > hi then (if lo \<le> hi then [\<lparr>rOrigin = orig, rLo = lo, rHi = hi\<rparr>] else [])
      else
        let out = (if Lo sr > lo then [\<lparr>rOrigin = orig, rLo = lo, rHi = Lo sr - 1\<rparr>] else []);
            lo = (if Hi sr \<ge> lo then Hi sr + 1 else lo)
        in if lo > hi then out else out @ subtract_closed orig hi s lo)"

definition subtractRange :: "range \<Rightarrow> seqset \<Rightarrow> range list" where
  "subtractRange r s =
     (if OpenEnded r then [r\<lparr>rLo := subtract_open s (rLo r)\<rparr>] else subtract_closed (rOrigin r) (rHi r) s (rLo r))"

type_synonym seen = "origin \<rightharpoonup> seqset"

definition remaining :: "range list \<Rightarrow> seen \<Rightarrow> range list" where
  "remaining rs seen = concat (map (\<lambda>r.
     case seen (rOrigin r) of None \<Rightarrow> [r] | Some s \<Rightarrow> if SeqSet_IsEmpty s then [r] else subtractRange r s) rs)"

text \<open>
  The apply callback changes the node (type \<open>'w\<close>) and may fail; cancellation of the context is one
  way it fails. A filler's run on a request is the payloads it hands to the callback, in order,
  and its error.
\<close>

type_synonym 'w apply_fun = "bytes \<Rightarrow> 'w \<Rightarrow> error option \<times> 'w"
type_synonym 'w filler = "range list \<Rightarrow> 'w \<Rightarrow> bytes list \<times> error option"

definition wrappedApply :: "'w apply_fun \<Rightarrow> bytes \<Rightarrow> 'w \<times> seen \<Rightarrow> 'w \<times> seen" where
  "wrappedApply apply payload = (\<lambda>(w, seen).
     case apply payload w of
       (Some e, w) \<Rightarrow> (w, seen)
     | (None, w) \<Rightarrow> (w, case parseDot payload of None \<Rightarrow> seen
         | Some (orig, seq) \<Rightarrow> seen(orig \<mapsto> SeqSet_Add (case seen orig of None \<Rightarrow> [] | Some s \<Rightarrow> s) seq)))"

fun chain_loop :: "'w apply_fun \<Rightarrow> 'w filler list \<Rightarrow> range list \<Rightarrow> 'w \<times> seen \<Rightarrow> error option \<Rightarrow>
    range list \<times> ('w \<times> seen) \<times> error option" where
  "chain_loop apply [] current st lastErr = (current, st, lastErr)"
| "chain_loop apply (f # fs) current st lastErr =
     (if current = [] then (current, st, None)
      else
        let (payloads, err) = f current (fst st);
            st = fold (wrappedApply apply) payloads st;
            lastErr = (case err of None \<Rightarrow> lastErr | Some e \<Rightarrow> Some e)
        in chain_loop apply fs (remaining current (snd st)) st lastErr)"

definition Chain_Fetch :: "'w apply_fun \<Rightarrow> 'w filler list \<Rightarrow> range list \<Rightarrow> 'w \<Rightarrow> 'w \<times> error option" where
  "Chain_Fetch apply fillers ranges w =
     (if ranges = [] then (w, None)
      else let (current, (w, seen), lastErr) = chain_loop apply fillers ranges (w, Map.empty) None
           in (w, if current = [] then None else lastErr))"

section \<open>The numbers a list of ranges asks for\<close>

definition dots :: "range list \<Rightarrow> (origin \<times> seq) set" where
  "dots rs = (\<Union>r \<in> set rs. {rOrigin r} \<times> {rLo r..rHi r})"

lemma dots_simps [simp]:
  "dots [] = {}" "dots (r # rs) = {rOrigin r} \<times> {rLo r..rHi r} \<union> dots rs" "dots (rs @ ss) = dots rs \<union> dots ss"
  by (auto simp: dots_def)

lemma dots_iff: "(orig, s) \<in> dots rs \<longleftrightarrow> (\<exists>r \<in> set rs. rOrigin r = orig \<and> rLo r \<le> s \<and> s \<le> rHi r)"
  by (auto simp: dots_def)

section \<open>Merged intervals\<close>

definition range_ok :: "range \<Rightarrow> bool" where
  "range_ok r \<longleftrightarrow> rLo r \<le> rHi r \<and> rHi r \<noteq> - 1"

definition apart :: "range \<Rightarrow> range \<Rightarrow> bool" where
  "apart a b \<longleftrightarrow> rHi a + 1 < rLo b"

definition seqs_of :: "range list \<Rightarrow> seq set" where
  "seqs_of rs = (\<Union>r \<in> set rs. {rLo r..rHi r})"

lemma seqs_of_simps [simp]:
  "seqs_of [] = {}" "seqs_of (r # rs) = {rLo r..rHi r} \<union> seqs_of rs" "seqs_of (rs @ ss) = seqs_of rs \<union> seqs_of ss"
  "seqs_of (rev rs) = seqs_of rs"
  by (auto simp: seqs_of_def)

lemma merge_step:
  assumes "range_ok l" "range_ok r" "rLo l \<le> rLo r" "rLo r \<le> rHi l + 1"
  shows "{rLo l..max (rHi l) (rHi r)} = {rLo l..rHi l} \<union> {rLo r..rHi r}"
proof -
  have "unat (rHi l + 1) = Suc (unat (rHi l))" using assms(1) by (simp add: range_ok_def unat_succ_max)
  then show ?thesis using assms
    by (auto simp: range_ok_def word_le_nat_alt word_less_nat_alt max_def)
qed

lemma merge_loop_correct:
  assumes "\<forall>r \<in> set (out @ rs). range_ok r" and "sorted (map rLo rs)" and "sorted_wrt (\<lambda>a b. apart b a) out"
    and "\<forall>l \<in> set out. \<forall>r \<in> set rs. rLo l \<le> rLo r"
  shows "seqs_of (merge_loop out rs) = seqs_of out \<union> seqs_of rs \<and> sorted_wrt apart (merge_loop out rs) \<and>
    (\<forall>r \<in> set (merge_loop out rs). range_ok r)"
  using assms
proof (induction out rs rule: merge_loop.induct)
  case (1 out)
  then show ?case by (simp add: sorted_wrt_rev)
next
  case (2 r rs)
  then show ?case by auto
next
  case (3 l out r rs)
  let ?l = "if rHi r > rHi l then l\<lparr>rHi := rHi r\<rparr> else l"
  show ?case
  proof (cases "rLo r \<le> rHi l + 1")
    case True
    have lr: "range_ok l" "range_ok r" "rLo l \<le> rLo r" using 3(3,6) by auto
    have "rLo ?l = rLo l" "rHi ?l = max (rHi l) (rHi r)" by (auto simp: max_def not_less)
    then have cov: "{rLo ?l..rHi ?l} = {rLo l..rHi l} \<union> {rLo r..rHi r}" using merge_step [OF lr True] by simp
    have ok: "\<forall>r \<in> set ((?l # out) @ rs). range_ok r" using lr 3(3) by (auto simp: range_ok_def)
    have "sorted_wrt (\<lambda>a b. apart b a) (?l # out)" using 3(5) by (auto simp: apart_def)
    moreover have "\<forall>l' \<in> set (?l # out). \<forall>r' \<in> set rs. rLo l' \<le> rLo r'" using 3(4,6) by auto
    moreover have "sorted (map rLo rs)" using 3(4) by simp
    ultimately have "seqs_of (merge_loop (?l # out) rs) = seqs_of (?l # out) \<union> seqs_of rs \<and>
      sorted_wrt apart (merge_loop (?l # out) rs) \<and> (\<forall>r \<in> set (merge_loop (?l # out) rs). range_ok r)"
      using 3(1) [OF True ok] by blast
    moreover have "merge_loop (l # out) (r # rs) = merge_loop (?l # out) rs" using True by simp
    ultimately show ?thesis unfolding seqs_of_simps cov by (simp only: Un_ac simp_thms) blast
  next
    case False
    then have ap: "apart l r" by (simp add: apart_def)
    have "apart l' r" if "l' \<in> set out" for l'
    proof -
      have "apart l' l" using 3(5) that by simp
      then show ?thesis using 3(6) by (auto simp: apart_def intro: less_le_trans)
    qed
    with ap have "sorted_wrt (\<lambda>a b. apart b a) (r # l # out)" using 3(5) by auto
    moreover have "\<forall>l' \<in> set (r # l # out). \<forall>r' \<in> set rs. rLo l' \<le> rLo r'" using 3(4,6) by auto
    ultimately show ?thesis using False 3(2) 3(3,4) by auto
  qed
qed

lemma intersectsAny_iff:
  assumes "sorted_wrt apart iv" and "\<forall>c \<in> set iv. range_ok c" and "rLo r \<le> rHi r"
  shows "intersectsAny iv r \<longleftrightarrow> seqs_of iv \<inter> {rLo r..rHi r} \<noteq> {}"
  using assms
proof (induction iv)
  case (Cons c iv)
  have later: "rLo c \<le> rLo d" if "d \<in> set iv" for d
  proof -
    have "rHi c + 1 < rLo d" "rLo c \<le> rHi c" "rHi c \<noteq> - 1" using Cons.prems that by (auto simp: apart_def range_ok_def)
    then show ?thesis using u64_less_succ [of "rHi c"] by auto
  qed
  show ?case
  proof (cases "rLo c > rHi r")
    case True
    then have "rHi r < rLo d" if "d \<in> set (c # iv)" for d using that later by (auto intro: less_le_trans)
    then have "seqs_of (c # iv) \<inter> {rLo r..rHi r} = {}" by (fastforce simp: seqs_of_def)
    then show ?thesis using True by simp
  next
    case False
    show ?thesis
    proof (cases "rHi c \<ge> rLo r")
      case True
      then have "max (rLo c) (rLo r) \<in> {rLo c..rHi c} \<inter> {rLo r..rHi r}"
        using False Cons.prems by (auto simp: range_ok_def)
      then have "seqs_of (c # iv) \<inter> {rLo r..rHi r} \<noteq> {}" unfolding seqs_of_simps by blast
      then show ?thesis using True False by simp
    next
      case False
      then have "{rLo c..rHi c} \<inter> {rLo r..rHi r} = {}" by auto
      then show ?thesis using False \<open>\<not> rLo c > rHi r\<close> Cons by (auto simp: Int_Un_distrib2)
    qed
  qed
qed simp

section \<open>The plan\<close>

lemma plan_ranges_correct:
  assumes "plan_ranges coverage m orig miss res = (res', full)"
    and "length (Ranges res) \<le> m" "length (Unserveable res) \<le> m"
  shows "dots (Ranges res' @ Unserveable res') \<subseteq> dots (Ranges res @ Unserveable res) \<union> {orig} \<times> seqs miss \<and>
    length (Ranges res') \<le> m \<and> length (Unserveable res') \<le> m \<and>
    (length (Ranges res') < m \<and> length (Unserveable res') < m \<longrightarrow>
      \<not> full \<and> dots (Ranges res' @ Unserveable res') = dots (Ranges res @ Unserveable res) \<union> {orig} \<times> seqs miss) \<and>
    length (Ranges res) \<le> length (Ranges res') \<and> length (Unserveable res) \<le> length (Unserveable res') \<and>
    (\<forall>r \<in> set (Unserveable res') - set (Unserveable res). rOrigin r = orig \<and>
      (\<exists>cov. coverage = Some cov \<and> \<not> intersectsAny (cov orig) r))"
  using assms
proof (induction coverage m orig miss res rule: plan_ranges.induct)
  case (2 coverage m orig r miss res)
  let ?tr = "\<lparr>rOrigin = orig, rLo = Lo r, rHi = Hi r\<rparr>"
  let ?un = "case coverage of None \<Rightarrow> False | Some cov \<Rightarrow> \<not> OpenEnded ?tr \<and> \<not> intersectsAny (cov orig) ?tr"
  let ?res = "if ?un then if length (Unserveable res) < m then res\<lparr>Unserveable := Unserveable res @ [?tr]\<rparr> else res
                 else if length (Ranges res) < m then res\<lparr>Ranges := Ranges res @ [?tr]\<rparr> else res"
  have s: "dots (Ranges ?res @ Unserveable ?res) \<subseteq> dots (Ranges res @ Unserveable res) \<union> {orig} \<times> {Lo r..Hi r}"
    "length (Ranges ?res) \<le> m" "length (Unserveable ?res) \<le> m"
    "length (Ranges ?res) < m \<and> length (Unserveable ?res) < m \<Longrightarrow>
      dots (Ranges ?res @ Unserveable ?res) = dots (Ranges res @ Unserveable res) \<union> {orig} \<times> {Lo r..Hi r}"
    "length (Ranges res) \<le> length (Ranges ?res)" "length (Unserveable res) \<le> length (Unserveable ?res)"
    "\<forall>x \<in> set (Unserveable ?res) - set (Unserveable res). x = ?tr \<and> (\<exists>cov. coverage = Some cov \<and> \<not> intersectsAny (cov orig) ?tr)"
    using 2(3,4) by (auto split: if_splits option.splits)
  show ?case
  proof (cases "length (Ranges ?res) \<ge> m \<and> length (Unserveable ?res) \<ge> m")
    case True
    then have "res' = ?res" "full" using 2(2) by (simp_all add: Let_def)
    then show ?thesis using s True by auto
  next
    case False
    then have step: "plan_ranges coverage m orig miss ?res = (res', full)" using 2(2) by (simp only: plan_ranges.simps Let_def if_False)
    note IH = 2(1) [OF refl refl refl False step s(2,3)]
    show ?thesis
    proof (intro conjI impI ballI)
      show "dots (Ranges res' @ Unserveable res') \<subseteq> dots (Ranges res @ Unserveable res) \<union> {orig} \<times> seqs (r # miss)"
        using IH s(1) by (simp add: Sigma_Un_distrib2) blast
      show "length (Ranges res') \<le> m" "length (Unserveable res') \<le> m" using IH by simp_all
      show "length (Ranges res) \<le> length (Ranges res')" "length (Unserveable res) \<le> length (Unserveable res')"
        using IH s(5,6) by linarith+
      assume lt: "length (Ranges res') < m \<and> length (Unserveable res') < m"
      then show "\<not> full" using IH by simp
      have "dots (Ranges ?res @ Unserveable ?res) = dots (Ranges res @ Unserveable res) \<union> {orig} \<times> {Lo r..Hi r}"
        by (rule s(4)) (use IH lt in linarith)
      then show "dots (Ranges res' @ Unserveable res') = dots (Ranges res @ Unserveable res) \<union> {orig} \<times> seqs (r # miss)"
        using IH lt by (simp add: Sigma_Un_distrib2 Un_assoc)
    next
      fix x assume x: "x \<in> set (Unserveable res') - set (Unserveable res)"
      have "rOrigin x = orig \<and> (\<exists>cov. coverage = Some cov \<and> \<not> intersectsAny (cov orig) x)"
      proof (cases "x \<in> set (Unserveable ?res)")
        case True
        then have "x = ?tr \<and> (\<exists>cov. coverage = Some cov \<and> \<not> intersectsAny (cov orig) ?tr)" using s(7) x by blast
        then show ?thesis by fastforce
      next
        case False
        then show ?thesis using IH x by blast
      qed
      then show "rOrigin x = orig" "\<exists>cov. coverage = Some cov \<and> \<not> intersectsAny (cov orig) x" by blast+
    qed
  qed
qed simp

text \<open>Everything one round could ask for.\<close>

definition wanted :: "cache \<Rightarrow> (origin \<rightharpoonup> seq) \<Rightarrow> origin list \<Rightarrow> (origin \<times> seq) set" where
  "wanted c tips origs = (\<Union>orig \<in> set origs. case tips orig of None \<Rightarrow> {} | Some t \<Rightarrow> {orig} \<times> seqs (MissingRangesUpTo c orig t))"

lemma Un_chain: "A \<subseteq> B \<union> W \<Longrightarrow> B \<subseteq> C \<union> M \<Longrightarrow> A \<subseteq> C \<union> (M \<union> W)"
  by blast

lemma plan_origins_correct:
  assumes "length (Ranges res) \<le> m" "length (Unserveable res) \<le> m"
    and "res' = plan_origins c coverage m tips origs res"
  shows "dots (Ranges res' @ Unserveable res') \<subseteq> dots (Ranges res @ Unserveable res) \<union> wanted c tips origs \<and>
    length (Ranges res') \<le> m \<and> length (Unserveable res') \<le> m \<and>
    (length (Ranges res') < m \<and> length (Unserveable res') < m \<longrightarrow>
      dots (Ranges res' @ Unserveable res') = dots (Ranges res @ Unserveable res) \<union> wanted c tips origs) \<and>
    length (Ranges res) \<le> length (Ranges res') \<and> length (Unserveable res) \<le> length (Unserveable res') \<and>
    (\<forall>r \<in> set (Unserveable res') - set (Unserveable res). \<exists>cov. coverage = Some cov \<and> \<not> intersectsAny (cov (rOrigin r)) r)"
  using assms
proof (induction origs arbitrary: res res')
  case (Cons orig origs)
  show ?case
  proof (cases "\<exists>t. tips orig = Some t \<and> MissingRangesUpTo c orig t \<noteq> []")
    case False
    then have "res' = plan_origins c coverage m tips origs res" using Cons.prems(3) by (auto split: option.splits)
    moreover have "wanted c tips (orig # origs) = wanted c tips origs"
      using False by (auto simp: wanted_def split: option.splits)
    ultimately show ?thesis using Cons.IH [OF Cons.prems(1,2)] by simp
  next
    case True
    then obtain t where t: "tips orig = Some t" "MissingRangesUpTo c orig t \<noteq> []" by blast
    let ?miss = "MissingRangesUpTo c orig t" and ?r0 = "res\<lparr>Before := (Before res)(orig \<mapsto> AppliedTip c orig)\<rparr>"
    obtain r1 full where r1: "plan_ranges coverage m orig ?miss ?r0 = (r1, full)" by (cases "plan_ranges coverage m orig ?miss ?r0")
    note P = plan_ranges_correct [OF r1, simplified, OF Cons.prems(1,2)]
    have w: "wanted c tips (orig # origs) = {orig} \<times> seqs ?miss \<union> wanted c tips origs" using t by (simp add: wanted_def)
    show ?thesis
    proof (cases full)
      case True
      then have "res' = r1" using Cons.prems(3) t r1 by (simp add: Let_def)
      then show ?thesis using P True unfolding w by fastforce
    next
      case False
      then have res': "res' = plan_origins c coverage m tips origs r1" using Cons.prems(3) t r1 by (simp add: Let_def)
      have len: "length (Ranges r1) \<le> m" "length (Unserveable r1) \<le> m" using P by simp_all
      note I = Cons.IH [OF len res']
      show ?thesis unfolding w
      proof (intro conjI impI ballI)
        show "dots (Ranges res' @ Unserveable res') \<subseteq> dots (Ranges res @ Unserveable res) \<union> ({orig} \<times> seqs ?miss \<union> wanted c tips origs)"
          by (rule Un_chain [OF conjunct1 [OF I]]) (use P in simp)
        show "length (Ranges res') \<le> m" "length (Unserveable res') \<le> m" using I by simp_all
        have "length (Ranges res) \<le> length (Ranges r1)" "length (Unserveable res) \<le> length (Unserveable r1)" using P by simp_all
        moreover have "length (Ranges r1) \<le> length (Ranges res')" "length (Unserveable r1) \<le> length (Unserveable res')"
          using I by simp_all
        ultimately show "length (Ranges res) \<le> length (Ranges res')" "length (Unserveable res) \<le> length (Unserveable res')"
          by linarith+
        assume lt: "length (Ranges res') < m \<and> length (Unserveable res') < m"
        have "length (Ranges r1) \<le> length (Ranges res')" "length (Unserveable r1) \<le> length (Unserveable res')" using I by simp_all
        then have "length (Ranges r1) < m \<and> length (Unserveable r1) < m" using lt by linarith
        then have "dots (Ranges r1 @ Unserveable r1) = dots (Ranges res @ Unserveable res) \<union> {orig} \<times> seqs ?miss"
          using P by simp
        moreover have "dots (Ranges res' @ Unserveable res') = dots (Ranges r1 @ Unserveable r1) \<union> wanted c tips origs"
          using I lt by (simp only: simp_thms)
        ultimately show "dots (Ranges res' @ Unserveable res') = dots (Ranges res @ Unserveable res) \<union> ({orig} \<times> seqs ?miss \<union> wanted c tips origs)"
          by (simp only: Un_assoc)
      next
        fix x assume x: "x \<in> set (Unserveable res') - set (Unserveable res)"
        show "\<exists>cov. coverage = Some cov \<and> \<not> intersectsAny (cov (rOrigin x)) x"
        proof (cases "x \<in> set (Unserveable r1)")
          case True
          then have "x \<in> set (Unserveable r1) - set (Unserveable res)" using x by simp
          then have "rOrigin x = orig" "\<exists>cov. coverage = Some cov \<and> \<not> intersectsAny (cov orig) x" using P by simp_all
          then show ?thesis by simp
        next
          case False
          then have "x \<in> set (Unserveable res') - set (Unserveable r1)" using x by simp
          then show ?thesis using I by simp
        qed
      qed
    qed
  qed
qed (simp add: wanted_def)

section \<open>Narrowing a request\<close>

definition delivered :: "seen \<Rightarrow> (origin \<times> seq) set" where
  "delivered seen = {(orig, s). \<exists>S. seen orig = Some S \<and> s \<in> seqs S}"

definition seen_ok :: "seen \<Rightarrow> bool" where
  "seen_ok seen \<longleftrightarrow> (\<forall>orig S. seen orig = Some S \<longrightarrow> seqset_inv S \<and> - 1 \<notin> seqs S)"

definition closed_range :: "range \<Rightarrow> bool" where
  "closed_range r \<longleftrightarrow> 1 \<le> rLo r \<and> rHi r \<noteq> 0"

lemma subtract_closed_correct:
  assumes "seqset_inv s" and "- 1 \<notin> seqs s" and "1 \<le> lo" and "hi \<noteq> 0"
  shows "dots (subtract_closed orig hi s lo) = {orig} \<times> ({lo..hi} - seqs s) \<and>
    (\<forall>r \<in> set (subtract_closed orig hi s lo). closed_range r \<and> rOrigin r = orig)"
  using assms
proof (induction s arbitrary: lo)
  case Nil
  then show ?case by (auto simp: closed_range_def)
next
  case (Cons sr s)
  have sr: "Lo sr \<le> Hi sr" "Hi sr \<noteq> - 1" and inv: "seqset_inv s" "- 1 \<notin> seqs s"
    using Cons.prems by (auto simp: seqset_inv_Cons)
  have far: "Suc (unat (Hi sr)) < unat x" if "x \<in> seqs s" for x
    using seqs_beyond [OF Cons.prems(1) that] .
  have h1: "unat (Hi sr + 1) = Suc (unat (Hi sr))" using sr(2) by (rule unat_succ_max)
  consider "Hi sr < lo" | "\<not> Hi sr < lo" "Lo sr > hi" | "\<not> Hi sr < lo" "\<not> Lo sr > hi" by blast
  then show ?case
  proof cases
    case 1
    then have "{lo..hi} - seqs (sr # s) = {lo..hi} - seqs s" by auto
    then show ?thesis using 1 Cons.IH [OF inv Cons.prems(3,4)] by simp
  next
    case 2
    then have "{lo..hi} \<inter> seqs (sr # s) = {}"
      using far sr by (fastforce simp: word_le_nat_alt word_less_nat_alt)
    then have "{lo..hi} - seqs (sr # s) = {lo..hi}" by blast
    then show ?thesis using 2 Cons.prems(3,4) by (auto simp: closed_range_def)
  next
    case 3
    let ?out = "if Lo sr > lo then [\<lparr>rOrigin = orig, rLo = lo, rHi = Lo sr - 1\<rparr>] else []"
    have out: "dots ?out = {orig} \<times> {x. lo \<le> x \<and> x < Lo sr}" "\<forall>r \<in> set ?out. closed_range r \<and> rOrigin r = orig"
      using Cons.prems(3) by (auto simp: closed_range_def word_le_nat_alt word_less_nat_alt unat_sub word_unat_eq_iff)
    have "1 \<le> Hi sr + 1" using h1 by (simp add: word_le_nat_alt)
    note IH = Cons.IH [OF inv this Cons.prems(4)]
    have split: "{lo..hi} - seqs (sr # s) = {x. lo \<le> x \<and> x < Lo sr} \<union> ({Hi sr + 1..hi} - seqs s)"
      using 3 sr far h1 by (fastforce simp: word_le_nat_alt word_less_nat_alt)
    have eq: "subtract_closed orig hi (sr # s) lo = ?out @ (if Hi sr + 1 > hi then [] else subtract_closed orig hi s (Hi sr + 1))"
    proof -
      have c: "(Hi sr < lo) = False" "(hi < Lo sr) = False" "(lo \<le> Hi sr) = True" using 3 by auto
      show ?thesis by (simp only: subtract_closed.simps Let_def c if_False if_True) simp
    qed
    show ?thesis unfolding eq split using out IH
      by (cases "Hi sr + 1 > hi") (auto simp: Sigma_Un_distrib2)
  qed
qed

lemma remaining_correct:
  assumes "seen_ok seen" and "list_all closed_range rs"
  shows "dots (remaining rs seen) = dots rs - delivered seen \<and> list_all closed_range (remaining rs seen)"
  using assms(2)
proof (induction rs)
  case (Cons r rs)
  let ?part = "case seen (rOrigin r) of None \<Rightarrow> [r] | Some s \<Rightarrow> if SeqSet_IsEmpty s then [r] else subtractRange r s"
  have r: "1 \<le> rLo r" "rHi r \<noteq> 0" "\<not> OpenEnded r" using Cons.prems by (auto simp: closed_range_def OpenEnded_def)
  have "dots ?part = ({rOrigin r} \<times> {rLo r..rHi r}) - delivered seen \<and> list_all closed_range ?part"
  proof (cases "seen (rOrigin r)")
    case None
    then show ?thesis using Cons.prems by (auto simp: delivered_def)
  next
    case (Some s)
    then have s: "seqset_inv s" "- 1 \<notin> seqs s" using assms(1) by (auto simp: seen_ok_def)
    show ?thesis
    proof (cases "SeqSet_IsEmpty s")
      case True
      then show ?thesis using Some Cons.prems by (auto simp: delivered_def SeqSet_IsEmpty_def)
    next
      case False
      then show ?thesis using Some r subtract_closed_correct [OF s r(1,2), of "rOrigin r"]
        by (auto simp: delivered_def subtractRange_def list_all_iff)
    qed
  qed
  then show ?case using Cons by (simp add: remaining_def Un_Diff)
qed (simp add: remaining_def)

lemma wrappedApply_ok:
  assumes "seen_ok seen" and "\<forall>orig. parseDot p \<noteq> Some (orig, - 1)" and "wrappedApply apply p (w, seen) = (w', seen')"
  shows "seen_ok seen' \<and> delivered seen \<subseteq> delivered seen' \<and>
    (\<forall>d \<in> delivered seen' - delivered seen. parseDot p = Some d \<and> (\<exists>w w'. apply p w = (None, w')))"
proof -
  obtain e w1 where a: "apply p w = (e, w1)" by (cases "apply p w")
  show ?thesis
  proof (cases "e = None \<and> parseDot p \<noteq> None")
    case False
    then have "seen' = seen" using assms(3) a by (auto simp: wrappedApply_def split: option.splits)
    then show ?thesis using assms(1) by simp
  next
    case True
    then obtain orig s where p: "parseDot p = Some (orig, s)" by (cases "parseDot p") auto
    let ?S = "case seen orig of None \<Rightarrow> [] | Some s \<Rightarrow> s"
    have S: "seqset_inv ?S" "- 1 \<notin> seqs ?S" using assms(1) by (auto simp: seen_ok_def split: option.split)
    have s': "seen' = seen(orig \<mapsto> SeqSet_Add ?S s)" using assms(3) a True p by (simp add: wrappedApply_def)
    have add: "seqset_inv (SeqSet_Add ?S s)" "seqs (SeqSet_Add ?S s) = insert s (seqs ?S)"
      using SeqSet_Add_correct [OF S(1), of s] by auto
    have "s \<noteq> - 1" using assms(2) p by auto
    then have "seen_ok seen'" using assms(1) add S by (auto simp: seen_ok_def s')
    moreover have "delivered seen' = insert (orig, s) (delivered seen)"
      using add by (auto simp: delivered_def s' split: option.splits if_splits)
    ultimately show ?thesis using p a True by auto
  qed
qed

lemma wrappedApply_fold:
  assumes "seen_ok seen" and "\<forall>p \<in> set ps. \<forall>orig. parseDot p \<noteq> Some (orig, - 1)"
    and "fold (wrappedApply apply) ps (w, seen) = (w', seen')"
  shows "seen_ok seen' \<and> delivered seen \<subseteq> delivered seen' \<and>
    (\<forall>d \<in> delivered seen' - delivered seen. \<exists>p w w'. parseDot p = Some d \<and> apply p w = (None, w'))"
  using assms
proof (induction ps arbitrary: w seen)
  case (Cons p ps)
  obtain w1 seen1 where s1: "wrappedApply apply p (w, seen) = (w1, seen1)" by (cases "wrappedApply apply p (w, seen)")
  have step: "seen_ok seen1 \<and> delivered seen \<subseteq> delivered seen1 \<and>
    (\<forall>d \<in> delivered seen1 - delivered seen. parseDot p = Some d \<and> (\<exists>w w'. apply p w = (None, w')))"
    by (rule wrappedApply_ok [OF Cons.prems(1) _ s1]) (use Cons.prems(2) in auto)
  have "seen_ok seen' \<and> delivered seen1 \<subseteq> delivered seen' \<and>
    (\<forall>d \<in> delivered seen' - delivered seen1. \<exists>p w w'. parseDot p = Some d \<and> apply p w = (None, w'))"
    by (rule Cons.IH [of seen1 w1]) (use step Cons.prems s1 in auto)
  with step show ?case by blast
qed auto

lemma chain_loop_mono:
  assumes "seen_ok seen" and "\<forall>f \<in> set fs. \<forall>rs w. \<forall>p \<in> set (fst (f rs w)). \<forall>orig. parseDot p \<noteq> Some (orig, - 1)"
    and "chain_loop apply fs current (w, seen) err = (cur, (w', seen'), err')"
  shows "delivered seen \<subseteq> delivered seen'"
  using assms
proof (induction fs arbitrary: current w seen err)
  case (Cons f fs)
  show ?case
  proof (cases "current = []")
    case False
    obtain ps e where f: "f current w = (ps, e)" by (cases "f current w")
    obtain w1 seen1 where s1: "fold (wrappedApply apply) ps (w, seen) = (w1, seen1)"
      by (cases "fold (wrappedApply apply) ps (w, seen)")
    have "\<forall>p \<in> set ps. \<forall>orig. parseDot p \<noteq> Some (orig, - 1)" using Cons.prems(2) f by (metis fst_conv list.set_intros(1))
    note step = wrappedApply_fold [OF Cons.prems(1) this s1]
    have "chain_loop apply fs (remaining current seen1) (w1, seen1) (case e of None \<Rightarrow> err | Some e \<Rightarrow> Some e) = (cur, (w', seen'), err')"
      using Cons.prems(3) False f s1 by (simp add: Let_def)
    from Cons.IH [OF _ _ this] step Cons.prems(2) show ?thesis by auto
  qed (use Cons.prems in auto)
qed auto

lemma chain_loop_correct:
  assumes "list_all closed_range current" and "seen_ok seen" and "dots current \<inter> delivered seen = {}"
    and "\<forall>f \<in> set fs. \<forall>rs w. \<forall>p \<in> set (fst (f rs w)). \<forall>orig. parseDot p \<noteq> Some (orig, - 1)"
    and "\<forall>d \<in> delivered seen. \<exists>p w w'. parseDot p = Some d \<and> apply p w = (None, w')"
    and "chain_loop apply fs current (w, seen) err = (cur, (w', seen'), err')"
  shows "dots cur = dots current - delivered seen' \<and> list_all closed_range cur \<and>
    (\<forall>d \<in> delivered seen'. \<exists>p w w'. parseDot p = Some d \<and> apply p w = (None, w'))"
  using assms
proof (induction fs arbitrary: current w seen err)
  case (Cons f fs)
  show ?case
  proof (cases "current = []")
    case True
    then show ?thesis using Cons.prems by auto
  next
    case False
    obtain ps e where f: "f current w = (ps, e)" by (cases "f current w")
    obtain w1 seen1 where s1: "fold (wrappedApply apply) ps (w, seen) = (w1, seen1)"
      by (cases "fold (wrappedApply apply) ps (w, seen)")
    have "\<forall>p \<in> set ps. \<forall>orig. parseDot p \<noteq> Some (orig, - 1)" using Cons.prems(4) f by (metis fst_conv list.set_intros(1))
    note step = wrappedApply_fold [OF Cons.prems(2) this s1]
    then have ok1: "seen_ok seen1" by blast
    note rem = remaining_correct [OF ok1 Cons.prems(1)]
    have all1: "\<forall>d \<in> delivered seen1. \<exists>p w w'. parseDot p = Some d \<and> apply p w = (None, w')"
      using step Cons.prems(5) by blast
    have loop: "chain_loop apply fs (remaining current seen1) (w1, seen1) (case e of None \<Rightarrow> err | Some e \<Rightarrow> Some e) = (cur, (w', seen'), err')"
      using Cons.prems(6) False f s1 by (simp add: Let_def)
    have IH: "dots cur = dots (remaining current seen1) - delivered seen' \<and> list_all closed_range cur \<and>
      (\<forall>d \<in> delivered seen'. \<exists>p w w'. parseDot p = Some d \<and> apply p w = (None, w'))"
      by (rule Cons.IH [OF _ ok1 _ _ all1 loop]) (use rem Cons.prems(4) in auto)
    have "delivered seen1 \<subseteq> delivered seen'" using chain_loop_mono [OF ok1 _ loop] Cons.prems(4) by simp
    with IH rem show ?thesis by auto
  qed
qed auto

lemma plan_tips_self: "plan_tips c self' ts self' = None"
  by (simp add: plan_tips_def Let_def merge_tips_def split: option.split sum.split)

lemma wanted_iff:
  assumes "cache_inv c" and "self c = self'" and "\<forall>orig. - 1 \<notin> seqs (gaps_at c orig)" and "tips self' = None" and "0 < s"
  shows "(orig, s) \<in> wanted c tips origs \<longleftrightarrow> orig \<in> set origs \<and> (\<exists>t. tips orig = Some t \<and> s \<le> t) \<and> \<not> IsAppliedRemote c orig s"
proof (cases "tips orig")
  case (Some t)
  then have "orig \<noteq> self c" using assms(2,4) by auto
  moreover have "front_ok c orig" using assms(1) by (simp add: cache_inv_def)
  ultimately show ?thesis using missing_ranges_iff [of c orig s t] assms(3,5) Some
    by (auto simp: wanted_def split: option.splits)
qed (auto simp: wanted_def split: option.splits)

section \<open>Properties\<close>





text \<open>
  Probing for ranges no source covers is paced. After a probe that filled nothing, a call before
  the interval has passed does nothing at all; a probe that filled a gap, and a kick from a
  new peer, make the next call probe at once; and the round interval doubles without
  progress, never beyond the cap.
\<close>

theorem probe_pacing:
  assumes "Probe p c res now fetch = (p', c', True, filled, err)" and "Unserveable res' \<noteq> []" and "0 \<le> now'"
    and "base \<le> mx" and "cur \<le> mx"
  shows "(\<not> filled \<and> now' < now + (if prInterval p \<le> 0 then defaultProbeInterval else prInterval p) \<longrightarrow>
      Probe p' c'' res' now' fetch' = (p', c'', False, False, None)) \<and>
    (filled \<longrightarrow> (\<exists>q d f e. Probe p' c'' res' now' fetch' = (q, d, True, f, e))) \<and>
    (\<exists>q d f e. Probe (Kick p') c'' res' now' fetch' = (q, d, True, f, e)) \<and>
    NextInterval cur base mx issued progressed \<le> mx"
proof -
  have p': "p' = (if filled then Kick p else p\<lparr>prNext := now + (if prInterval p \<le> 0 then defaultProbeInterval else prInterval p)\<rparr>)"
    using assms(1) by (auto simp: Probe_def Let_def Kick_def split: if_splits prod.splits)
  show ?thesis using assms(2-5) unfolding p'
    by (auto simp: Probe_def Let_def Kick_def NextInterval_def split: prod.splits)
qed

theorem probe_pacing_witness:
  "let res = \<lparr>Ranges = [], Unserveable = [\<lparr>rOrigin = 2, rLo = 1, rHi = 3\<rparr>], Before = Map.empty, Discovered = None, TipErr = None\<rparr>;
       p' = \<lparr>prInterval = 10, prNext = 15\<rparr> in
   Probe p' (NewCache 1) res 14 (\<lambda>rs c. (c, None)) = (p', NewCache 1, False, False, None)"
proof -
  let ?res = "\<lparr>Ranges = [], Unserveable = [\<lparr>rOrigin = 2, rLo = 1, rHi = 3\<rparr>], Before = Map.empty, Discovered = None, TipErr = None\<rparr>"
  have "Probe \<lparr>prInterval = 10, prNext = 0\<rparr> (NewCache 1) ?res 5 (\<lambda>rs c. (c, None)) =
    (\<lparr>prInterval = 10, prNext = 15\<rparr>, NewCache 1, True, False, None)"
    by (simp add: Probe_def Let_def)
  from probe_pacing [OF this, of ?res 14 0 0 0] show ?thesis by (simp add: Let_def)
qed

end
