(* ===== verification/Meta_Store.thy ===== *)
theory Meta_Store
  imports Node_State
begin

text \<open>
  The part of \<open>internal/metadata\<close> that holds the node's clocks between runs: the tables \<open>row_clock\<close>,
  \<open>cell_clock\<close>, \<open>frontier\<close> and \<open>sender_seq\<close>, and the blobs \<open>hlc_last\<close>, \<open>applied_gaps\<close> and
  \<open>snapshot_markers\<close> of the table \<open>meta\<close>. A table is a map from its primary key to its columns; each
  statement is the update its SQL text describes. Integer columns are 64-bit patterns, so Go's
  conversions between \<open>int64\<close> and \<open>uint64\<close> are the identity; clocks are stored packed.
\<close>

section \<open>Tables\<close>

record meta_store =
  row_clock :: "row_key \<rightharpoonup> u64 \<times> u64 \<times> u64"
  cell_clock :: "row_key \<times> column_id \<rightharpoonup> u64 \<times> u64"
  frontier_tbl :: "origin \<rightharpoonup> u64 \<times> u64"
  sender_seq :: "origin \<rightharpoonup> u64"
  hlc_last :: "u64 option"
  applied_gaps :: "bytes option"
  snapshot_markers :: "bytes option"

definition empty_store :: meta_store where
  "empty_store = \<lparr>row_clock = Map.empty, cell_clock = Map.empty, frontier_tbl = Map.empty, sender_seq = Map.empty,
     hlc_last = None, applied_gaps = None, snapshot_markers = None\<rparr>"

definition putRowClock :: "row_key \<Rightarrow> u64 \<Rightarrow> stamp \<Rightarrow> meta_store \<Rightarrow> meta_store result" where
  "putRowClock k cl base m = bindE (Pack (StampClock base)) (\<lambda>h.
     Inr (m\<lparr>row_clock := (row_clock m)(k \<mapsto> (cl, h, Origin base))\<rparr>))"

definition putCellClock :: "row_key \<Rightarrow> column_id \<Rightarrow> stamp \<Rightarrow> meta_store \<Rightarrow> meta_store result" where
  "putCellClock k col s m = bindE (Pack (StampClock s)) (\<lambda>h.
     Inr (m\<lparr>cell_clock := (cell_clock m)((k, col) \<mapsto> (h, Origin s))\<rparr>))"

definition deleteCellClock :: "row_key \<Rightarrow> column_id \<Rightarrow> meta_store \<Rightarrow> meta_store" where
  "deleteCellClock k col m = m\<lparr>cell_clock := (cell_clock m)((k, col) := None)\<rparr>"

definition deleteCellClocksForRow :: "row_key \<Rightarrow> meta_store \<Rightarrow> meta_store" where
  "deleteCellClocksForRow k m = m\<lparr>cell_clock := (\<lambda>(k', col). if k' = k then None else cell_clock m (k', col))\<rparr>"

definition advanceFrontier :: "origin \<Rightarrow> seq \<Rightarrow> clock \<Rightarrow> meta_store \<Rightarrow> meta_store result" where
  "advanceFrontier orig seq hlc m = bindE (Pack hlc) (\<lambda>h. Inr (m\<lparr>frontier_tbl := (frontier_tbl m)(orig \<mapsto> (seq, h))\<rparr>))"

definition deleteFrontier :: "origin \<Rightarrow> meta_store \<Rightarrow> meta_store" where
  "deleteFrontier orig m = m\<lparr>frontier_tbl := (frontier_tbl m)(orig := None)\<rparr>"

definition PutSenderSeq :: "origin \<Rightarrow> seq \<Rightarrow> meta_store \<Rightarrow> meta_store" where
  "PutSenderSeq orig next m = m\<lparr>sender_seq := (sender_seq m)(orig \<mapsto> next)\<rparr>"

definition SetHLCLast :: "clock \<Rightarrow> meta_store \<Rightarrow> meta_store result" where
  "SetHLCLast c m = bindE (Pack c) (\<lambda>h. Inr (m\<lparr>hlc_last := Some h\<rparr>))"

definition GetHLCLast :: "meta_store \<Rightarrow> clock" where
  "GetHLCLast m = (case hlc_last m of None \<Rightarrow> Clock 0 0 | Some h \<Rightarrow> UnpackClock h)"

section \<open>Scans\<close>

text \<open>The scans of the clock tables return their rows in an order SQLite chooses.\<close>

record full_row_clock_entry =
  frKey :: row_key
  frCL :: u64
  frBase :: stamp

record full_cell_clock_entry =
  fcKey :: row_key
  fcColumn :: column_id
  fcStamp :: stamp

definition AllRowClocks :: "row_key list \<Rightarrow> meta_store \<Rightarrow> full_row_clock_entry list" where
  "AllRowClocks scan m = concat (map (\<lambda>k. case row_clock m k of
       None \<Rightarrow> []
     | Some (cl, h, orig) \<Rightarrow> [\<lparr>frKey = k, frCL = cl, frBase = Stamp (UnpackClock h) orig\<rparr>]) scan)"

definition AllCellClocks :: "(row_key \<times> column_id) list \<Rightarrow> meta_store \<Rightarrow> full_cell_clock_entry list" where
  "AllCellClocks scan m = concat (map (\<lambda>(k, col). case cell_clock m (k, col) of
       None \<Rightarrow> []
     | Some (h, orig) \<Rightarrow> [\<lparr>fcKey = k, fcColumn = col, fcStamp = Stamp (UnpackClock h) orig\<rparr>]) scan)"

definition Store_Frontier :: "meta_store \<Rightarrow> origin \<rightharpoonup> frontier_entry" where
  "Store_Frontier m orig =
     map_option (\<lambda>(seq, h). \<lparr>LastSeq = seq, LastHLC = UnpackClock h\<rparr>) (frontier_tbl m orig)"

definition SenderSeqs :: "meta_store \<Rightarrow> origin \<rightharpoonup> seq" where
  "SenderSeqs m = sender_seq m"

section \<open>Blobs\<close>

text \<open>Go visits a map in an unspecified order; \<open>order\<close> lists its keys in the order of the visit.\<close>

definition readU32 :: "bytes \<Rightarrow> (u32 \<times> bytes) result" where
  "readU32 b = (if length b < 4 then Inl ErrShortBuffer else Inr (be_word (take 4 b), drop 4 b))"

definition readU64 :: "bytes \<Rightarrow> (u64 \<times> bytes) result" where
  "readU64 b = (if length b < 8 then Inl ErrShortBuffer else Inr (be_word (take 8 b), drop 8 b))"

definition encodeGapRange :: "seq_range \<Rightarrow> bytes" where
  "encodeGapRange r = put_u64 (Lo r) @ put_u64 (Hi r)"

definition encodeGapEntry :: "(origin \<rightharpoonup> seqset) \<Rightarrow> origin \<Rightarrow> bytes" where
  "encodeGapEntry m orig =
     (let rs = (case m orig of None \<Rightarrow> [] | Some s \<Rightarrow> s)
      in put_u64 orig @ put_u32 (word_of_nat (length rs)) @ concat (map encodeGapRange rs))"

definition encodeAppliedGaps :: "origin list \<Rightarrow> (origin \<rightharpoonup> seqset) \<Rightarrow> bytes" where
  "encodeAppliedGaps order m = put_u32 (word_of_nat (length order)) @ concat (map (encodeGapEntry m) order)"

text \<open>
  The loop \<open>for s := lo; s <= hi; s++ { ss.Add(s) }\<close>: when \<open>hi\<close> is the largest \<open>uint64\<close> its condition
  always holds, so it is a partial function; \<open>None\<close> is not returning.
\<close>

partial_function (option) add_range :: "u64 \<Rightarrow> u64 \<Rightarrow> seqset \<Rightarrow> seqset option" where
  "add_range s hi ss = (if s \<le> hi then add_range (s + 1) hi (SeqSet_Add ss s) else Some ss)"

fun decodeGapRanges :: "nat \<Rightarrow> bytes \<Rightarrow> seqset \<Rightarrow> (seqset \<times> bytes) result option" where
  "decodeGapRanges 0 b ss = Some (Inr (ss, b))"
| "decodeGapRanges (Suc n) b ss =
     (case bindE (readU64 b) (\<lambda>(lo, b). bindE (readU64 b) (\<lambda>(hi, b). Inr (lo, hi, b))) of
        Inl e \<Rightarrow> Some (Inl e)
      | Inr (lo, hi, b) \<Rightarrow> (case add_range lo hi ss of None \<Rightarrow> None | Some ss \<Rightarrow> decodeGapRanges n b ss))"

fun decodeGapEntries :: "nat \<Rightarrow> bytes \<Rightarrow> (origin \<rightharpoonup> seqset) \<Rightarrow> (origin \<rightharpoonup> seqset) result option" where
  "decodeGapEntries 0 b out = Some (Inr out)"
| "decodeGapEntries (Suc n) b out =
     (case bindE (readU64 b) (\<lambda>(orig, b). bindE (readU32 b) (\<lambda>(nr, b). Inr (orig, nr, b))) of
        Inl e \<Rightarrow> Some (Inl e)
      | Inr (orig, nr, b) \<Rightarrow>
        (case decodeGapRanges (unat nr) b [] of
           None \<Rightarrow> None
         | Some (Inl e) \<Rightarrow> Some (Inl e)
         | Some (Inr (ss, b)) \<Rightarrow> decodeGapEntries n b (out(orig \<mapsto> ss))))"

definition decodeAppliedGaps :: "bytes \<Rightarrow> (origin \<rightharpoonup> seqset) result option" where
  "decodeAppliedGaps b =
     (case readU32 b of Inl e \<Rightarrow> Some (Inl e) | Inr (n, b) \<Rightarrow> decodeGapEntries (unat n) b Map.empty)"

definition encodeMarkers :: "origin list \<Rightarrow> (origin \<rightharpoonup> u64) \<Rightarrow> bytes" where
  "encodeMarkers order m = put_u32 (word_of_nat (length order)) @
     concat (map (\<lambda>orig. put_u64 orig @ put_u64 (seq_at m orig)) order)"

fun decodeMarkerEntries :: "nat \<Rightarrow> bytes \<Rightarrow> (origin \<rightharpoonup> u64) \<Rightarrow> (origin \<rightharpoonup> u64) result" where
  "decodeMarkerEntries 0 b out = Inr out"
| "decodeMarkerEntries (Suc n) b out =
     bindE (readU64 b) (\<lambda>(orig, b). bindE (readU64 b) (\<lambda>(off, b). decodeMarkerEntries n b (out(orig \<mapsto> off))))"

definition decodeMarkers :: "bytes \<Rightarrow> (origin \<rightharpoonup> u64) result" where
  "decodeMarkers b = bindE (readU32 b) (\<lambda>(n, b). decodeMarkerEntries (unat n) b Map.empty)"

definition SetAppliedGaps :: "origin list \<Rightarrow> (origin \<rightharpoonup> seqset) \<Rightarrow> meta_store \<Rightarrow> meta_store" where
  "SetAppliedGaps order gaps m = m\<lparr>applied_gaps := Some (encodeAppliedGaps order gaps)\<rparr>"

definition GetAppliedGaps :: "meta_store \<Rightarrow> (origin \<rightharpoonup> seqset) result option" where
  "GetAppliedGaps m = (case applied_gaps m of None \<Rightarrow> Some (Inr Map.empty) | Some b \<Rightarrow> decodeAppliedGaps b)"

definition SetSnapshotMarkers :: "origin list \<Rightarrow> (origin \<rightharpoonup> u64) \<Rightarrow> meta_store \<Rightarrow> meta_store" where
  "SetSnapshotMarkers order ms m = m\<lparr>snapshot_markers := Some (encodeMarkers order ms)\<rparr>"

definition GetSnapshotMarkers :: "meta_store \<Rightarrow> (origin \<rightharpoonup> u64) result" where
  "GetSnapshotMarkers m = (case snapshot_markers m of None \<Rightarrow> Inr Map.empty | Some b \<Rightarrow> decodeMarkers b)"

section \<open>The loop over a stored range\<close>

lemma add_range_correct:
  assumes "seqset_inv ss" and "hi \<noteq> - 1"
  shows "\<exists>ss'. add_range s hi ss = Some ss' \<and> seqset_inv ss' \<and> seqs ss' = seqs ss \<union> {s..hi}"
  using assms(1)
proof (induction "unat (hi + 1) - unat s" arbitrary: s ss rule: less_induct)
  case less
  have h: "unat (hi + 1) = Suc (unat hi)" using assms(2) by (rule unat_succ_max)
  show ?case
  proof (cases "s \<le> hi")
    case False
    then show ?thesis using less.prems by (subst add_range.simps) auto
  next
    case True
    then have s: "unat (s + 1) = Suc (unat s)" using assms(2) by (intro unat_succ_max) (auto dest: word_order.extremum_uniqueI)
    have "unat (hi + 1) - unat (s + 1) < unat (hi + 1) - unat s" using s h True by (simp add: word_le_nat_alt)
    moreover have "seqset_inv (SeqSet_Add ss s)" using SeqSet_Add_correct [OF less.prems] by simp
    ultimately obtain ss' where "add_range (s + 1) hi (SeqSet_Add ss s) = Some ss'" "seqset_inv ss'"
      "seqs ss' = seqs (SeqSet_Add ss s) \<union> {s + 1..hi}"
      using less.hyps by blast
    moreover have "{s..hi} = insert s {s + 1..hi}"
      using s True by (auto simp: word_le_nat_alt word_unat_eq_iff)
    ultimately show ?thesis using True SeqSet_Add_correct [OF less.prems, of s]
      by (subst add_range.simps) auto
  qed
qed

lemma add_range_diverges: "add_range s (- 1) ss = None"
proof -
  have "hi \<noteq> - 1" if "add_range s hi ss = Some r" for r hi
    by (rule add_range.raw_induct [where P = "\<lambda>s hi ss r. hi \<noteq> - 1", OF _ that]) (auto split: if_splits)
  then show ?thesis by (cases "add_range s (- 1) ss") auto
qed

section \<open>Round trips of the blobs\<close>

lemma readU_put [simp]: "readU64 (put_u64 v @ b) = Inr (v, b)" "readU32 (put_u32 w @ b) = Inr (w, b)"
  "readU64 (put_u64 v) = Inr (v, [])"
  by (simp_all add: readU64_def readU32_def)

lemma unat_u32_of_nat: "n < 2 ^ 32 \<Longrightarrow> unat (word_of_nat n :: u32) = n"
  by (simp add: unat_of_nat)

definition gap_ok :: "seqset \<Rightarrow> bool" where
  "gap_ok s \<longleftrightarrow> seqset_inv s \<and> - 1 \<notin> seqs s \<and> length s < 2 ^ 32"

lemma decodeGapRanges_encode:
  assumes "seqset_inv ss" and "\<forall>r \<in> set rs. Hi r \<noteq> - 1"
  shows "\<exists>ss'. decodeGapRanges (length rs) (concat (map encodeGapRange rs) @ b) ss = Some (Inr (ss', b)) \<and>
    seqset_inv ss' \<and> seqs ss' = seqs ss \<union> seqs rs"
  using assms
proof (induction rs arbitrary: ss)
  case (Cons r rs)
  then obtain ss1 where ss1: "add_range (Lo r) (Hi r) ss = Some ss1" "seqset_inv ss1" "seqs ss1 = seqs ss \<union> {Lo r..Hi r}"
    using add_range_correct [of ss "Hi r" "Lo r"] by auto
  with Cons.IH [OF ss1(2)] Cons.prems(2) obtain ss' where
    "decodeGapRanges (length rs) (concat (map encodeGapRange rs) @ b) ss1 = Some (Inr (ss', b))"
    "seqset_inv ss'" "seqs ss' = seqs ss1 \<union> seqs rs"
    by auto
  then show ?case using ss1 by (simp add: encodeGapRange_def [of r] Un_assoc)
qed simp

lemma gap_ok_Hi: "gap_ok s \<Longrightarrow> r \<in> set s \<Longrightarrow> Hi r \<noteq> - 1"
  by (force simp: gap_ok_def seqset_inv_def seqs_def)

lemma decodeGapRanges_exact:
  assumes "gap_ok s"
  shows "decodeGapRanges (unat (word_of_nat (length s) :: u32)) (concat (map encodeGapRange s) @ b) [] = Some (Inr (s, b))"
proof -
  have "\<forall>r \<in> set s. Hi r \<noteq> - 1" using gap_ok_Hi [OF assms] by blast
  then obtain s' where s': "decodeGapRanges (length s) (concat (map encodeGapRange s) @ b) [] = Some (Inr (s', b))"
    "seqset_inv s'" "seqs s' = seqs s"
    using decodeGapRanges_encode [of "[]" s b] by auto
  with assms have "s' = s" by (auto simp: gap_ok_def intro: seqs_inj)
  then show ?thesis using s' assms by (simp add: gap_ok_def unat_u32_of_nat)
qed

lemma decodeGapEntries_encode:
  assumes "\<forall>orig \<in> set order. \<exists>s. m orig = Some s \<and> gap_ok s"
  shows "decodeGapEntries (length order) (concat (map (encodeGapEntry m) order)) out = Some (Inr (out ++ (m |` set order)))"
  using assms
proof (induction order arbitrary: out)
  case (Cons orig order)
  then obtain s where s: "m orig = Some s" "gap_ok s" by auto
  have "out(orig \<mapsto> s) ++ (m |` set order) = out ++ (m |` set (orig # order))"
    using s by (auto simp: fun_eq_iff map_add_def restrict_map_def split: option.splits)
  then show ?case using Cons s by (simp add: encodeGapEntry_def decodeGapRanges_exact)
qed simp

lemma restrict_dom [simp]: "m |` dom m = m"
  by (simp add: fun_eq_iff restrict_map_def domIff)

definition visits :: "'a list \<Rightarrow> 'a set \<Rightarrow> bool" where
  "visits order A \<longleftrightarrow> distinct order \<and> set order = A"

definition gaps_ok :: "(origin \<rightharpoonup> seqset) \<Rightarrow> bool" where
  "gaps_ok m \<longleftrightarrow> card (dom m) < 2 ^ 32 \<and> (\<forall>s \<in> ran m. gap_ok s)"

lemma visits_length: "visits order A \<Longrightarrow> length order = card A"
  by (auto simp: visits_def distinct_card)

lemma applied_gaps_exact:
  assumes "gaps_ok m" and "visits order (dom m)"
  shows "decodeAppliedGaps (encodeAppliedGaps order m) = Some (Inr m)"
proof -
  have "\<forall>orig \<in> set order. \<exists>s. m orig = Some s \<and> gap_ok s"
    using assms by (auto simp: gaps_ok_def visits_def ran_def)
  from decodeGapEntries_encode [OF this, of Map.empty]
  have "decodeGapEntries (length order) (concat (map (encodeGapEntry m) order)) Map.empty = Some (Inr m)"
    using assms(2) by (simp add: visits_def)
  then show ?thesis using assms visits_length [OF assms(2)]
    by (simp add: decodeAppliedGaps_def encodeAppliedGaps_def gaps_ok_def unat_u32_of_nat)
qed

lemma decodeMarkerEntries_encode:
  assumes "set order \<subseteq> dom m"
  shows "decodeMarkerEntries (length order) (concat (map (\<lambda>orig. put_u64 orig @ put_u64 (seq_at m orig)) order)) out =
    Inr (out ++ (m |` set order))"
  using assms
proof (induction order arbitrary: out)
  case (Cons orig order)
  then obtain v where v: "m orig = Some v" by auto
  have "out(orig \<mapsto> v) ++ (m |` set order) = out ++ (m |` set (orig # order))"
    using v by (auto simp: fun_eq_iff map_add_def restrict_map_def split: option.splits)
  then show ?case using Cons v by (simp add: seq_at_def)
qed simp

lemma markers_exact:
  assumes "card (dom m) < 2 ^ 32" and "visits order (dom m)"
  shows "decodeMarkers (encodeMarkers order m) = Inr m"
proof -
  have "decodeMarkerEntries (length order) (concat (map (\<lambda>orig. put_u64 orig @ put_u64 (seq_at m orig)) order)) Map.empty = Inr m"
    using decodeMarkerEntries_encode [of order m Map.empty] assms(2) by (simp add: visits_def)
  then show ?thesis using assms visits_length [OF assms(2)]
    by (simp add: decodeMarkers_def encodeMarkers_def unat_u32_of_nat)
qed

section \<open>Properties\<close>

text \<open>
  C39: Reading back the applied-gaps blob of a node returns, and gives exactly the sequence sets that
  were written, whatever order the map was visited in, as long as the counts fit the 32-bit fields and
  the largest \<open>uint64\<close> is in no set.
\<close>

theorem applied_gaps_roundtrip:
  assumes "gaps_ok gaps" and "visits order (dom gaps)"
  shows "GetAppliedGaps (SetAppliedGaps order gaps m) = Some (Inr gaps)"
  using applied_gaps_exact [OF assms] by (simp add: GetAppliedGaps_def SetAppliedGaps_def)

theorem applied_gaps_roundtrip_witness:
  "let gaps = [7 \<mapsto> [SeqRange 3 4, SeqRange 9 9], 8 \<mapsto> []] in
   GetAppliedGaps (SetAppliedGaps [8, 7] gaps empty_store) = Some (Inr gaps)"
proof -
  let ?gaps = "[7 \<mapsto> [SeqRange 3 4, SeqRange 9 9], 8 \<mapsto> []] :: origin \<rightharpoonup> seqset"
  have "gaps_ok ?gaps" by (simp add: gaps_ok_def gap_ok_def gap_simps word_le_nat_alt unsigned_minus_1_eq_mask mask_eq_exp_minus_1)
  moreover have "visits [8, 7] (dom ?gaps)" by (auto simp: visits_def)
  ultimately show ?thesis using applied_gaps_roundtrip [of ?gaps "[8, 7]" empty_store] by (simp only: Let_def)
qed

text \<open>
  C40: When a stored range ends at the largest \<open>uint64\<close>, the loop that reads it never leaves: the
  condition \<open>s <= hi\<close> holds for every \<open>s\<close>, so recovery from such a blob does not return.
\<close>

theorem applied_gaps_max_diverges:
  "decodeAppliedGaps (encodeAppliedGaps [orig] [orig \<mapsto> [SeqRange lo (- 1)]]) = None"
  by (simp add: decodeAppliedGaps_def encodeAppliedGaps_def encodeGapEntry_def encodeGapRange_def add_range_diverges
      unat_u32_of_nat)

end
