(* ===== verification/Snapshot.thy ===== *)
theory Snapshot
  imports Meta_Store
begin

text \<open>
  \<open>internal/nodestate/snapshot.go\<close>: the incremental snapshot of the cache, its write into a metadata
  transaction, the release of the dirty marks after the commit, and the load at start. The snapshot
  is taken and the marks are released under the cache's mutex; the write between the two is not, so
  other methods of the cache run in the meantime. The order in which Go visits a map is an argument.
\<close>

section \<open>Captured state\<close>

record row_entry =
  re_key :: row_key
  re_CL :: u64
  re_Base :: stamp

record cell_entry =
  ce_key :: row_key
  ce_Column :: column_id
  ce_Stamp :: stamp
  ce_Present :: bool

record cleared_row =
  cr_key :: row_key
  cr_Epoch :: u64

record snapshot =
  snSenderNextSeq :: "origin \<rightharpoonup> seq"
  snHLCLast :: clock
  snMetaDirty :: bool
  snRows :: "row_entry list"
  snFrontier :: "origin \<rightharpoonup> frontier_entry"
  snAppliedGaps :: "origin \<rightharpoonup> seqset"
  snMarkers :: "origin \<rightharpoonup> offset"
  snForgotten :: "origin list"
  snClearedRows :: "cleared_row list"
  snCells :: "cell_entry list"

text \<open>The orders of the loops: over the dirty trackers at capture, over the captured maps at the write.\<close>

record capture_order =
  vRows :: "row_key list"
  vCleared :: "row_key list"
  vCells :: "(row_key \<times> column_id list) list"
  vForgotten :: "origin list"

record write_order =
  wFrontier :: "origin list"
  wSenders :: "origin list"
  wGaps :: "origin list"
  wMarkers :: "origin list"

definition row_at :: "cache \<Rightarrow> row_key \<Rightarrow> row_state" where
  "row_at c k = RowState c (fst k) (snd k)"

definition cell_at :: "cache \<Rightarrow> row_key \<Rightarrow> column_id \<Rightarrow> stamp option" where
  "cell_at c k col = CellStamp c (fst k) (snd k) col"

definition row_snap :: "cache \<Rightarrow> row_key \<Rightarrow> row_entry" where
  "row_snap c k = \<lparr>re_key = k, re_CL = CL (row_at c k), re_Base = Base (row_at c k)\<rparr>"

definition cell_snap :: "cache \<Rightarrow> row_key \<Rightarrow> column_id \<Rightarrow> cell_entry" where
  "cell_snap c k col =
     (case cell_at c k col of
        Some s \<Rightarrow> \<lparr>ce_key = k, ce_Column = col, ce_Stamp = s, ce_Present = True\<rparr>
      | None \<Rightarrow> \<lparr>ce_key = k, ce_Column = col, ce_Stamp = zero_stamp, ce_Present = False\<rparr>)"

definition SnapshotIncremental :: "capture_order \<Rightarrow> cache \<Rightarrow> snapshot" where
  "SnapshotIncremental v c = \<lparr>
     snSenderNextSeq = (\<lambda>orig. if orig \<in> dirtySenderSeqs c then Some (seq_at (senderNextSeq c) orig) else None),
     snHLCLast = hlcLast c,
     snMetaDirty = metaDirty c,
     snRows = map (row_snap c) (vRows v),
     snFrontier = frontier c,
     snAppliedGaps = appliedGaps c,
     snMarkers = snapshotMarkers c,
     snForgotten = vForgotten v,
     snClearedRows = map (\<lambda>k. \<lparr>cr_key = k, cr_Epoch = seq_at (dirtyClearedRows c) k\<rparr>) (vCleared v),
     snCells = concat (map (\<lambda>(k, cols). map (cell_snap c k) cols) (vCells v))\<rparr>"

definition snapshotHasWork :: "snapshot \<Rightarrow> bool" where
  "snapshotHasWork s \<longleftrightarrow> snRows s \<noteq> [] \<or> snCells s \<noteq> [] \<or> snClearedRows s \<noteq> [] \<or> snMetaDirty s"

section \<open>Write\<close>

definition write_row :: "row_entry \<Rightarrow> meta_store \<Rightarrow> meta_store result" where
  "write_row r m = putRowClock (re_key r) (re_CL r) (re_Base r) m"

definition write_cell :: "cell_entry \<Rightarrow> meta_store \<Rightarrow> meta_store result" where
  "write_cell ce m =
     (if \<not> ce_Present ce then Inr (deleteCellClock (ce_key ce) (ce_Column ce) m)
      else putCellClock (ce_key ce) (ce_Column ce) (ce_Stamp ce) m)"

definition write_frontier :: "snapshot \<Rightarrow> origin \<Rightarrow> meta_store \<Rightarrow> meta_store result" where
  "write_frontier s orig m =
     (let f = (case snFrontier s orig of Some f \<Rightarrow> f | None \<Rightarrow> zero_front)
      in advanceFrontier orig (LastSeq f) (LastHLC f) m)"

definition WriteSnapshot :: "write_order \<Rightarrow> snapshot \<Rightarrow> meta_store \<Rightarrow> meta_store result" where
  "WriteSnapshot w s m =
     bindE (foldE write_row (snRows s) m) (\<lambda>m.
     let m = fold (\<lambda>cr. deleteCellClocksForRow (cr_key cr)) (snClearedRows s) m in
     bindE (foldE write_cell (snCells s) m) (\<lambda>m.
     if \<not> snMetaDirty s then Inr m
     else
     bindE (foldE (write_frontier s) (wFrontier w) m) (\<lambda>m.
     let m = fold deleteFrontier (snForgotten s) m;
         m = fold (\<lambda>orig. PutSenderSeq orig (seq_at (snSenderNextSeq s) orig)) (wSenders w) m
     in
     bindE (SetHLCLast (snHLCLast s) m) (\<lambda>m.
     Inr (SetSnapshotMarkers (wMarkers w) (snMarkers s) (SetAppliedGaps (wGaps w) (snAppliedGaps s) m))))))"

section \<open>Release of the dirty marks\<close>

definition rowClockCoveredBy :: "row_state \<Rightarrow> row_entry \<Rightarrow> bool" where
  "rowClockCoveredBy st r \<longleftrightarrow> CL st = re_CL r \<and> Base st = re_Base r"

text \<open>Two maps have the same keys and equal ranges under each: the same map.\<close>

definition appliedGapsCoveredBy :: "(origin \<rightharpoonup> seqset) \<Rightarrow> (origin \<rightharpoonup> seqset) \<Rightarrow> bool" where
  "appliedGapsCoveredBy cur snap \<longleftrightarrow> card (dom cur) = card (dom snap) \<and>
     (\<forall>orig \<in> dom cur. \<exists>sg. snap orig = Some sg \<and> cur orig = Some sg)"

definition clear_row :: "row_entry \<Rightarrow> cache \<Rightarrow> cache" where
  "clear_row r c =
     (case rowClock c (re_key r) of
        Some st \<Rightarrow> if rowClockCoveredBy st r then c\<lparr>dirtyRows := dirtyRows c - {re_key r}\<rparr> else c
      | None \<Rightarrow> c)"

definition clear_senders :: "snapshot \<Rightarrow> cache \<Rightarrow> cache" where
  "clear_senders s c = c\<lparr>dirtySenderSeqs :=
     {orig \<in> dirtySenderSeqs c. snSenderNextSeq s orig \<noteq> Some (seq_at (senderNextSeq c) orig)}\<rparr>"

definition clear_frontiers :: "snapshot \<Rightarrow> cache \<Rightarrow> cache" where
  "clear_frontiers s c =
     (let grown = (\<lambda>orig f. LastSeq f > seq_at (persistedFrontier c) orig) in
      c\<lparr>dirtyFrontiers := {orig \<in> dirtyFrontiers c. snFrontier s orig \<noteq> Some (front_at c orig)},
        prevPersistedFrontier := (\<lambda>orig. case snFrontier s orig of
            Some f \<Rightarrow> if grown orig f then Some (seq_at (persistedFrontier c) orig) else prevPersistedFrontier c orig
          | None \<Rightarrow> prevPersistedFrontier c orig),
        persistedFrontier := (\<lambda>orig. case snFrontier s orig of
            Some f \<Rightarrow> if grown orig f then Some (LastSeq f) else persistedFrontier c orig
          | None \<Rightarrow> persistedFrontier c orig)\<rparr>)"

definition clear_forgotten :: "origin \<Rightarrow> cache \<Rightarrow> cache" where
  "clear_forgotten orig c =
     (if frontier c orig = None then c\<lparr>forgottenOrigins := forgottenOrigins c - {orig}\<rparr> else c)"

definition clear_cleared :: "cleared_row \<Rightarrow> cache \<Rightarrow> cache" where
  "clear_cleared cr c =
     (if seq_at (dirtyClearedRows c) (cr_key cr) = cr_Epoch cr
      then c\<lparr>dirtyClearedRows := (dirtyClearedRows c)(cr_key cr := None)\<rparr> else c)"

definition cell_covered :: "cache \<Rightarrow> cell_entry \<Rightarrow> bool" where
  "cell_covered c ce \<longleftrightarrow>
     (let cur = (case cell_at c (ce_key ce) (ce_Column ce) of Some s \<Rightarrow> s | None \<Rightarrow> zero_stamp);
          curPresent = (cell_at c (ce_key ce) (ce_Column ce) \<noteq> None)
      in curPresent = ce_Present ce \<and> cur = ce_Stamp ce)"

definition clear_cell :: "cell_entry \<Rightarrow> cache \<Rightarrow> cache" where
  "clear_cell ce c =
     (if cell_covered c ce
      then case dirtyCells c (ce_key ce) of
             None \<Rightarrow> c
           | Some cells \<Rightarrow>
               let cells = cells - {ce_Column ce}
               in c\<lparr>dirtyCells := (dirtyCells c)(ce_key ce := (if cells = {} then None else Some cells))\<rparr>
      else c)"

definition meta_quiet :: "snapshot \<Rightarrow> cache \<Rightarrow> bool" where
  "meta_quiet s c \<longleftrightarrow> dirtyRows c = {} \<and> dirtyFrontiers c = {} \<and> dirtySenderSeqs c = {} \<and> dom (dirtyCells c) = {} \<and>
     dom (dirtyClearedRows c) = {} \<and> forgottenOrigins c = {} \<and> hlcLast c = snHLCLast s \<and>
     frontier c = snFrontier s \<and> appliedGapsCoveredBy (appliedGaps c) (snAppliedGaps s) \<and>
     snapshotMarkers c = snMarkers s"

definition ClearSnapshotDirty :: "snapshot \<Rightarrow> cache \<Rightarrow> cache" where
  "ClearSnapshotDirty s c =
     (let c = fold clear_row (snRows s) c;
          c = clear_senders s c;
          c = clear_frontiers s c;
          c = fold clear_forgotten (snForgotten s) c;
          c = fold clear_cleared (snClearedRows s) c;
          c = fold clear_cell (snCells s) c
      in if meta_quiet s c then c\<lparr>metaDirty := False\<rparr> else c)"

section \<open>Load\<close>

definition load_row :: "full_row_clock_entry \<Rightarrow> cache \<Rightarrow> cache" where
  "load_row r c = c\<lparr>rowClock := (rowClock c)(frKey r \<mapsto> zero_row\<lparr>CL := frCL r, Base := frBase r\<rparr>)\<rparr>"

definition load_cell :: "full_cell_clock_entry \<Rightarrow> cache \<Rightarrow> cache" where
  "load_cell ce c =
     (let k = fcKey ce; st = row_at c k;
          cells = (case Cells st of None \<Rightarrow> Mapping.empty | Some cs \<Rightarrow> cs);
          st = st\<lparr>Cells := Some (Mapping.update (fcColumn ce) (fcStamp ce) cells)\<rparr>
      in c\<lparr>rowClock := (rowClock c)(k \<mapsto> st)\<rparr>)"

definition LoadFromMeta :: "row_key list \<Rightarrow> (row_key \<times> column_id) list \<Rightarrow> meta_store \<Rightarrow> cache \<Rightarrow> cache result option" where
  "LoadFromMeta rows cells m c =
     (case GetAppliedGaps m of
        None \<Rightarrow> None
      | Some gaps \<Rightarrow>
        Some (bindE gaps (\<lambda>gaps. bindE (GetSnapshotMarkers m) (\<lambda>markers.
          let c = c\<lparr>senderNextSeq := senderNextSeq c ++ SenderSeqs m, hlcLast := GetHLCLast m,
                    frontier := frontier c ++ Store_Frontier m\<rparr>;
              c = fold load_cell (AllCellClocks cells m) (fold load_row (AllRowClocks rows m) c)
          in Inr (c\<lparr>appliedGaps := appliedGaps c ++ gaps, snapshotMarkers := snapshotMarkers c ++ markers,
                   dirtyRows := {}, dirtyFrontiers := {}, dirtyCells := Map.empty, dirtyClearedRows := Map.empty,
                   metaDirty := False\<rparr>)))))"

section \<open>Synchronisation of cache and store\<close>

text \<open>
  What the store holds for a key that carries no dirty mark is what the cache holds. Stored cells of
  a row marked as cleared count as absent: the next write deletes them first.
\<close>

definition unpacked :: "u64 \<times> u64 \<Rightarrow> stamp" where
  "unpacked = (\<lambda>(h, orig). Stamp (UnpackClock h) orig)"

definition store_row :: "meta_store \<Rightarrow> row_key \<Rightarrow> u64 \<times> stamp" where
  "store_row m k = (case row_clock m k of None \<Rightarrow> (0, zero_stamp) | Some (cl, h) \<Rightarrow> (cl, unpacked h))"

definition store_cell :: "meta_store \<Rightarrow> row_key \<Rightarrow> column_id \<Rightarrow> stamp option" where
  "store_cell m k col = map_option unpacked (cell_clock m (k, col))"

definition dirty_cols :: "cache \<Rightarrow> row_key \<Rightarrow> column_id set" where
  "dirty_cols c k = (case dirtyCells c k of Some cols \<Rightarrow> cols | None \<Rightarrow> {})"

definition masked :: "meta_store \<Rightarrow> cache \<Rightarrow> row_key \<Rightarrow> column_id \<Rightarrow> stamp option" where
  "masked m c k col = (if k \<in> dom (dirtyClearedRows c) then None else store_cell m k col)"

definition row_synced :: "cache \<Rightarrow> meta_store \<Rightarrow> row_key \<Rightarrow> bool" where
  "row_synced c m k \<longleftrightarrow> (k \<notin> dirtyRows c \<longrightarrow> store_row m k = (CL (row_at c k), Base (row_at c k))) \<and>
     (\<forall>col. col \<notin> dirty_cols c k \<longrightarrow> masked m c k col = cell_at c k col)"

text \<open>Rows, cells and marks of one key are consistent.\<close>

definition marks_ok :: "cache \<Rightarrow> row_key \<Rightarrow> bool" where
  "marks_ok c k \<longleftrightarrow> dirtyClearedRows c k \<noteq> Some 0 \<and> (k \<in> dirtyRows c \<longrightarrow> k \<in> dom (rowClock c)) \<and>
     (CL (row_at c k) = 0 \<longrightarrow> (\<forall>col \<in> dirty_cols c k. cell_at c k col \<noteq> None))"

definition meta_eq :: "meta_store \<Rightarrow> clock \<Rightarrow> (origin \<rightharpoonup> frontier_entry) \<Rightarrow> (origin \<rightharpoonup> seqset) \<Rightarrow> (origin \<rightharpoonup> offset) \<Rightarrow> bool" where
  "meta_eq m hlc fr gaps mk \<longleftrightarrow> GetHLCLast m = hlc \<and> Store_Frontier m = fr \<and> GetAppliedGaps m = Some (Inr gaps) \<and>
     GetSnapshotMarkers m = Inr mk"

definition meta_synced :: "cache \<Rightarrow> meta_store \<Rightarrow> bool" where
  "meta_synced c m \<longleftrightarrow>
     (\<forall>orig. orig \<notin> dirtySenderSeqs c \<longrightarrow> sender_seq m orig = senderNextSeq c orig) \<and>
     dirtySenderSeqs c \<subseteq> dom (senderNextSeq c) \<and>
     dom (frontier_tbl m) \<subseteq> dom (frontier c) \<union> forgottenOrigins c \<and>
     forgottenOrigins c \<inter> dom (frontier c) = {} \<and> dirtyFrontiers c \<subseteq> dom (frontier c) \<and>
     (\<not> metaDirty c \<longrightarrow> dirtySenderSeqs c = {} \<and> forgottenOrigins c = {} \<and>
        meta_eq m (hlcLast c) (frontier c) (appliedGaps c) (snapshotMarkers c))"

definition synced :: "cache \<Rightarrow> meta_store \<Rightarrow> bool" where
  "synced c m \<longleftrightarrow> meta_synced c m \<and> {} \<notin> ran (dirtyCells c) \<and> (\<forall>k. row_synced c m k \<and> marks_ok c k)"

lemma synced_row: "synced c m \<Longrightarrow> row_synced c m k \<and> marks_ok c k"
  unfolding synced_def by blast

lemma meta_syncedD:
  assumes "meta_synced c m"
  shows "orig \<notin> dirtySenderSeqs c \<Longrightarrow> sender_seq m orig = senderNextSeq c orig" "dirtySenderSeqs c \<subseteq> dom (senderNextSeq c)"
    "dom (frontier_tbl m) \<subseteq> dom (frontier c) \<union> forgottenOrigins c" "forgottenOrigins c \<inter> dom (frontier c) = {}"
    "dirtyFrontiers c \<subseteq> dom (frontier c)"
    "\<not> metaDirty c \<Longrightarrow> dirtySenderSeqs c = {} \<and> forgottenOrigins c = {} \<and>
        meta_eq m (hlcLast c) (frontier c) (appliedGaps c) (snapshotMarkers c)"
  using assms by (simp_all add: meta_synced_def)

lemma synced_New: "synced (NewCache s) empty_store"
  by (simp add: synced_def meta_synced_def row_synced_def marks_ok_def meta_eq_def NewCache_def empty_store_def
      store_row_def store_cell_def masked_def row_at_def cell_at_def RowState_def CellStamp_def zero_row_def
      dirty_cols_def GetHLCLast_def Store_Frontier_def GetAppliedGaps_def GetSnapshotMarkers_def fun_eq_iff)

section \<open>The methods of the cache keep it\<close>

text \<open>What a later state of the cache keeps of the marks of an earlier one while no snapshot is released.\<close>

definition later_row :: "cache \<Rightarrow> cache \<Rightarrow> row_key \<Rightarrow> bool" where
  "later_row c0 c k \<longleftrightarrow> (k \<in> dirtyRows c0 \<longrightarrow> k \<in> dirtyRows c) \<and>
     seq_at (dirtyClearedRows c0) k \<le> seq_at (dirtyClearedRows c) k \<and>
     (seq_at (dirtyClearedRows c0) k = seq_at (dirtyClearedRows c) k \<longrightarrow> dirty_cols c0 k \<subseteq> dirty_cols c k)"

definition later_meta :: "cache \<Rightarrow> cache \<Rightarrow> bool" where
  "later_meta c0 c \<longleftrightarrow> dirtySenderSeqs c0 \<subseteq> dirtySenderSeqs c \<and>
     dom (frontier c0) \<union> forgottenOrigins c0 \<subseteq> dom (frontier c) \<union> forgottenOrigins c \<and> (metaDirty c0 \<longrightarrow> metaDirty c)"

definition later :: "cache \<Rightarrow> cache \<Rightarrow> bool" where
  "later c0 c \<longleftrightarrow> later_meta c0 c \<and> (\<forall>k. later_row c0 c k)"

lemma later_refl [simp]: "later c c"
  by (simp add: later_def later_meta_def later_row_def)

lemma later_row_trans:
  assumes ab: "later_row a b k" and bc: "later_row b c k" shows "later_row a c k"
proof -
  let ?e = "\<lambda>c. seq_at (dirtyClearedRows c) k"
  have le: "?e a \<le> ?e b" "?e b \<le> ?e c" using ab bc by (simp_all add: later_row_def)
  then have "dirty_cols a k \<subseteq> dirty_cols c k" if "?e a = ?e c"
    using ab bc that order_antisym [of "?e a" "?e b"] by (auto simp: later_row_def)
  then show ?thesis using ab bc order_trans [OF le] by (simp add: later_row_def)
qed

lemma later_trans: "later a b \<Longrightarrow> later b c \<Longrightarrow> later a c"
  using later_row_trans [of a b _ c] unfolding later_def later_meta_def by (meson order_trans)

definition row_fields :: "cache \<Rightarrow> row_key \<Rightarrow> row_state option \<times> bool \<times> column_id set option \<times> u64 option" where
  "row_fields c k = (rowClock c k, k \<in> dirtyRows c, dirtyCells c k, dirtyClearedRows c k)"

definition meta_fields :: "cache \<Rightarrow> _" where
  "meta_fields c = (senderNextSeq c, dirtySenderSeqs c, hlcLast c, frontier c, appliedGaps c, snapshotMarkers c,
     dirtyFrontiers c, forgottenOrigins c, metaDirty c)"

lemma row_fields_same:
  assumes "row_fields c' k = row_fields c k"
  shows "row_synced c' m k = row_synced c m k" "marks_ok c' k = marks_ok c k" "later_row c0 c' k = later_row c0 c k"
    "row_at c' k = row_at c k" "cell_at c' k = cell_at c k" "dirty_cols c' k = dirty_cols c k"
proof -
  have eq: "rowClock c' k = rowClock c k" "(k \<in> dirtyRows c') = (k \<in> dirtyRows c)" "dirtyCells c' k = dirtyCells c k"
    "dirtyClearedRows c' k = dirtyClearedRows c k"
    using assms by (simp_all add: row_fields_def)
  then show r: "row_at c' k = row_at c k" and d: "dirty_cols c' k = dirty_cols c k"
    by (simp_all add: row_at_def RowState_def dirty_cols_def)
  from r show a: "cell_at c' k = cell_at c k" by (simp add: fun_eq_iff cell_at_def CellStamp_def row_at_def)
  have "k \<in> dom (rowClock c') \<longleftrightarrow> k \<in> dom (rowClock c)" "k \<in> dom (dirtyClearedRows c') \<longleftrightarrow> k \<in> dom (dirtyClearedRows c)"
    by (simp_all add: domIff eq)
  with eq r d a show "row_synced c' m k = row_synced c m k" "marks_ok c' k = marks_ok c k" "later_row c0 c' k = later_row c0 c k"
    by (simp_all add: row_synced_def marks_ok_def later_row_def masked_def seq_at_def)
qed

lemma later_row_refl [simp]: "later_row c c k"
  by (simp add: later_row_def)

lemma meta_fields_same:
  assumes "meta_fields c' = meta_fields c"
  shows "meta_synced c' m = meta_synced c m" "later_meta c0 c' = later_meta c0 c"
  using assms by (simp_all add: meta_fields_def meta_synced_def later_meta_def)

lemma later_meta_refl [simp]: "later_meta c c"
  by (simp add: later_meta_def)

text \<open>A method that touches one row.\<close>

lemma row_op:
  assumes "synced c m" and "meta_fields c' = meta_fields c" and "{} \<notin> ran (dirtyCells c')"
    and "\<And>k'. k' \<noteq> k \<Longrightarrow> row_fields c' k' = row_fields c k'"
    and "row_synced c' m k" "marks_ok c' k" "later_row c c' k"
  shows "synced c' m \<and> later c c'"
proof -
  have "row_synced c' m k' \<and> marks_ok c' k' \<and> later_row c c' k'" for k'
  proof (cases "k' = k")
    case True
    then show ?thesis using assms(5-7) by simp
  next
    case False
    then show ?thesis using synced_row [OF assms(1), of k'] row_fields_same [OF assms(4)] by simp
  qed
  then show ?thesis using assms(1-3) meta_fields_same [OF assms(2)] by (simp add: synced_def later_def)
qed

text \<open>A method that touches no row.\<close>

lemma meta_op:
  assumes "synced c m" and "\<And>k. row_fields c' k = row_fields c k"
    and "metaDirty c'" "dirtySenderSeqs c \<subseteq> dirtySenderSeqs c'" "dirtySenderSeqs c' \<subseteq> dom (senderNextSeq c')"
    and "\<And>orig. orig \<notin> dirtySenderSeqs c' \<Longrightarrow> senderNextSeq c' orig = senderNextSeq c orig"
    and "dom (frontier c) \<union> forgottenOrigins c \<subseteq> dom (frontier c') \<union> forgottenOrigins c'"
    and "forgottenOrigins c' \<inter> dom (frontier c') = {}" "dirtyFrontiers c' \<subseteq> dom (frontier c')"
  shows "synced c' m \<and> later c c'"
proof -
  have cells: "dirtyCells c' = dirtyCells c" using assms(2) by (simp add: fun_eq_iff row_fields_def)
  have rows: "row_synced c' m k \<and> marks_ok c' k \<and> later_row c c' k" for k
    using synced_row [OF assms(1), of k] row_fields_same [where k = k, OF assms(2)] by simp
  have ms: "meta_synced c m" using assms(1) by (simp add: synced_def)
  then have "dom (frontier_tbl m) \<subseteq> dom (frontier c') \<union> forgottenOrigins c'"
    using assms(7) unfolding meta_synced_def by (meson order_trans)
  moreover have "sender_seq m orig = senderNextSeq c' orig" if "orig \<notin> dirtySenderSeqs c'" for orig
    using ms assms(4) assms(6) [OF that] that unfolding meta_synced_def by (metis subsetD)
  ultimately have "meta_synced c' m"
    using assms(3,5,8,9) by (simp add: meta_synced_def)
  moreover have "later_meta c c'" using assms(3,4,7) by (simp add: later_meta_def)
  ultimately show ?thesis using assms(1) cells rows by (simp add: synced_def later_def)
qed

lemma cell_at_cells: "cell_at c k col = Option.bind (Cells (row_at c k)) (\<lambda>cs. Mapping.lookup cs col)"
  by (simp add: cell_at_def CellStamp_def row_at_def split: option.split)

text \<open>The cells of a row dropped, with or without a new clear mark; the row itself kept or written.\<close>

definition row_kept :: "cache \<Rightarrow> cache \<Rightarrow> row_key \<Rightarrow> bool" where
  "row_kept c c' k \<longleftrightarrow> k \<in> dom (rowClock c') \<and> (k \<in> dirtyRows c' \<or>
     k \<notin> dirtyRows c \<and> CL (row_at c' k) = CL (row_at c k) \<and> Base (row_at c' k) = Base (row_at c k))"

lemma drop_cells:
  assumes "row_synced c m k" "marks_ok c k" and kept: "row_kept c c' k"
    and cols: "dirty_cols c' k = {}" and none: "\<And>col. cell_at c' k col = None"
    and cleared: "dirtyClearedRows c' k = Some (seq_at (dirtyClearedRows c) k + 1) \<and> seq_at (dirtyClearedRows c) k \<noteq> - 1 \<or>
      dirtyClearedRows c' k = dirtyClearedRows c k \<and> dirtyClearedRows c k = None \<and> CL (row_at c k) = 0 \<and> (\<forall>col. cell_at c k col = None)"
  shows "row_synced c' m k \<and> marks_ok c' k \<and> later_row c c' k"
  using cleared
proof
  let ?e = "seq_at (dirtyClearedRows c) k"
  assume bump: "dirtyClearedRows c' k = Some (?e + 1) \<and> ?e \<noteq> - 1"
  then have e: "?e < ?e + 1" "seq_at (dirtyClearedRows c') k = ?e + 1" by (simp_all add: u64_less_succ) (simp add: seq_at_def)
  then have "?e + 1 \<noteq> 0" by (metis word_not_simps(1))
  then show ?thesis using bump e assms(1) kept cols none
    by (auto simp: row_synced_def marks_ok_def later_row_def masked_def row_kept_def)
next
  assume same: "dirtyClearedRows c' k = dirtyClearedRows c k \<and> dirtyClearedRows c k = None \<and> CL (row_at c k) = 0 \<and>
    (\<forall>col. cell_at c k col = None)"
  then have "dirty_cols c k = {}" using assms(2) by (auto simp: marks_ok_def)
  then show ?thesis using same assms(1) kept cols none
    by (auto simp: row_synced_def marks_ok_def later_row_def masked_def row_kept_def seq_at_def domIff)
qed

lemma PutRowState_key:
  fixes c table pk st
  defines "k \<equiv> (table, pk)" and "prev \<equiv> RowState c table pk" and "c' \<equiv> fst (PutRowState c table pk st)"
  assumes dom: "RowDominates (CL st, Base st) (CL prev, Base prev)"
  shows "rowClock c' k = Some (row_put st prev)" "k \<in> dirtyRows c'" "meta_fields c' = meta_fields c"
    "k' \<noteq> k \<Longrightarrow> row_fields c' k' = row_fields c k'"
    "CL st > CL prev \<Longrightarrow> dirtyCells c' k = None"
    "CL st > CL prev \<Longrightarrow> dirtyClearedRows c' k =
       (if CL prev \<noteq> 0 \<or> cells_len prev > 0 \<or> seq_at (dirtyClearedRows c) k \<noteq> 0
        then Some (seq_at (dirtyClearedRows c) k + 1) else dirtyClearedRows c k)"
    "\<not> CL st > CL prev \<Longrightarrow> dirtyCells c' k = dirtyCells c k \<and> dirtyClearedRows c' k = dirtyClearedRows c k"
  using dom unfolding c'_def k_def prev_def PutRowState_cases Let_def
  by (simp_all add: meta_fields_def row_fields_def bump_cleared_def)

lemma size_0_lookup: "Mapping.size cs = 0 \<Longrightarrow> Mapping.lookup cs (col :: column_id) = None"
  by (auto simp: Mapping.size_def keys_dom_lookup)

lemma cells_len_0: "cells_len (row_at c k) = 0 \<Longrightarrow> cell_at c k col = None"
  by (auto simp: cells_len_def cell_at_cells size_0_lookup split: option.splits)

lemma put_row_synced:
  assumes s: "synced c m" and plain: "Cells st = None" and room: "seq_at (dirtyClearedRows c) (table, pk) \<noteq> - 1"
  shows "synced (fst (PutRowState c table pk st)) m \<and> later c (fst (PutRowState c table pk st))"
proof -
  let ?k = "(table, pk)" and ?prev = "RowState c table pk" and ?c = "fst (PutRowState c table pk st)"
  have sk: "row_synced c m ?k" "marks_ok c ?k" using synced_row [OF s] by blast+
  have prev: "row_at c ?k = ?prev" by (simp add: row_at_def)
  show ?thesis
  proof (cases "RowDominates (CL st, Base st) (CL ?prev, Base ?prev)")
    case False
    then show ?thesis using s unfolding PutRowState_cases by simp
  next
    case True
    note key = PutRowState_key [OF True]
    from key(1) have row: "row_at ?c ?k = row_put st ?prev" by (simp add: row_at_def RowState_def)
    have "row_synced ?c m ?k \<and> marks_ok ?c ?k \<and> later_row c ?c ?k"
    proof (cases "CL st > CL ?prev")
      case gt: True
      then have "Cells (row_put st ?prev) = None" using True by (simp add: row_put_def)
      then have "cell_at ?c ?k col = None" for col by (simp add: cell_at_cells row)
      moreover have "dirty_cols ?c ?k = {}" using key(5) [OF gt] by (simp add: dirty_cols_def)
      moreover have "row_kept c ?c ?k" using key(1,2) by (auto simp: row_kept_def)
      moreover have "dirtyClearedRows c ?k = None" if "seq_at (dirtyClearedRows c) ?k = 0"
        using that sk(2) by (auto simp: marks_ok_def seq_at_def split: option.splits)
      ultimately show ?thesis using key(6) [OF gt] room cells_len_0 [of c ?k]
        by (intro drop_cells [OF sk]) (auto simp: prev)
    next
      case False
      then have "CL st = CL ?prev" using True by (auto simp: RowDominates_def)
      moreover have "row_put st ?prev = st\<lparr>Cells := Cells ?prev\<rparr>" using True False plain by (simp add: row_put_def)
      ultimately have "cell_at ?c ?k = cell_at c ?k" "CL (row_at ?c ?k) = CL (row_at c ?k)"
        by (simp_all add: fun_eq_iff cell_at_cells row prev)
      moreover have "dirty_cols ?c ?k = dirty_cols c ?k" using key(7) [OF False] by (simp add: dirty_cols_def)
      moreover have "?k \<in> dom (rowClock ?c)" using key(1) by auto
      moreover have "?k \<in> dom (dirtyClearedRows ?c) \<longleftrightarrow> ?k \<in> dom (dirtyClearedRows c)" using key(7) [OF False] by (simp add: domIff)
      ultimately show ?thesis using sk key(2) key(7) [OF False]
        by (simp add: row_synced_def marks_ok_def later_row_def masked_def seq_at_def)
    qed
    moreover have "{} \<notin> ran (dirtyCells ?c)" using s cell_ops_frame(4) [of c table pk st] by (simp add: synced_def)
    ultimately show ?thesis using row_op [OF s key(3) _ key(4)] by blast
  qed
qed

lemma clear_cells_synced:
  assumes s: "synced c m" and room: "seq_at (dirtyClearedRows c) (table, pk) \<noteq> - 1"
  shows "synced (ClearCellsForRow c table pk) m \<and> later c (ClearCellsForRow c table pk)"
proof (rule row_op [OF s, where k = "(table, pk)"])
  let ?k = "(table, pk)" and ?c = "ClearCellsForRow c table pk"
  show "meta_fields ?c = meta_fields c" by (simp add: meta_fields_def ClearCellsForRow_def Let_def)
  show "{} \<notin> ran (dirtyCells ?c)" using s cell_ops_frame(3) [of c table pk] by (simp add: synced_def)
  show "row_fields ?c k' = row_fields c k'" if "k' \<noteq> ?k" for k'
    using that by (simp add: row_fields_def ClearCellsForRow_def Let_def)
  have row: "row_at ?c ?k = (row_at c ?k)\<lparr>Cells := None\<rparr>" "?k \<in> dom (rowClock ?c)"
    by (simp_all add: row_at_def ClearCellsForRow_def RowState_def Let_def)
  moreover have "dirtyRows ?c = dirtyRows c" by (simp add: ClearCellsForRow_def Let_def)
  ultimately have "row_kept c ?c ?k" by (auto simp: row_kept_def)
  then have "row_synced ?c m ?k \<and> marks_ok ?c ?k \<and> later_row c ?c ?k"
    using room synced_row [OF s, of ?k] row
    by (intro drop_cells) (simp_all add: cell_at_cells dirty_cols_def ClearCellsForRow_def Let_def)
  then show "row_synced ?c m ?k" "marks_ok ?c ?k" "later_row c ?c ?k" by simp_all
qed

text \<open>One cell written or deleted.\<close>

lemma touch_cell:
  assumes s: "synced c m" and "meta_fields c' = meta_fields c" "{} \<notin> ran (dirtyCells c')"
    and "\<And>k'. k' \<noteq> k \<Longrightarrow> row_fields c' k' = row_fields c k'"
    and row: "CL (row_at c' k) = CL (row_at c k)" "Base (row_at c' k) = Base (row_at c k)" "k \<in> dom (rowClock c) \<longrightarrow> k \<in> dom (rowClock c')"
    and marks: "k \<in> dirtyRows c' \<longleftrightarrow> k \<in> dirtyRows c" "dirtyClearedRows c' k = dirtyClearedRows c k"
    and cols: "dirty_cols c' k = insert col (dirty_cols c k)"
    and cells: "\<And>col'. col' \<noteq> col \<Longrightarrow> cell_at c' k col' = cell_at c k col'"
    and here: "CL (row_at c k) = 0 \<longrightarrow> cell_at c' k col \<noteq> None"
  shows "synced c' m \<and> later c c'"
proof (rule row_op [OF s assms(2,3,4)])
  have sk: "row_synced c m k" "marks_ok c k" using synced_row [OF s] by blast+
  have dom: "k \<in> dom (dirtyClearedRows c') \<longleftrightarrow> k \<in> dom (dirtyClearedRows c)" using marks(2) by (simp add: domIff)
  show "row_synced c' m k" using sk(1) row marks cols cells dom by (auto simp: row_synced_def masked_def)
  have "cell_at c' k col' \<noteq> None" if "CL (row_at c k) = 0" "col' \<in> dirty_cols c' k" for col'
    using that sk(2) here cols cells [of col'] by (cases "col' = col") (auto simp: marks_ok_def)
  then show "marks_ok c' k" using sk(2) row marks dom by (auto simp: marks_ok_def)
  show "later_row c c' k" using marks cols by (auto simp: later_row_def seq_at_def)
qed

lemma dirty_cols_mark: "dirty_cols (markCellDirty c k col) k = insert col (dirty_cols c k)"
  by (simp add: dirty_cols_def markCellDirty_def Let_def)

lemma put_cell_synced:
  assumes s: "synced c m"
  shows "synced (PutCellStamp c table pk col stmp) m \<and> later c (PutCellStamp c table pk col stmp)"
proof (cases "Dominates stmp (EffectiveStamp (RowState c table pk) col (ByteRange 0 0))")
  case False
  then show ?thesis using s by (simp add: PutCellStamp_def)
next
  case True
  let ?k = "(table, pk)" and ?c = "PutCellStamp c table pk col stmp" and ?st = "RowState c table pk"
  let ?cells = "case Cells ?st of None \<Rightarrow> Mapping.empty | Some cs \<Rightarrow> cs"
  let ?st' = "?st\<lparr>Cells := Some (Mapping.update col stmp ?cells)\<rparr>"
  have c: "?c = markCellDirty (c\<lparr>rowClock := (rowClock c)(?k \<mapsto> ?st')\<rparr>) ?k col"
    using True by (simp add: PutCellStamp_def Let_def)
  have row: "row_at ?c ?k = ?st'" "row_at c ?k = ?st" by (simp_all add: row_at_def RowState_def c)
  show ?thesis
  proof (rule touch_cell [OF s, where k = ?k and col = col])
    show "{} \<notin> ran (dirtyCells ?c)" using s cell_ops_frame(1) [of c table pk col stmp] by (simp add: synced_def)
    show "dirty_cols ?c ?k = insert col (dirty_cols c ?k)" by (simp add: c dirty_cols_mark) (simp add: dirty_cols_def)
    show "cell_at ?c ?k col' = cell_at c ?k col'" if "col' \<noteq> col" for col'
      using that by (simp add: cell_at_cells row lookup_update_neq split: option.split)
    show "CL (row_at c ?k) = 0 \<longrightarrow> cell_at ?c ?k col \<noteq> None" by (simp add: cell_at_cells row)
  qed (simp_all add: row, simp_all add: c markCellDirty_def Let_def meta_fields_def row_fields_def)
qed

lemma delete_cell_synced:
  assumes s: "synced c m" and live: "CL (RowState c table pk) \<noteq> 0"
  shows "synced (DeleteCellStamp c table pk col) m \<and> later c (DeleteCellStamp c table pk col)"
proof -
  let ?k = "(table, pk)" and ?c = "DeleteCellStamp c table pk col" and ?st = "RowState c table pk"
  obtain st' where st': "rowClock ?c = (rowClock c)(?k \<mapsto> st') \<or> rowClock ?c = rowClock c \<and> st' = ?st"
    and same: "CL st' = CL ?st" "Base st' = Base ?st"
    and cells: "\<And>col'. col' \<noteq> col \<Longrightarrow>
      Option.bind (Cells st') (\<lambda>cs. Mapping.lookup cs col') = Option.bind (Cells ?st) (\<lambda>cs. Mapping.lookup cs col')"
  proof (cases "Cells ?st")
    case None
    then show ?thesis using that [of ?st] by (simp add: DeleteCellStamp_def)
  next
    case (Some cs)
    let ?cs = "Mapping.delete col cs"
    have "Mapping.size ?cs = 0 \<Longrightarrow> col' \<noteq> col \<Longrightarrow> Mapping.lookup cs col' = None" for col'
      using size_0_lookup [of ?cs col'] by (simp add: lookup_delete_neq)
    then show ?thesis using that [of "?st\<lparr>Cells := if Mapping.size ?cs = 0 then None else Some ?cs\<rparr>"] Some
      by (simp add: DeleteCellStamp_def Let_def lookup_delete_neq)
  qed
  have row: "row_at ?c ?k = st'" "row_at c ?k = ?st" using st' by (auto simp: row_at_def RowState_def)
  show ?thesis
  proof (rule touch_cell [OF s, where k = ?k and col = col])
    show "{} \<notin> ran (dirtyCells ?c)" using s cell_ops_frame(2) [of c table pk col] by (simp add: synced_def)
    show "cell_at ?c ?k col' = cell_at c ?k col'" if "col' \<noteq> col" for col'
      using cells [OF that] by (simp add: cell_at_cells row)
    show "CL (row_at c ?k) = 0 \<longrightarrow> cell_at ?c ?k col \<noteq> None" using live by (simp add: row)
    show "CL (row_at ?c ?k) = CL (row_at c ?k)" "Base (row_at ?c ?k) = Base (row_at c ?k)" by (simp_all add: row same)
    show "?k \<in> dom (rowClock c) \<longrightarrow> ?k \<in> dom (rowClock ?c)" using st' by auto
  qed (simp_all add: DeleteCellStamp_def Let_def dirty_cols_mark markCellDirty_def meta_fields_def row_fields_def
      dirty_cols_def split: option.split)
qed

text \<open>
  The methods as the callers use them: row states come without cells, a single cell is deleted only
  from a row that has a causal length, and the clear counter of a row does not wrap.
\<close>

inductive durable_op :: "cache \<Rightarrow> cache \<Rightarrow> bool" where
  stamp: "durable_op c (fst (StampHLC c wall))"
| observe_hlc: "durable_op c (ObserveHLC c clk)"
| alloc: "durable_op c (fst (AllocSelfSeq c orig))"
| observe_seq: "durable_op c (ObserveSelfSeq c orig seq)"
| mark: "durable_op c (fst (MarkApplied c orig seq hlc))"
| evict: "durable_op c (fst (EvictOrigin c orig))"
| marker: "durable_op c (SetSnapshotMarker c orig off)"
| put_row: "Cells st = None \<Longrightarrow> seq_at (dirtyClearedRows c) (table, pk) \<noteq> - 1 \<Longrightarrow> durable_op c (fst (PutRowState c table pk st))"
| put_cell: "durable_op c (PutCellStamp c table pk col s)"
| delete_cell: "CL (RowState c table pk) \<noteq> 0 \<Longrightarrow> durable_op c (DeleteCellStamp c table pk col)"
| clear_cells: "seq_at (dirtyClearedRows c) (table, pk) \<noteq> - 1 \<Longrightarrow> durable_op c (ClearCellsForRow c table pk)"

lemma durable_op_synced:
  assumes "durable_op c c'" and s: "synced c m"
  shows "synced c' m \<and> later c c'"
proof -
  have ms: "dirtySenderSeqs c \<subseteq> dom (senderNextSeq c)" "forgottenOrigins c \<inter> dom (frontier c) = {}"
    "dirtyFrontiers c \<subseteq> dom (frontier c)"
    using s by (simp_all add: synced_def meta_synced_def)
  note op = meta_op [OF s]
  from assms(1) show ?thesis
  proof cases
    case stamp
    then show ?thesis using ms by (intro op) (simp_all add: StampHLC_def Let_def row_fields_def)
  next
    case observe_hlc
    then show ?thesis using ms s by (cases "c' = c") (simp, intro op, auto simp: ObserveHLC_def row_fields_def split: if_splits)
  next
    case alloc
    then show ?thesis using ms by (intro op) (auto simp: AllocSelfSeq_def Let_def row_fields_def)
  next
    case observe_seq
    then show ?thesis using ms s
      by (cases "c' = c") (simp, intro op, auto simp: ObserveSelfSeq_def Let_def row_fields_def split: if_splits)
  next
    case mark
    then show ?thesis using ms by (intro op) (auto simp: MarkApplied_def markApplied_fields row_fields_def)
  next
    case evict
    then show ?thesis using ms s
      by (cases "c' = c") (simp, intro op, auto simp: EvictOrigin_def row_fields_def split: if_splits)
  next
    case marker
    then show ?thesis using ms by (intro op) (auto simp: SetSnapshotMarker_def row_fields_def)
  next
    case (put_row st table pk)
    then show ?thesis using put_row_synced [OF s] by simp
  next
    case (put_cell table pk col x)
    then show ?thesis using put_cell_synced [OF s] by simp
  next
    case (delete_cell table pk col)
    then show ?thesis using delete_cell_synced [OF s] by simp
  next
    case (clear_cells table pk)
    then show ?thesis using clear_cells_synced [OF s] by simp
  qed
qed

section \<open>What a write leaves in the store\<close>

lemma foldE_fold: "\<forall>x \<in> set xs. \<forall>s. f x s = Inr (g x s) \<Longrightarrow> foldE f xs s = Inr (fold g xs s)"
  by (induction xs arbitrary: s) auto

definition packed :: "clock \<Rightarrow> u64" where
  "packed c = (case Pack c of Inr v \<Rightarrow> v | Inl _ \<Rightarrow> 0)"

lemma packed_ok: "packable c \<Longrightarrow> Pack c = Inr (packed c) \<and> UnpackClock (packed c) = c"
  using Unpack_Pack [of c] by (auto simp: packed_def)

definition capture_ok :: "capture_order \<Rightarrow> cache \<Rightarrow> bool" where
  "capture_ok v c \<longleftrightarrow> visits (vRows v) (dirtyRows c) \<and> visits (vCleared v) (dom (dirtyClearedRows c)) \<and>
     visits (map fst (vCells v)) (dom (dirtyCells c)) \<and> (\<forall>(k, cols) \<in> set (vCells v). visits cols (dirty_cols c k)) \<and>
     visits (vForgotten v) (forgottenOrigins c)"

definition write_ok :: "write_order \<Rightarrow> snapshot \<Rightarrow> bool" where
  "write_ok w s \<longleftrightarrow> visits (wFrontier w) (dom (snFrontier s)) \<and> visits (wSenders w) (dom (snSenderNextSeq s)) \<and>
     visits (wGaps w) (dom (snAppliedGaps s)) \<and> visits (wMarkers w) (dom (snMarkers s))"

definition clocks_packable :: "cache \<Rightarrow> bool" where
  "clocks_packable c \<longleftrightarrow> packable (hlcLast c) \<and> (\<forall>f \<in> ran (frontier c). packable (LastHLC f)) \<and>
     (\<forall>k \<in> dirtyRows c. packable (StampClock (Base (row_at c k)))) \<and>
     (\<forall>k. \<forall>col \<in> dirty_cols c k. \<forall>s. cell_at c k col = Some s \<longrightarrow> packable (StampClock s))"

definition pack_stamp :: "stamp \<Rightarrow> u64 \<times> u64" where
  "pack_stamp s = (packed (StampClock s), Origin s)"

lemma unpacked_pack [simp]: "packable (StampClock s) \<Longrightarrow> unpacked (pack_stamp s) = s"
  by (cases s) (simp add: unpacked_def pack_stamp_def packed_ok)

definition overlay :: "'k set \<Rightarrow> ('k \<rightharpoonup> 'v) \<Rightarrow> ('k \<rightharpoonup> 'v) \<Rightarrow> ('k \<rightharpoonup> 'v)" where
  "overlay A f m k = (if k \<in> A then f k else m k)"

lemma overlay_simps [simp]:
  "overlay {} f m = m" "overlay A f (m(k := f k)) = overlay (insert k A) f m" "m(k := f k) = overlay {k} f m"
  by (auto simp: fun_eq_iff overlay_def)

lemma overlay_overlay [simp]: "overlay A f (overlay B f m) = overlay (A \<union> B) f m"
  by (auto simp: fun_eq_iff overlay_def)

definition row_value :: "cache \<Rightarrow> row_key \<rightharpoonup> u64 \<times> u64 \<times> u64" where
  "row_value c k = Some (CL (row_at c k), pack_stamp (Base (row_at c k)))"

lemma write_rows:
  assumes "\<forall>k \<in> set ks. packable (StampClock (Base (row_at c k)))"
  shows "foldE write_row (map (row_snap c) ks) m = Inr (m\<lparr>row_clock := overlay (set ks) (row_value c) (row_clock m)\<rparr>)"
  using assms
proof (induction ks arbitrary: m)
  case (Cons k ks)
  then have "write_row (row_snap c k) m = Inr (m\<lparr>row_clock := overlay {k} (row_value c) (row_clock m)\<rparr>)"
    by (simp add: write_row_def row_snap_def putRowClock_def packed_ok pack_stamp_def row_value_def overlay_def fun_eq_iff)
  then show ?case using Cons by simp
qed simp

definition cell_value :: "cache \<Rightarrow> row_key \<times> column_id \<rightharpoonup> u64 \<times> u64" where
  "cell_value c kc = map_option pack_stamp (cell_at c (fst kc) (snd kc))"

lemma write_cells:
  assumes "\<forall>(k, col) \<in> set kcs. \<forall>s. cell_at c k col = Some s \<longrightarrow> packable (StampClock s)"
  shows "foldE write_cell (map (\<lambda>(k, col). cell_snap c k col) kcs) m =
    Inr (m\<lparr>cell_clock := overlay (set kcs) (cell_value c) (cell_clock m)\<rparr>)"
  using assms
proof (induction kcs arbitrary: m)
  case (Cons kc kcs)
  obtain k col where kc: "kc = (k, col)" by fastforce
  then have "write_cell (cell_snap c k col) m = Inr (m\<lparr>cell_clock := overlay {kc} (cell_value c) (cell_clock m)\<rparr>)"
    using Cons.prems by (simp add: write_cell_def cell_snap_def putCellClock_def deleteCellClock_def packed_ok pack_stamp_def
        cell_value_def overlay_def fun_eq_iff split: option.split)
  then show ?case using Cons by (simp add: kc)
qed simp

lemma clear_rows:
  "fold (\<lambda>cr. deleteCellClocksForRow (cr_key cr)) crs m =
    m\<lparr>cell_clock := overlay (cr_key ` set crs \<times> UNIV) Map.empty (cell_clock m)\<rparr>"
proof (induction crs arbitrary: m)
  case (Cons cr crs)
  have "deleteCellClocksForRow (cr_key cr) m = m\<lparr>cell_clock := overlay ({cr_key cr} \<times> UNIV) Map.empty (cell_clock m)\<rparr>"
    by (rule meta_store.equality) (auto simp: deleteCellClocksForRow_def overlay_def fun_eq_iff)
  then show ?case using Cons by (simp flip: Sigma_Un_distrib1)
qed simp

definition front_value :: "(origin \<rightharpoonup> frontier_entry) \<Rightarrow> origin \<rightharpoonup> u64 \<times> u64" where
  "front_value fr orig = map_option (\<lambda>f. (LastSeq f, packed (LastHLC f))) (fr orig)"

lemma write_frontiers:
  assumes "\<forall>f \<in> ran (snFrontier s). packable (LastHLC f)" and "set os \<subseteq> dom (snFrontier s)"
  shows "foldE (write_frontier s) os m = Inr (m\<lparr>frontier_tbl := overlay (set os) (front_value (snFrontier s)) (frontier_tbl m)\<rparr>)"
  using assms(2)
proof (induction os arbitrary: m)
  case (Cons orig os)
  then obtain f where f: "snFrontier s orig = Some f" by auto
  then have "packable (LastHLC f)" using assms(1) by (auto simp: ran_def)
  then have "write_frontier s orig m = Inr (m\<lparr>frontier_tbl := overlay {orig} (front_value (snFrontier s)) (frontier_tbl m)\<rparr>)"
    using f by (simp add: write_frontier_def advanceFrontier_def packed_ok front_value_def overlay_def fun_eq_iff)
  then show ?case using Cons by simp
qed simp

lemma delete_frontiers: "fold deleteFrontier os m = m\<lparr>frontier_tbl := overlay (set os) Map.empty (frontier_tbl m)\<rparr>"
proof (induction os arbitrary: m)
  case (Cons orig os)
  have "deleteFrontier orig m = m\<lparr>frontier_tbl := overlay {orig} Map.empty (frontier_tbl m)\<rparr>"
    by (rule meta_store.equality) (auto simp: deleteFrontier_def overlay_def fun_eq_iff)
  then show ?case using Cons by simp
qed simp

lemma put_senders:
  "set os \<subseteq> dom sq \<Longrightarrow>
    fold (\<lambda>orig. PutSenderSeq orig (seq_at sq orig)) os m = m\<lparr>sender_seq := overlay (set os) sq (sender_seq m)\<rparr>"
proof (induction os arbitrary: m)
  case (Cons orig os)
  then have "PutSenderSeq orig (seq_at sq orig) m = m\<lparr>sender_seq := overlay {orig} sq (sender_seq m)\<rparr>"
    by (intro meta_store.equality) (auto simp: PutSenderSeq_def overlay_def fun_eq_iff seq_at_def)
  then show ?case using Cons by simp
qed simp

text \<open>What the fields of the blobs and the packed columns can hold.\<close>

definition storable :: "cache \<Rightarrow> bool" where
  "storable c \<longleftrightarrow> clocks_packable c \<and> gaps_ok (appliedGaps c) \<and> finite (dom (appliedGaps c)) \<and> card (dom (snapshotMarkers c)) < 2 ^ 32"

lemma set_vCells:
  assumes "capture_ok v c"
  shows "set (concat (map (\<lambda>(k, cols). map (Pair k) cols) (vCells v))) = {(k, col). col \<in> dirty_cols c k}"
proof -
  have keys: "fst ` set (vCells v) = dom (dirtyCells c)"
    using assms by (simp add: capture_ok_def visits_def)
  have cols: "set cols = dirty_cols c k" if "(k, cols) \<in> set (vCells v)" for k cols
    using assms that by (fastforce simp: capture_ok_def visits_def)
  have "(\<exists>cols. (k, cols) \<in> set (vCells v) \<and> col \<in> set cols) \<longleftrightarrow> col \<in> dirty_cols c k" for k col
  proof
    assume col: "col \<in> dirty_cols c k"
    then have "k \<in> fst ` set (vCells v)" unfolding keys by (auto simp: dirty_cols_def split: option.splits)
    then obtain cols where "(k, cols) \<in> set (vCells v)" by force
    with cols col show "\<exists>cols. (k, cols) \<in> set (vCells v) \<and> col \<in> set cols" by blast
  qed (use cols in blast)
  moreover have "set (concat (map (\<lambda>(k, cols). map (Pair k) cols) vs)) = {(k, col). \<exists>cols. (k, cols) \<in> set vs \<and> col \<in> set cols}" for vs :: "(row_key \<times> column_id list) list"
    by (induction vs) auto
  ultimately show ?thesis by simp
qed

lemma snCells_flat:
  "snCells (SnapshotIncremental v c) = map (\<lambda>(k, col). cell_snap c k col) (concat (map (\<lambda>(k, cols). map (Pair k) cols) (vCells v)))"
proof -
  have "concat (map (\<lambda>(k, cols). map (cell_snap c k) cols) vs) =
      map (\<lambda>(k, col). cell_snap c k col) (concat (map (\<lambda>(k, cols). map (Pair k) cols) vs))" for vs
    by (induction vs) auto
  then show ?thesis by (simp add: SnapshotIncremental_def)
qed

definition stored_clocks :: "cache \<Rightarrow> meta_store \<Rightarrow> meta_store" where
  "stored_clocks c m = m\<lparr>row_clock := overlay (dirtyRows c) (row_value c) (row_clock m),
     cell_clock := overlay {(k, col). col \<in> dirty_cols c k} (cell_value c)
       (overlay (dom (dirtyClearedRows c) \<times> UNIV) Map.empty (cell_clock m))\<rparr>"

definition stored_meta :: "write_order \<Rightarrow> cache \<Rightarrow> meta_store \<Rightarrow> meta_store" where
  "stored_meta w c m = m\<lparr>
     frontier_tbl := overlay (forgottenOrigins c) Map.empty (overlay (dom (frontier c)) (front_value (frontier c)) (frontier_tbl m)),
     sender_seq := overlay (dirtySenderSeqs c) (\<lambda>orig. Some (seq_at (senderNextSeq c) orig)) (sender_seq m),
     hlc_last := Some (packed (hlcLast c)),
     applied_gaps := Some (encodeAppliedGaps (wGaps w) (appliedGaps c)),
     snapshot_markers := Some (encodeMarkers (wMarkers w) (snapshotMarkers c))\<rparr>"

lemma overlay_cong: "(\<And>k. k \<in> A \<Longrightarrow> f k = g k) \<Longrightarrow> overlay A f m = overlay A g m"
  by (auto simp: fun_eq_iff overlay_def)

lemma write_meta:
  assumes "clocks_packable c" "capture_ok v c" "write_ok w (SnapshotIncremental v c)"
  defines "s \<equiv> SnapshotIncremental v c"
  shows "bindE (foldE (write_frontier s) (wFrontier w) m) (\<lambda>m.
     let m = fold deleteFrontier (snForgotten s) m;
         m = fold (\<lambda>orig. PutSenderSeq orig (seq_at (snSenderNextSeq s) orig)) (wSenders w) m
     in bindE (SetHLCLast (snHLCLast s) m) (\<lambda>m.
        Inr (SetSnapshotMarkers (wMarkers w) (snMarkers s) (SetAppliedGaps (wGaps w) (snAppliedGaps s) m)))) = Inr (stored_meta w c m)"
proof -
  have sn: "snFrontier s = frontier c" "snForgotten s = vForgotten v" "snHLCLast s = hlcLast c" "snMarkers s = snapshotMarkers c"
    "snAppliedGaps s = appliedGaps c" "dom (snSenderNextSeq s) = dirtySenderSeqs c"
    by (auto simp: s_def SnapshotIncremental_def split: if_splits)
  have sets: "set (wFrontier w) = dom (frontier c)" "set (vForgotten v) = forgottenOrigins c" "set (wSenders w) = dirtySenderSeqs c"
    using assms(2,3) sn unfolding s_def [symmetric] by (auto simp: capture_ok_def write_ok_def visits_def)
  have f: "foldE (write_frontier s) (wFrontier w) m =
      Inr (m\<lparr>frontier_tbl := overlay (dom (frontier c)) (front_value (frontier c)) (frontier_tbl m)\<rparr>)"
    using write_frontiers [of s "wFrontier w" m] assms(1) by (simp add: sn sets clocks_packable_def)
  have p: "fold (\<lambda>orig. PutSenderSeq orig (seq_at (snSenderNextSeq s) orig)) (wSenders w) m' =
      m'\<lparr>sender_seq := overlay (dirtySenderSeqs c) (\<lambda>orig. Some (seq_at (senderNextSeq c) orig)) (sender_seq m')\<rparr>" for m'
    using put_senders [of "wSenders w" "snSenderNextSeq s" m']
      overlay_cong [of "dirtySenderSeqs c" "snSenderNextSeq s" "\<lambda>orig. Some (seq_at (senderNextSeq c) orig)"]
    by (simp add: sn sets) (simp add: s_def SnapshotIncremental_def)
  have "Pack (hlcLast c) = Inr (packed (hlcLast c))" using assms(1) packed_ok by (simp add: clocks_packable_def)
  then show ?thesis
    by (simp add: f p Let_def delete_frontiers sn sets SetHLCLast_def SetAppliedGaps_def SetSnapshotMarkers_def stored_meta_def)
qed

lemma write_result:
  assumes "clocks_packable c" "capture_ok v c" "write_ok w (SnapshotIncremental v c)"
  shows "WriteSnapshot w (SnapshotIncremental v c) m =
    Inr (if metaDirty c then stored_meta w c (stored_clocks c m) else stored_clocks c m)"
proof -
  let ?s = "SnapshotIncremental v c" and ?kcs = "concat (map (\<lambda>(k, cols). map (Pair k) cols) (vCells v))"
  have rows: "set (vRows v) = dirtyRows c" and cl: "cr_key ` set (snClearedRows ?s) = dom (dirtyClearedRows c)"
    using assms(2) by (auto simp: capture_ok_def visits_def SnapshotIncremental_def image_image)
  have r: "foldE write_row (snRows ?s) m = Inr (m\<lparr>row_clock := overlay (dirtyRows c) (row_value c) (row_clock m)\<rparr>)"
    using write_rows [of "vRows v" c m] assms(1) rows by (simp add: SnapshotIncremental_def clocks_packable_def)
  have ce: "foldE write_cell (snCells ?s) m' = Inr (m'\<lparr>cell_clock := overlay {(k, col). col \<in> dirty_cols c k} (cell_value c) (cell_clock m')\<rparr>)" for m'
    unfolding snCells_flat set_vCells [OF assms(2), symmetric]
    by (rule write_cells) (use assms(1) set_vCells [OF assms(2)] in \<open>auto simp: clocks_packable_def\<close>)
  have md: "snMetaDirty ?s = metaDirty c" by (simp add: SnapshotIncremental_def)
  show ?thesis
    unfolding WriteSnapshot_def r bindE_simps Let_def clear_rows cl ce md
    using write_meta [OF assms, unfolded Let_def] by (simp add: stored_clocks_def)
qed

text \<open>A store that holds all of a cache's durable state.\<close>

definition holds :: "meta_store \<Rightarrow> cache \<Rightarrow> bool" where
  "holds m c \<longleftrightarrow> (\<forall>k. store_row m k = (CL (row_at c k), Base (row_at c k)) \<and> (\<forall>col. store_cell m k col = cell_at c k col)) \<and>
     sender_seq m = senderNextSeq c \<and> meta_eq m (hlcLast c) (frontier c) (appliedGaps c) (snapshotMarkers c)"

definition stored :: "write_order \<Rightarrow> cache \<Rightarrow> meta_store \<Rightarrow> meta_store" where
  "stored w c m = (if metaDirty c then stored_meta w c (stored_clocks c m) else stored_clocks c m)"

lemma stored_tables:
  "row_clock (stored w c m) = overlay (dirtyRows c) (row_value c) (row_clock m)"
  "cell_clock (stored w c m) = overlay {(k, col). col \<in> dirty_cols c k} (cell_value c)
     (overlay (dom (dirtyClearedRows c) \<times> UNIV) Map.empty (cell_clock m))"
  by (simp_all add: stored_def stored_meta_def stored_clocks_def)

lemma stored_row:
  assumes "clocks_packable c"
  shows "store_row (stored w c m) k = (if k \<in> dirtyRows c then (CL (row_at c k), Base (row_at c k)) else store_row m k)"
  using assms by (simp add: store_row_def stored_tables overlay_def row_value_def clocks_packable_def)

lemma stored_cell:
  assumes "clocks_packable c"
  shows "store_cell (stored w c m) k col = (if col \<in> dirty_cols c k then cell_at c k col else masked m c k col)"
proof (cases "col \<in> dirty_cols c k")
  case True
  then have "packable (StampClock s)" if "cell_at c k col = Some s" for s
    using assms that unfolding clocks_packable_def by blast
  with True show ?thesis
    by (cases "cell_at c k col") (simp_all add: store_cell_def stored_tables overlay_def cell_value_def)
next
  case False
  then show ?thesis by (auto simp: store_cell_def masked_def stored_tables overlay_def)
qed

lemma load_stored_frontier:
  assumes "clocks_packable c" "metaDirty c" "dom (frontier_tbl m) \<subseteq> dom (frontier c) \<union> forgottenOrigins c"
    "forgottenOrigins c \<inter> dom (frontier c) = {}"
  shows "Store_Frontier (stored w c m) = frontier c"
proof
  fix orig
  show "Store_Frontier (stored w c m) orig = frontier c orig"
  proof (cases "frontier c orig")
    case (Some f)
    then have "packable (LastHLC f)" "orig \<notin> forgottenOrigins c" using assms(1,4) by (auto simp: clocks_packable_def ran_def)
    then show ?thesis using Some assms(2)
      by (cases f) (simp add: Store_Frontier_def stored_def stored_meta_def overlay_def front_value_def packed_ok domIff)
  next
    case None
    then have "orig \<notin> forgottenOrigins c \<Longrightarrow> frontier_tbl m orig = None" using assms(3) by blast
    then show ?thesis using None assms(2)
      by (simp add: Store_Frontier_def stored_def stored_meta_def stored_clocks_def overlay_def domIff)
  qed
qed

lemma stored_holds:
  assumes s: "synced c m" and ok: "storable c" and w: "write_ok w (SnapshotIncremental v c)"
  shows "holds (stored w c m) c"
proof -
  have p: "clocks_packable c" and g: "gaps_ok (appliedGaps c)" "card (dom (snapshotMarkers c)) < 2 ^ 32"
    using ok by (simp_all add: storable_def)
  have ms: "meta_synced c m" using s by (simp add: synced_def)
  have "store_row (stored w c m) k = (CL (row_at c k), Base (row_at c k)) \<and> (\<forall>col. store_cell (stored w c m) k col = cell_at c k col)" for k
    using synced_row [OF s, of k] stored_row [OF p] stored_cell [OF p] by (simp add: row_synced_def)
  moreover have "sender_seq (stored w c m) = senderNextSeq c \<and>
    meta_eq (stored w c m) (hlcLast c) (frontier c) (appliedGaps c) (snapshotMarkers c)"
  proof (cases "metaDirty c")
    case True
    have "sender_seq (stored w c m) orig = senderNextSeq c orig" for orig
      using ms True by (auto simp: meta_synced_def stored_def stored_meta_def stored_clocks_def overlay_def seq_at_def)
    moreover have "Store_Frontier (stored w c m) = frontier c"
      using load_stored_frontier [OF p True] ms by (simp add: meta_synced_def)
    moreover have "GetHLCLast (stored w c m) = hlcLast c"
      using p True by (simp add: GetHLCLast_def stored_def stored_meta_def packed_ok clocks_packable_def)
    moreover have "visits (wGaps w) (dom (appliedGaps c))" "visits (wMarkers w) (dom (snapshotMarkers c))"
      using w by (simp_all add: write_ok_def SnapshotIncremental_def)
    then have "GetAppliedGaps (stored w c m) = Some (Inr (appliedGaps c))" "GetSnapshotMarkers (stored w c m) = Inr (snapshotMarkers c)"
      using True applied_gaps_exact [OF g(1)] markers_exact [OF g(2)]
      by (simp_all add: GetAppliedGaps_def GetSnapshotMarkers_def stored_def stored_meta_def)
    ultimately show ?thesis by (simp add: meta_eq_def fun_eq_iff)
  next
    case False
    then have "sender_seq m = senderNextSeq c \<and> meta_eq m (hlcLast c) (frontier c) (appliedGaps c) (snapshotMarkers c)"
      using ms by (auto simp: meta_synced_def fun_eq_iff)
    with False show ?thesis
      by (simp add: stored_def stored_clocks_def meta_eq_def GetHLCLast_def Store_Frontier_def GetAppliedGaps_def
          GetSnapshotMarkers_def fun_eq_iff)
  qed
  ultimately show ?thesis by (simp add: holds_def)
qed

lemma seq_at_0: "marks_ok c k \<Longrightarrow> seq_at (dirtyClearedRows c) k = 0 \<longleftrightarrow> k \<notin> dom (dirtyClearedRows c)"
  by (auto simp: marks_ok_def seq_at_def split: option.splits)

text \<open>The commit of a snapshot captured earlier.\<close>

lemma commit_synced:
  assumes s: "synced c m" and s0: "synced c0 m" and l: "later c0 c" and p: "clocks_packable c0"
  shows "synced c (stored w c0 m)"
proof -
  let ?m = "stored w c0 m"
  have "row_synced c ?m k" for k
  proof -
    have lk: "later_row c0 c k" using l unfolding later_def by blast
    have sk: "row_synced c m k" "marks_ok c k" "marks_ok c0 k" using synced_row [OF s] synced_row [OF s0] by blast+
    have "masked ?m c k col = cell_at c k col" if col: "col \<notin> dirty_cols c k" for col
    proof (cases "k \<in> dom (dirtyClearedRows c)")
      case True
      then show ?thesis using sk(1) col by (simp add: row_synced_def masked_def)
    next
      case False
      then have "seq_at (dirtyClearedRows c) k = 0" "seq_at (dirtyClearedRows c0) k = 0"
        using lk seq_at_0 [OF sk(2)] by (simp_all add: later_row_def)
      then have "k \<notin> dom (dirtyClearedRows c0)" "col \<notin> dirty_cols c0 k"
        using lk col seq_at_0 [OF sk(3)] by (auto simp: later_row_def)
      then show ?thesis using sk(1) col False by (simp add: row_synced_def masked_def stored_cell [OF p])
    qed
    moreover have "store_row ?m k = (CL (row_at c k), Base (row_at c k))" if "k \<notin> dirtyRows c"
      using that lk sk(1) by (auto simp: row_synced_def later_row_def stored_row [OF p])
    ultimately show ?thesis by (simp add: row_synced_def)
  qed
  moreover have "meta_synced c ?m"
  proof (cases "metaDirty c0")
    case False
    then show ?thesis using s by (simp add: synced_def meta_synced_def stored_def stored_clocks_def meta_eq_def GetHLCLast_def
        Store_Frontier_def GetAppliedGaps_def GetSnapshotMarkers_def fun_eq_iff)
  next
    case True
    have lm: "dirtySenderSeqs c0 \<subseteq> dirtySenderSeqs c" "dom (frontier c0) \<union> forgottenOrigins c0 \<subseteq> dom (frontier c) \<union> forgottenOrigins c" "metaDirty c"
      using l True by (simp_all add: later_def later_meta_def)
    have ms: "meta_synced c m" using s by (simp add: synced_def)
    have "dom (frontier_tbl ?m) \<subseteq> dom (frontier_tbl m) \<union> dom (frontier c0)"
      using True by (auto simp: stored_def stored_meta_def stored_clocks_def overlay_def split: if_splits)
    moreover have "dom (frontier_tbl m) \<subseteq> dom (frontier c) \<union> forgottenOrigins c" using ms by (simp add: meta_synced_def)
    ultimately have "dom (frontier_tbl ?m) \<subseteq> dom (frontier c) \<union> forgottenOrigins c" using lm(2) by blast
    moreover have "sender_seq ?m orig = sender_seq m orig" if "orig \<notin> dirtySenderSeqs c" for orig
      using that lm(1) True by (auto simp: stored_def stored_meta_def stored_clocks_def overlay_def)
    ultimately show ?thesis using ms lm(3) by (simp add: meta_synced_def)
  qed
  ultimately show ?thesis using s by (simp add: synced_def)
qed

section \<open>Release\<close>

lemma clear_rows_fold: "fold clear_row rs c = c\<lparr>dirtyRows := dirtyRows c -
    {k. \<exists>r \<in> set rs. re_key r = k \<and> (\<exists>st. rowClock c k = Some st \<and> rowClockCoveredBy st r)}\<rparr>"
proof (induction rs arbitrary: c)
  case (Cons r rs)
  have "clear_row r c = c\<lparr>dirtyRows := dirtyRows c - {k. re_key r = k \<and> (\<exists>st. rowClock c k = Some st \<and> rowClockCoveredBy st r)}\<rparr>"
    by (rule cache.equality) (auto simp: clear_row_def split: option.split)
  then show ?case using Cons by (simp add: Diff_eq) (rule cache.equality; auto)
qed simp

lemma clear_forgotten_fold:
  "fold clear_forgotten os c = c\<lparr>forgottenOrigins := forgottenOrigins c - {orig \<in> set os. frontier c orig = None}\<rparr>"
proof (induction os arbitrary: c)
  case (Cons orig os)
  have "clear_forgotten orig c = c\<lparr>forgottenOrigins := forgottenOrigins c - {o'. o' = orig \<and> frontier c orig = None}\<rparr>"
    by (rule cache.equality) (auto simp: clear_forgotten_def)
  then show ?case using Cons by simp (rule cache.equality; auto)
qed simp

definition epoch_covered :: "snapshot \<Rightarrow> cache \<Rightarrow> row_key \<Rightarrow> bool" where
  "epoch_covered s c k \<longleftrightarrow> (\<exists>cr \<in> set (snClearedRows s). cr_key cr = k \<and> seq_at (dirtyClearedRows c) k = cr_Epoch cr)"

lemma clear_cleared_fold:
  "fold clear_cleared crs c = c\<lparr>dirtyClearedRows := (\<lambda>k.
     if \<exists>cr \<in> set crs. cr_key cr = k \<and> seq_at (dirtyClearedRows c) k = cr_Epoch cr then None else dirtyClearedRows c k)\<rparr>"
proof (induction crs arbitrary: c)
  case (Cons cr crs)
  show ?case
  proof (cases "seq_at (dirtyClearedRows c) (cr_key cr) = cr_Epoch cr")
    case False
    then show ?thesis using Cons by (simp add: clear_cleared_def) (rule cache.equality; auto simp: fun_eq_iff)
  next
    case True
    then show ?thesis using Cons by (simp add: clear_cleared_def) (rule cache.equality; auto simp: fun_eq_iff seq_at_def)
  qed
qed simp

lemma clear_cell_cases:
  "\<exists>D. clear_cell ce c = c\<lparr>dirtyCells := D\<rparr> \<and> ({} \<notin> ran (dirtyCells c) \<longrightarrow> {} \<notin> ran D) \<and>
    (\<forall>k. (case D k of Some cols \<Rightarrow> cols | None \<Rightarrow> {}) =
      dirty_cols c k - {col. ce_key ce = k \<and> ce_Column ce = col \<and> cell_covered c ce})"
proof (cases "cell_covered c ce")
  case False
  then show ?thesis by (intro exI [of _ "dirtyCells c"]) (simp add: clear_cell_def dirty_cols_def)
next
  case cov: True
  show ?thesis
  proof (cases "dirtyCells c (ce_key ce)")
    case None
    then show ?thesis using cov by (intro exI [of _ "dirtyCells c"]) (auto simp: clear_cell_def dirty_cols_def)
  next
    case (Some cols)
    let ?D = "(dirtyCells c)(ce_key ce := if cols - {ce_Column ce} = {} then None else Some (cols - {ce_Column ce}))"
    have "{} \<notin> ran (dirtyCells c) \<longrightarrow> {} \<notin> ran ?D" by (auto simp: ran_def split: if_splits)
    moreover have "clear_cell ce c = c\<lparr>dirtyCells := ?D\<rparr>" using cov Some by (simp add: clear_cell_def Let_def)
    moreover have "(case ?D k of Some cols \<Rightarrow> cols | None \<Rightarrow> {}) =
        dirty_cols c k - {col. ce_key ce = k \<and> ce_Column ce = col \<and> cell_covered c ce}" for k
      using cov Some by (cases "k = ce_key ce") (auto simp: dirty_cols_def)
    ultimately show ?thesis by blast
  qed
qed

lemma clear_cell_fold:
  "\<exists>D. fold clear_cell ces c = c\<lparr>dirtyCells := D\<rparr> \<and> ({} \<notin> ran (dirtyCells c) \<longrightarrow> {} \<notin> ran D) \<and>
    (\<forall>k. (case D k of Some cols \<Rightarrow> cols | None \<Rightarrow> {}) = dirty_cols c k - {col. \<exists>ce \<in> set ces. ce_key ce = k \<and> ce_Column ce = col \<and> cell_covered c ce})"
proof (induction ces arbitrary: c)
  case Nil
  then show ?case by (intro exI [of _ "dirtyCells c"]) (simp add: dirty_cols_def)
next
  case (Cons ce ces)
  obtain D where D: "clear_cell ce c = c\<lparr>dirtyCells := D\<rparr>" "{} \<notin> ran (dirtyCells c) \<longrightarrow> {} \<notin> ran D"
    "\<And>k. (case D k of Some cols \<Rightarrow> cols | None \<Rightarrow> {}) = dirty_cols c k - {col. ce_key ce = k \<and> ce_Column ce = col \<and> cell_covered c ce}"
    using clear_cell_cases [of ce c] by blast
  have same: "cell_covered (c\<lparr>dirtyCells := D\<rparr>) = cell_covered c"
    by (simp add: fun_eq_iff cell_covered_def cell_at_def CellStamp_def RowState_def)
  obtain D' where D': "fold clear_cell ces (c\<lparr>dirtyCells := D\<rparr>) = c\<lparr>dirtyCells := D\<rparr>\<lparr>dirtyCells := D'\<rparr>" "{} \<notin> ran D \<longrightarrow> {} \<notin> ran D'"
    "\<And>k. (case D' k of Some cols \<Rightarrow> cols | None \<Rightarrow> {}) = dirty_cols (c\<lparr>dirtyCells := D\<rparr>) k -
       {col. \<exists>ce \<in> set ces. ce_key ce = k \<and> ce_Column ce = col \<and> cell_covered c ce}"
    using Cons.IH [of "c\<lparr>dirtyCells := D\<rparr>"] unfolding same by (auto simp: dirty_cols_def)
  have "dirty_cols (c\<lparr>dirtyCells := D\<rparr>) k = dirty_cols c k - {col. ce_key ce = k \<and> ce_Column ce = col \<and> cell_covered c ce}" for k
    using D(3) [of k] by (simp add: dirty_cols_def)
  then show ?case using D D' by (intro exI [of _ D']) auto
qed

end
