(* ===== verification/Snapshot_Cycle.thy ===== *)
theory Snapshot_Cycle
  imports Snapshot
begin

text \<open>
  The cycle capture, write, release of \<open>internal/nodestate/snapshotter.go\<close>, interleaved with the
  methods of the cache and with restarts: the synchronisation of cache and store is an invariant, so
  a store that took a snapshot gives back the captured cache.
\<close>

section \<open>Release keeps cache and store synchronised\<close>

text \<open>
  The check by value cannot tell a cell that was cleared and written again with its old stamp from one
  that was never touched: such a cell must not occur between capture and release.
\<close>

definition no_reput :: "snapshot \<Rightarrow> cache \<Rightarrow> bool" where
  "no_reput s c \<longleftrightarrow> (\<forall>ce \<in> set (snCells s). ce_Present ce \<longrightarrow> ce_key ce \<in> dom (dirtyClearedRows c) \<longrightarrow>
     epoch_covered s c (ce_key ce) \<or> \<not> cell_covered c ce)"

lemma cell_covered_snap: "cell_covered c (cell_snap c0 k col) \<Longrightarrow> cell_at c k col = cell_at c0 k col"
  by (auto simp: cell_covered_def cell_snap_def Let_def split: option.splits)

lemma snCells_set:
  "capture_ok v c \<Longrightarrow> ce \<in> set (snCells (SnapshotIncremental v c)) \<longleftrightarrow> (\<exists>k. \<exists>col \<in> dirty_cols c k. ce = cell_snap c k col)"
  unfolding snCells_flat set_map set_vCells by auto

lemma cell_snap_fields [simp]: "ce_key (cell_snap c k col) = k" "ce_Column (cell_snap c k col) = col"
  "ce_Present (cell_snap c k col) \<longleftrightarrow> cell_at c k col \<noteq> None"
  by (simp_all add: cell_snap_def split: option.split)

lemma snCells_key:
  assumes "capture_ok v c"
  shows "(\<exists>ce \<in> set (snCells (SnapshotIncremental v c)). ce_key ce = k \<and> ce_Column ce = col \<and> P ce) \<longleftrightarrow>
    col \<in> dirty_cols c k \<and> P (cell_snap c k col)" (is "?L \<longleftrightarrow> ?R")
proof
  assume ?L
  then obtain ce where ce: "ce \<in> set (snCells (SnapshotIncremental v c))" "ce_key ce = k" "ce_Column ce = col" "P ce" by blast
  from ce(1) obtain k' col' where "col' \<in> dirty_cols c k'" "ce = cell_snap c k' col'" using snCells_set [OF assms] by blast
  with ce show ?R by simp
next
  assume ?R
  moreover from this have "cell_snap c k col \<in> set (snCells (SnapshotIncremental v c))" using snCells_set [OF assms] by blast
  ultimately show ?L by (intro bexI [of _ "cell_snap c k col"]) simp_all
qed

lemma epoch_covered_snap:
  "capture_ok v c0 \<Longrightarrow> epoch_covered (SnapshotIncremental v c0) c k \<longleftrightarrow>
    k \<in> dom (dirtyClearedRows c0) \<and> seq_at (dirtyClearedRows c) k = seq_at (dirtyClearedRows c0) k"
  by (auto simp: epoch_covered_def SnapshotIncremental_def capture_ok_def visits_def)

text \<open>The state after the loops, before the last test.\<close>

definition released :: "capture_order \<Rightarrow> cache \<Rightarrow> cache \<Rightarrow> cache \<Rightarrow> bool" where
  "released v c0 c c1 \<longleftrightarrow> rowClock c1 = rowClock c \<and> senderNextSeq c1 = senderNextSeq c \<and> hlcLast c1 = hlcLast c \<and>
     frontier c1 = frontier c \<and> appliedGaps c1 = appliedGaps c \<and> snapshotMarkers c1 = snapshotMarkers c \<and>
     metaDirty c1 = metaDirty c \<and>
     dirtyRows c1 = dirtyRows c - {k \<in> dirtyRows c0. \<exists>st. rowClock c k = Some st \<and> rowClockCoveredBy st (row_snap c0 k)} \<and>
     dirtySenderSeqs c1 = {orig \<in> dirtySenderSeqs c. \<not> (orig \<in> dirtySenderSeqs c0 \<and>
        seq_at (senderNextSeq c0) orig = seq_at (senderNextSeq c) orig)} \<and>
     dirtyFrontiers c1 = {orig \<in> dirtyFrontiers c. frontier c0 orig \<noteq> Some (front_at c orig)} \<and>
     forgottenOrigins c1 = forgottenOrigins c - {orig \<in> forgottenOrigins c0. frontier c orig = None} \<and>
     dirtyClearedRows c1 = (\<lambda>k. if epoch_covered (SnapshotIncremental v c0) c k then None else dirtyClearedRows c k) \<and>
     (\<forall>k. dirty_cols c1 k = dirty_cols c k - {col \<in> dirty_cols c0 k. cell_covered c (cell_snap c0 k col)}) \<and>
     ({} \<notin> ran (dirtyCells c) \<longrightarrow> {} \<notin> ran (dirtyCells c1))"

lemma releasedD:
  assumes "released v c0 c c1"
  shows "rowClock c1 = rowClock c" "senderNextSeq c1 = senderNextSeq c" "hlcLast c1 = hlcLast c" "frontier c1 = frontier c"
    "appliedGaps c1 = appliedGaps c" "snapshotMarkers c1 = snapshotMarkers c" "metaDirty c1 = metaDirty c"
    "dirtyRows c1 = dirtyRows c - {k \<in> dirtyRows c0. \<exists>st. rowClock c k = Some st \<and> rowClockCoveredBy st (row_snap c0 k)}"
    "dirtySenderSeqs c1 = {orig \<in> dirtySenderSeqs c. \<not> (orig \<in> dirtySenderSeqs c0 \<and>
        seq_at (senderNextSeq c0) orig = seq_at (senderNextSeq c) orig)}"
    "dirtyFrontiers c1 = {orig \<in> dirtyFrontiers c. frontier c0 orig \<noteq> Some (front_at c orig)}"
    "forgottenOrigins c1 = forgottenOrigins c - {orig \<in> forgottenOrigins c0. frontier c orig = None}"
    "dirtyClearedRows c1 = (\<lambda>k. if epoch_covered (SnapshotIncremental v c0) c k then None else dirtyClearedRows c k)"
    "\<forall>k. dirty_cols c1 k = dirty_cols c k - {col \<in> dirty_cols c0 k. cell_covered c (cell_snap c0 k col)}"
    "{} \<notin> ran (dirtyCells c) \<longrightarrow> {} \<notin> ran (dirtyCells c1)"
  using assms unfolding released_def by - (elim conjE, assumption)+

lemma release_loops:
  assumes "capture_ok v c0"
  shows "\<exists>c1. released v c0 c c1 \<and> ClearSnapshotDirty (SnapshotIncremental v c0) c =
    (if meta_quiet (SnapshotIncremental v c0) c1 then c1\<lparr>metaDirty := False\<rparr> else c1)"
proof -
  let ?s = "SnapshotIncremental v c0"
  define a where "a = fold clear_cleared (snClearedRows ?s) (fold clear_forgotten (snForgotten ?s)
    (clear_frontiers ?s (clear_senders ?s (fold clear_row (snRows ?s) c))))"
  have a: "a = c\<lparr>dirtyRows := dirtyRows a, dirtySenderSeqs := dirtySenderSeqs a, dirtyFrontiers := dirtyFrontiers a,
      forgottenOrigins := forgottenOrigins a, dirtyClearedRows := dirtyClearedRows a,
      persistedFrontier := persistedFrontier a, prevPersistedFrontier := prevPersistedFrontier a\<rparr>"
    by (rule cache.equality)
      (simp_all add: a_def clear_cleared_fold clear_forgotten_fold clear_frontiers_def clear_senders_def clear_rows_fold Let_def)
  have rows: "set (vRows v) = dirtyRows c0" "set (vForgotten v) = forgottenOrigins c0"
    using assms by (simp_all add: capture_ok_def visits_def)
  have fields: "dirtyRows a = dirtyRows c - {k \<in> dirtyRows c0. \<exists>st. rowClock c k = Some st \<and> rowClockCoveredBy st (row_snap c0 k)}"
    "dirtySenderSeqs a = {orig \<in> dirtySenderSeqs c. \<not> (orig \<in> dirtySenderSeqs c0 \<and>
        seq_at (senderNextSeq c0) orig = seq_at (senderNextSeq c) orig)}"
    "dirtyFrontiers a = {orig \<in> dirtyFrontiers c. frontier c0 orig \<noteq> Some (front_at c orig)}"
    "forgottenOrigins a = forgottenOrigins c - {orig \<in> forgottenOrigins c0. frontier c orig = None}"
    "dirtyClearedRows a = (\<lambda>k. if epoch_covered ?s c k then None else dirtyClearedRows c k)"
    unfolding a_def clear_cleared_fold clear_forgotten_fold clear_frontiers_def clear_senders_def clear_rows_fold Let_def epoch_covered_def
    by (auto simp: SnapshotIncremental_def rows front_at_def row_snap_def split: if_splits)
  obtain D where D: "fold clear_cell (snCells ?s) a = a\<lparr>dirtyCells := D\<rparr>" "{} \<notin> ran (dirtyCells a) \<longrightarrow> {} \<notin> ran D"
    "\<And>k. (case D k of Some cols \<Rightarrow> cols | None \<Rightarrow> {}) =
      dirty_cols a k - {col. \<exists>ce \<in> set (snCells ?s). ce_key ce = k \<and> ce_Column ce = col \<and> cell_covered a ce}"
    using clear_cell_fold [of "snCells ?s" a] by blast
  have same: "rowClock a = rowClock c" "dirtyCells a = dirtyCells c" "senderNextSeq a = senderNextSeq c" "hlcLast a = hlcLast c"
    "frontier a = frontier c" "appliedGaps a = appliedGaps c" "snapshotMarkers a = snapshotMarkers c" "metaDirty a = metaDirty c"
    by (subst a; simp)+
  have cov: "cell_covered a = cell_covered c" "dirty_cols a = dirty_cols c"
    by (intro ext, simp add: same cell_covered_def cell_at_def CellStamp_def RowState_def dirty_cols_def)+
  have "{col. \<exists>ce \<in> set (snCells ?s). ce_key ce = k \<and> ce_Column ce = col \<and> cell_covered a ce} =
      {col \<in> dirty_cols c0 k. cell_covered c (cell_snap c0 k col)}" for k
    unfolding cov using snCells_key [OF assms] by blast
  then have "released v c0 c (a\<lparr>dirtyCells := D\<rparr>)"
    using D(2,3) by (simp add: released_def same fields cov dirty_cols_def [of "a\<lparr>dirtyCells := D\<rparr>"])
  moreover have "ClearSnapshotDirty ?s c =
      (if meta_quiet ?s (a\<lparr>dirtyCells := D\<rparr>) then a\<lparr>dirtyCells := D\<rparr>\<lparr>metaDirty := False\<rparr> else a\<lparr>dirtyCells := D\<rparr>)"
    unfolding ClearSnapshotDirty_def Let_def a_def [symmetric] D(1) ..
  ultimately show ?thesis by blast
qed

lemma covered_same: "appliedGapsCoveredBy cur snap \<Longrightarrow> finite (dom snap) \<Longrightarrow> cur = snap"
proof -
  assume cov: "appliedGapsCoveredBy cur snap" and fin: "finite (dom snap)"
  then have "dom cur \<subseteq> dom snap" "card (dom cur) = card (dom snap)" by (auto simp: appliedGapsCoveredBy_def)
  then have "dom cur = dom snap" using fin by (simp add: card_subset_eq)
  then show ?thesis using cov by (intro ext) (metis appliedGapsCoveredBy_def domIff)
qed

lemma released_row:
  assumes s: "synced c m" and s0: "synced c0 m0" and h: "holds m c0" and l: "later c0 c"
    and v: "capture_ok v c0" and nr: "no_reput (SnapshotIncremental v c0) c" and r: "released v c0 c c1"
  shows "row_synced c1 m k \<and> marks_ok c1 k"
proof -
  let ?s = "SnapshotIncremental v c0"
  have sk: "row_synced c m k" "marks_ok c k" "row_synced c0 m0 k" using synced_row [OF s] synced_row [OF s0] by blast+
  have lk: "later_row c0 c k" using l unfolding later_def by blast
  have hk: "store_row m k = (CL (row_at c0 k), Base (row_at c0 k))" "store_cell m k col = cell_at c0 k col" for col
    using h unfolding holds_def by blast+
  have rk: "rowClock c1 = rowClock c" "dirty_cols c1 k = dirty_cols c k - {col \<in> dirty_cols c0 k. cell_covered c (cell_snap c0 k col)}"
    "k \<in> dirtyRows c1 \<longleftrightarrow> k \<in> dirtyRows c \<and> \<not> (k \<in> dirtyRows c0 \<and> (\<exists>st. rowClock c k = Some st \<and> rowClockCoveredBy st (row_snap c0 k)))"
    "dirtyClearedRows c1 k = (if epoch_covered ?s c k then None else dirtyClearedRows c k)"
    using releasedD(1,8,12) [OF r] releasedD(13) [OF r, rule_format, of k] by simp_all
  have at: "row_at c1 k = row_at c k" "cell_at c1 k = cell_at c k"
    by (simp_all add: row_at_def cell_at_def CellStamp_def RowState_def rk(1) fun_eq_iff)
  have row: "store_row m k = (CL (row_at c k), Base (row_at c k))" if "k \<notin> dirtyRows c1"
    using that sk(1) rk(3) hk(1) by (auto simp: row_synced_def rowClockCoveredBy_def row_snap_def row_at_def RowState_def)
  have cell: "masked m c1 k col = cell_at c k col" if col: "col \<notin> dirty_cols c1 k" for col
  proof (cases "col \<in> dirty_cols c k")
    case True
    then have c0: "col \<in> dirty_cols c0 k" and cov: "cell_covered c (cell_snap c0 k col)" using col rk(2) by auto
    then have eq: "cell_at c k col = cell_at c0 k col" by (simp add: cell_covered_snap)
    show ?thesis
    proof (cases "k \<in> dom (dirtyClearedRows c1)")
      case False
      then show ?thesis by (simp add: masked_def hk eq)
    next
      case True
      then have "\<not> epoch_covered ?s c k" "k \<in> dom (dirtyClearedRows c)" using rk(4) by (simp_all add: domIff split: if_splits)
      moreover have "cell_snap c0 k col \<in> set (snCells ?s)" using c0 snCells_set [OF v] by blast
      ultimately have "cell_at c0 k col = None" using nr cov unfolding no_reput_def by force
      then show ?thesis using True by (simp add: masked_def eq)
    qed
  next
    case False
    then have m: "masked m c k col = cell_at c k col" using sk(1) by (simp add: row_synced_def)
    show ?thesis
    proof (cases "epoch_covered ?s c k")
      case no: False
      then have "k \<in> dom (dirtyClearedRows c1) \<longleftrightarrow> k \<in> dom (dirtyClearedRows c)" using rk(4) by (simp add: domIff)
      then show ?thesis using m by (simp add: masked_def)
    next
      case True
      then have e: "k \<in> dom (dirtyClearedRows c0)" "seq_at (dirtyClearedRows c) k = seq_at (dirtyClearedRows c0) k"
        using epoch_covered_snap [OF v] by auto
      then have "col \<notin> dirty_cols c0 k" using lk False by (auto simp: later_row_def)
      then have "cell_at c0 k col = None" using sk(3) e(1) by (simp add: row_synced_def masked_def)
      moreover have "k \<in> dom (dirtyClearedRows c)"
        using e seq_at_0 [OF sk(2)] seq_at_0 [of c0 k] synced_row [OF s0, of k] by auto
      then have "cell_at c k col = None" using m by (simp add: masked_def)
      ultimately show ?thesis using True rk(4) by (simp add: masked_def hk domIff)
    qed
  qed
  have "marks_ok c1 k" using sk(2) rk by (auto simp: marks_ok_def at)
  with row cell show ?thesis by (simp add: row_synced_def at)
qed

lemma released_meta:
  assumes ms: "meta_synced c m" and m0: "meta_synced c0 m0" and h: "holds m c0" and r: "released v c0 c c1"
  shows "meta_synced c1 m"
proof -
  have eq: "senderNextSeq c1 = senderNextSeq c" "frontier c1 = frontier c" "metaDirty c1 = metaDirty c" "hlcLast c1 = hlcLast c"
     "appliedGaps c1 = appliedGaps c" "snapshotMarkers c1 = snapshotMarkers c"
     "dirtySenderSeqs c1 = {orig \<in> dirtySenderSeqs c. \<not> (orig \<in> dirtySenderSeqs c0 \<and>
        seq_at (senderNextSeq c0) orig = seq_at (senderNextSeq c) orig)}"
     "dirtyFrontiers c1 \<subseteq> dirtyFrontiers c" "forgottenOrigins c1 = forgottenOrigins c - {orig \<in> forgottenOrigins c0. frontier c orig = None}"
    by (rule releasedD(2) [OF r] releasedD(4) [OF r] releasedD(7) [OF r] releasedD(3) [OF r] releasedD(5) [OF r]
        releasedD(6) [OF r] releasedD(9) [OF r] releasedD(11) [OF r] | simp add: releasedD(10) [OF r])+
  have "frontier_tbl m orig = None" if "orig \<in> forgottenOrigins c0" for orig
  proof -
    have "frontier c0 orig = None" using m0 that by (auto simp: meta_synced_def)
    moreover have "Store_Frontier m = frontier c0" using h by (simp add: holds_def meta_eq_def)
    ultimately show ?thesis by (metis Store_Frontier_def option.map_disc_iff)
  qed
  then have "dom (frontier_tbl m) \<subseteq> dom (frontier c1) \<union> forgottenOrigins c1"
    using meta_syncedD(3) [OF ms] unfolding eq(2,9) by auto
  moreover have "sender_seq m orig = senderNextSeq c orig" if "orig \<notin> dirtySenderSeqs c1" for orig
  proof (cases "orig \<in> dirtySenderSeqs c")
    case True
    then have "orig \<in> dom (senderNextSeq c0)" "orig \<in> dom (senderNextSeq c)"
      "seq_at (senderNextSeq c0) orig = seq_at (senderNextSeq c) orig"
      using that ms m0 eq(7) by (auto simp: meta_synced_def)
    then show ?thesis using h by (auto simp: holds_def seq_at_def)
  qed (use ms in \<open>simp add: meta_synced_def\<close>)
  moreover have "dirtySenderSeqs c1 \<subseteq> dirtySenderSeqs c" "forgottenOrigins c1 \<subseteq> forgottenOrigins c"
    using eq(7,9) by blast+
  ultimately show ?thesis using meta_syncedD(2,4-6) [OF ms] eq(1-6,8)
    unfolding meta_synced_def by (intro conjI allI impI) (simp_all, blast+)
qed

lemma release_synced:
  assumes s: "synced c m" and s0: "synced c0 m0" and h: "holds m c0" and l: "later c0 c" and fin: "finite (dom (appliedGaps c0))"
    and v: "capture_ok v c0" and nr: "no_reput (SnapshotIncremental v c0) c"
  shows "synced (ClearSnapshotDirty (SnapshotIncremental v c0) c) m"
proof -
  let ?s = "SnapshotIncremental v c0"
  obtain c1 where r: "released v c0 c c1" and c1: "ClearSnapshotDirty ?s c = (if meta_quiet ?s c1 then c1\<lparr>metaDirty := False\<rparr> else c1)"
    using release_loops [OF v] by blast
  have "meta_synced c m" "meta_synced c0 m0" using s s0 by (simp_all add: synced_def)
  then have ms: "meta_synced c1 m" using released_meta [OF _ _ h r] by blast
  have ran: "{} \<notin> ran (dirtyCells c1)" using releasedD(14) [OF r] s by (simp add: synced_def)
  have rows: "row_synced c1 m k \<and> marks_ok c1 k" for k by (rule released_row [OF s s0 h l v nr r])
  show ?thesis
  proof (cases "meta_quiet ?s c1")
    case False
    then show ?thesis using c1 ms ran rows by (simp add: synced_def)
  next
    case True
    then have q: "dirtySenderSeqs c1 = {}" "forgottenOrigins c1 = {}"
      "hlcLast c1 = hlcLast c0" "frontier c1 = frontier c0" "appliedGapsCoveredBy (appliedGaps c1) (appliedGaps c0)"
      "snapshotMarkers c1 = snapshotMarkers c0"
      by (simp_all add: meta_quiet_def SnapshotIncremental_def)
    have "meta_eq m (hlcLast c1) (frontier c1) (appliedGaps c1) (snapshotMarkers c1)"
      using h covered_same [OF q(5) fin] q by (simp add: holds_def)
    then have "meta_synced (c1\<lparr>metaDirty := False\<rparr>) m" using ms q(1,2) by (simp add: meta_synced_def)
    moreover have "row_fields (c1\<lparr>metaDirty := False\<rparr>) k = row_fields c1 k" for k by (simp add: row_fields_def)
    then have "row_synced (c1\<lparr>metaDirty := False\<rparr>) m k \<and> marks_ok (c1\<lparr>metaDirty := False\<rparr>) k" for k
      using rows [of k] row_fields_same [where k = k] by blast
    ultimately show ?thesis using c1 True ran by (simp add: synced_def)
  qed
qed

section \<open>Load\<close>

definition loaded_row :: "meta_store \<Rightarrow> row_key \<rightharpoonup> row_state" where
  "loaded_row m k = map_option (\<lambda>(cl, h). zero_row\<lparr>CL := cl, Base := unpacked h\<rparr>) (row_clock m k)"

lemma load_rows: "set rows \<subseteq> dom (row_clock m) \<Longrightarrow>
    fold load_row (AllRowClocks rows m) c = c\<lparr>rowClock := overlay (set rows) (loaded_row m) (rowClock c)\<rparr>"
proof (induction rows arbitrary: c)
  case (Cons k rows)
  then have "fold load_row (AllRowClocks [k] m) c = c\<lparr>rowClock := overlay {k} (loaded_row m) (rowClock c)\<rparr>"
    by (intro cache.equality) (auto simp: AllRowClocks_def load_row_def loaded_row_def unpacked_def overlay_def fun_eq_iff)
  moreover have "AllRowClocks (k # rows) m = AllRowClocks [k] m @ AllRowClocks rows m" by (simp add: AllRowClocks_def)
  ultimately show ?case using Cons by simp
qed (simp add: AllRowClocks_def)

lemma load_cells:
  assumes "set kcs \<subseteq> dom (cell_clock m)"
  shows "\<exists>R. fold load_cell (AllCellClocks kcs m) c = c\<lparr>rowClock := R\<rparr> \<and>
    (\<forall>k. CL (row_at (c\<lparr>rowClock := R\<rparr>) k) = CL (row_at c k) \<and> Base (row_at (c\<lparr>rowClock := R\<rparr>) k) = Base (row_at c k)) \<and>
    (\<forall>k col. cell_at (c\<lparr>rowClock := R\<rparr>) k col = (if (k, col) \<in> set kcs then store_cell m k col else cell_at c k col))"
  using assms
proof (induction kcs arbitrary: c)
  case Nil
  then show ?case by (intro exI [of _ "rowClock c"]) (simp add: AllCellClocks_def)
next
  case (Cons kc kcs)
  obtain k0 col0 where kc: "kc = (k0, col0)" by fastforce
  then obtain h where h: "cell_clock m (k0, col0) = Some h" using Cons.prems by auto
  let ?st = "row_at c k0" and ?cells = "case Cells (row_at c k0) of None \<Rightarrow> Mapping.empty | Some cs \<Rightarrow> cs"
  let ?c = "c\<lparr>rowClock := (rowClock c)(k0 \<mapsto> ?st\<lparr>Cells := Some (Mapping.update col0 (unpacked h) ?cells)\<rparr>)\<rparr>"
  have c: "fold load_cell (AllCellClocks (kc # kcs) m) c = fold load_cell (AllCellClocks kcs m) ?c"
    by (cases h) (simp add: AllCellClocks_def load_cell_def kc h unpacked_def Let_def)
  have row: "row_at ?c k = (if k = k0 then ?st\<lparr>Cells := Some (Mapping.update col0 (unpacked h) ?cells)\<rparr> else row_at c k)" for k
    by (cases k) (simp add: row_at_def RowState_def)
  have cell: "cell_at ?c k col = (if (k, col) = kc then store_cell m k col else cell_at c k col)" for k col
    by (auto simp: cell_at_cells row kc store_cell_def h lookup_update' split: option.split)
  obtain R where R: "fold load_cell (AllCellClocks kcs m) ?c = ?c\<lparr>rowClock := R\<rparr>"
    "\<forall>k. CL (row_at (?c\<lparr>rowClock := R\<rparr>) k) = CL (row_at ?c k) \<and> Base (row_at (?c\<lparr>rowClock := R\<rparr>) k) = Base (row_at ?c k)"
    "\<forall>k col. cell_at (?c\<lparr>rowClock := R\<rparr>) k col = (if (k, col) \<in> set kcs then store_cell m k col else cell_at ?c k col)"
    using Cons.IH [of ?c] Cons.prems by (meson set_subset_Cons subset_trans)
  have "CL (row_at ?c k) = CL (row_at c k) \<and> Base (row_at ?c k) = Base (row_at c k)" for k by (simp add: row)
  then show ?case using R c cell by (intro exI [of _ R]) (auto simp del: split_paired_All)
qed

text \<open>A freshly loaded cache carries no mark and the store holds it.\<close>

definition unmarked :: "cache \<Rightarrow> bool" where
  "unmarked c \<longleftrightarrow> dirtyRows c = {} \<and> dirtyFrontiers c = {} \<and> dirtySenderSeqs c = {} \<and> dirtyCells c = Map.empty \<and>
     dirtyClearedRows c = Map.empty \<and> forgottenOrigins c = {} \<and> \<not> metaDirty c"

lemma load_holds:
  assumes "LoadFromMeta rows cells m (NewCache orig) = Some (Inr c)"
    and rows: "visits rows (dom (row_clock m))" and cells: "visits cells (dom (cell_clock m))"
  shows "holds m c \<and> unmarked c"
proof -
  obtain gaps mk where g: "GetAppliedGaps m = Some (Inr gaps)" "GetSnapshotMarkers m = Inr mk"
    using assms(1) by (auto simp: LoadFromMeta_def bindE_Inr_iff split: option.splits)
  let ?c = "(NewCache orig)\<lparr>senderNextSeq := sender_seq m, hlcLast := GetHLCLast m, frontier := Store_Frontier m\<rparr>"
  define c1 where "c1 = fold load_row (AllRowClocks rows m) ?c"
  have set: "set rows = dom (row_clock m)" "set cells = dom (cell_clock m)" using rows cells by (simp_all add: visits_def)
  have c1: "c1 = ?c\<lparr>rowClock := overlay (dom (row_clock m)) (loaded_row m) Map.empty\<rparr>"
    using load_rows [of rows m ?c] set by (simp add: c1_def NewCache_def)
  obtain R where R: "fold load_cell (AllCellClocks cells m) c1 = c1\<lparr>rowClock := R\<rparr>"
    "\<And>k. CL (row_at (c1\<lparr>rowClock := R\<rparr>) k) = CL (row_at c1 k) \<and> Base (row_at (c1\<lparr>rowClock := R\<rparr>) k) = Base (row_at c1 k)"
    "\<And>k col. cell_at (c1\<lparr>rowClock := R\<rparr>) k col = (if (k, col) \<in> dom (cell_clock m) then store_cell m k col else cell_at c1 k col)"
    using load_cells [of cells m c1] unfolding set(2) by (meson order_refl)
  have "fold load_cell (AllCellClocks cells m) (fold load_row (AllRowClocks rows m) ?c) = c1\<lparr>rowClock := R\<rparr>" using R(1) by (simp add: c1_def)
  then have c: "c = c1\<lparr>rowClock := R\<rparr>\<lparr>appliedGaps := gaps, snapshotMarkers := mk, dirtyRows := {}, dirtyFrontiers := {},
      dirtyCells := Map.empty, dirtyClearedRows := Map.empty, metaDirty := False\<rparr>"
    using assms(1) by (auto simp: LoadFromMeta_def g Let_def NewCache_def SenderSeqs_def c1)
  have at: "row_at c = row_at (c1\<lparr>rowClock := R\<rparr>)" "cell_at c = cell_at (c1\<lparr>rowClock := R\<rparr>)"
    by (intro ext, simp add: c row_at_def cell_at_def CellStamp_def RowState_def)+
  have one: "row_at c1 k = (case loaded_row m k of Some st \<Rightarrow> st | None \<Rightarrow> zero_row)" for k
    by (cases "row_clock m k") (simp_all add: c1 row_at_def RowState_def overlay_def loaded_row_def domIff)
  have "store_row m k = (CL (row_at c k), Base (row_at c k))" for k
    using R(2) [of k] by (simp add: at one store_row_def loaded_row_def zero_row_def split: option.split)
  moreover have "cell_at c1 k col = None" for k col
    by (simp add: cell_at_cells one loaded_row_def zero_row_def split: option.split)
  then have "store_cell m k col = cell_at c k col" for k col
    using R(3) [of k col] by (cases "cell_clock m (k, col)") (simp_all add: at store_cell_def domIff)
  moreover have "sender_seq m = senderNextSeq c" "meta_eq m (hlcLast c) (frontier c) (appliedGaps c) (snapshotMarkers c)" "unmarked c"
    by (simp_all add: c c1 meta_eq_def g unmarked_def NewCache_def)
  ultimately show ?thesis by (simp add: holds_def del: split_paired_All)
qed

lemma load_total:
  assumes "GetAppliedGaps m = Some (Inr gaps)" "GetSnapshotMarkers m = Inr mk"
  shows "\<exists>c'. LoadFromMeta rows cells m c = Some (Inr c')"
  using assms by (simp add: LoadFromMeta_def Let_def)

lemma unmarked_synced:
  assumes h: "holds m c" and u: "unmarked c"
  shows "synced c m"
proof -
  have "row_synced c m k \<and> marks_ok c k" for k
    using h u unfolding holds_def by (simp add: row_synced_def marks_ok_def unmarked_def masked_def dirty_cols_def del: split_paired_All)
  moreover have "frontier c = Store_Frontier m" using h by (simp add: holds_def meta_eq_def)
  then have "dom (frontier_tbl m) = dom (frontier c)" by (simp add: set_eq_iff domIff Store_Frontier_def)
  then have "meta_synced c m" using h u by (simp add: holds_def meta_synced_def unmarked_def)
  ultimately show ?thesis using u by (simp add: synced_def unmarked_def)
qed

section \<open>Capture, write, release and restart as a state machine\<close>

text \<open>
  The third part of a state is the pass in flight: the snapshot and whether its transaction has
  committed. \<open>runMu\<close> allows one pass at a time. A failed transaction rolls back and ends the pass.
\<close>

type_synonym node = "cache \<times> meta_store \<times> (snapshot \<times> bool) option"

inductive node_step :: "node \<Rightarrow> node \<Rightarrow> bool" where
  call: "durable_op c c' \<Longrightarrow> node_step (c, m, fl) (c', m, fl)"
| capture: "capture_ok v c \<Longrightarrow> storable c \<Longrightarrow> node_step (c, m, None) (c, m, Some (SnapshotIncremental v c, False))"
| commit: "write_ok w s \<Longrightarrow> WriteSnapshot w s m = Inr m' \<Longrightarrow> node_step (c, m, Some (s, False)) (c, m', Some (s, True))"
| rollback: "node_step (c, m, Some (s, False)) (c, m, None)"
| release: "no_reput s c \<Longrightarrow> node_step (c, m, Some (s, True)) (ClearSnapshotDirty s c, m, None)"
| restart: "visits rows (dom (row_clock m)) \<Longrightarrow> visits cells (dom (cell_clock m)) \<Longrightarrow>
    LoadFromMeta rows cells m (NewCache orig) = Some (Inr c') \<Longrightarrow> node_step (c, m, fl) (c', m, None)"

inductive_cases node_stepE: "node_step a b"

text \<open>The captured cache explains the pass in flight.\<close>

definition flight_ok :: "cache \<Rightarrow> meta_store \<Rightarrow> snapshot \<Rightarrow> bool \<Rightarrow> bool" where
  "flight_ok c m s committed \<longleftrightarrow> (\<exists>c0 v m0. s = SnapshotIncremental v c0 \<and> capture_ok v c0 \<and> storable c0 \<and> later c0 c \<and>
     synced c0 m0 \<and> (if committed then holds m c0 else m0 = m))"

definition node_inv :: "node \<Rightarrow> bool" where
  "node_inv = (\<lambda>(c, m, fl). synced c m \<and> (case fl of None \<Rightarrow> True | Some (s, committed) \<Rightarrow> flight_ok c m s committed))"

lemma node_inv_step: "node_step a b \<Longrightarrow> node_inv a \<Longrightarrow> node_inv b"
proof (induction rule: node_step.induct)
  case (call c c' m fl)
  then have "synced c' m" "later c c'" using durable_op_synced by (auto simp: node_inv_def)
  moreover have "flight_ok c' m s committed" if "flight_ok c m s committed" for s committed
    using that later_trans [OF _ \<open>later c c'\<close>] unfolding flight_ok_def by blast
  ultimately show ?case using call by (auto simp: node_inv_def split: option.splits)
next
  case (capture v c m)
  then have "synced c m" by (simp add: node_inv_def)
  then have "flight_ok c m (SnapshotIncremental v c) False"
    unfolding flight_ok_def using capture by (intro exI [of _ c] exI [of _ v] exI [of _ m]) simp
  then show ?case using capture by (simp add: node_inv_def)
next
  case (commit w s m m' c)
  then obtain c0 v where c0: "s = SnapshotIncremental v c0" "capture_ok v c0" "storable c0" "later c0 c" "synced c0 m" and "synced c m"
    by (auto simp: node_inv_def flight_ok_def)
  have p: "clocks_packable c0" using c0(3) by (simp add: storable_def)
  have "m' = stored w c0 m" using commit(1,2) write_result [OF p c0(2), of w m] by (simp add: c0(1) stored_def)
  then have "holds m' c0" "synced c m'"
    using stored_holds [OF c0(5,3), of w v] commit_synced [OF \<open>synced c m\<close> c0(5,4) p] commit(1) by (simp_all add: c0(1))
  then have "flight_ok c m' s True" unfolding flight_ok_def using c0 by (intro exI [of _ c0] exI [of _ v] exI [of _ m]) simp
  then show ?case using \<open>synced c m'\<close> by (simp add: node_inv_def)
next
  case (rollback c m s)
  then show ?case by (simp add: node_inv_def)
next
  case (release s c m)
  then obtain c0 v m0 where c0: "s = SnapshotIncremental v c0" "capture_ok v c0" "storable c0" "later c0 c" "synced c0 m0" "holds m c0"
    and "synced c m"
    by (auto simp: node_inv_def flight_ok_def)
  have "finite (dom (appliedGaps c0))" using c0(3) by (simp add: storable_def)
  from release_synced [OF \<open>synced c m\<close> c0(5,6,4) this c0(2)] release(1) show ?case by (simp add: node_inv_def c0(1))
next
  case (restart rows m cells orig c' c fl)
  then have "holds m c' \<and> unmarked c'" using load_holds by blast
  then show ?case using unmarked_synced by (simp add: node_inv_def)
qed

lemma node_reachable: "node_step\<^sup>*\<^sup>* (NewCache orig, empty_store, None) a \<Longrightarrow> node_inv a"
proof (induction rule: rtranclp_induct)
  case base
  show ?case by (simp add: node_inv_def synced_New)
qed (rule node_inv_step)

section \<open>A sample node\<close>

text \<open>One row with one cell clock, stored nowhere yet.\<close>

definition sample_row :: row_state where
  "sample_row = zero_row\<lparr>CL := 1, Base := Stamp (Clock 10 0) 2\<rparr>"

definition sample_cache :: cache where
  "sample_cache = (NewCache 1)\<lparr>hlcLast := Clock 30 0, metaDirty := True,
     rowClock := [(5, [7]) \<mapsto> sample_row\<lparr>Cells := Some (Mapping.update 9 (Stamp (Clock 20 0) 2) Mapping.empty)\<rparr>],
     dirtyRows := {(5, [7])}, dirtyCells := [(5, [7]) \<mapsto> {9}]\<rparr>"

definition sample_capture :: capture_order where
  "sample_capture = \<lparr>vRows = [(5, [7])], vCleared = [], vCells = [((5, [7]), [9])], vForgotten = []\<rparr>"

definition sample_write :: write_order where
  "sample_write = \<lparr>wFrontier = [], wSenders = [], wGaps = [], wMarkers = []\<rparr>"

lemma sample_reached: "node_step\<^sup>*\<^sup>* (NewCache 1, empty_store, None) (sample_cache, empty_store, None)"
proof -
  let ?a = "fst (StampHLC (NewCache 1) 30)"
  let ?b = "fst (PutRowState ?a 5 [7] sample_row)"
  let ?c = "PutCellStamp ?b 5 [7] 9 (Stamp (Clock 20 0) 2)"
  have a: "?a = (NewCache 1)\<lparr>hlcLast := Clock 30 0, metaDirty := True\<rparr>"
    by (simp add: StampHLC_def NewCache_def Let_def less_clock_code)
  have b: "?b = ?a\<lparr>rowClock := [(5, [7]) \<mapsto> sample_row], dirtyRows := {(5, [7])}\<rparr>"
    unfolding a by (simp add: PutRowState_def Let_def sample_row_def zero_row_def NewCache_def RowState_def cells_len_def seq_at_def)
  have "Dominates (Stamp (Clock 20 0) 2) (EffectiveStamp sample_row 9 (ByteRange 0 0))"
    by (simp add: EffectiveStamp_cell sample_row_def zero_row_def less_stamp_code less_clock_code)
  then have c: "?c = sample_cache"
    unfolding b unfolding a by (simp add: PutCellStamp_def RowState_def Let_def markCellDirty_def sample_cache_def)
      (simp add: sample_row_def zero_row_def NewCache_def)
  have "node_step (NewCache 1, empty_store, None) (?a, empty_store, None)" by (intro node_step.call durable_op.stamp)
  moreover have "node_step (?a, empty_store, None) (?b, empty_store, None)"
    by (intro node_step.call durable_op.put_row) (simp add: sample_row_def zero_row_def, unfold a, simp add: NewCache_def seq_at_def)
  moreover have "node_step (?b, empty_store, None) (?c, empty_store, None)" by (intro node_step.call durable_op.put_cell)
  ultimately show ?thesis unfolding c by (meson rtranclp.rtrancl_into_rtrancl rtranclp.rtrancl_refl)
qed

lemma sample_ok: "capture_ok sample_capture sample_cache" "storable sample_cache"
    "write_ok sample_write (SnapshotIncremental sample_capture sample_cache)"
proof -
  have cols: "dirty_cols sample_cache k = (if k = (5, [7]) then {9} else {})" for k
    by (simp add: dirty_cols_def sample_cache_def NewCache_def)
  then show "capture_ok sample_capture sample_cache"
    by (simp add: capture_ok_def sample_capture_def visits_def) (simp add: sample_cache_def NewCache_def)
  have "row_at sample_cache (5, [7]) = sample_row\<lparr>Cells := Some (Mapping.update 9 (Stamp (Clock 20 0) 2) Mapping.empty)\<rparr>"
    by (simp add: row_at_def RowState_def sample_cache_def)
  then have "clocks_packable sample_cache"
    by (simp add: clocks_packable_def cols cell_at_cells sample_row_def packable_def clockMaxWall_def clockMaxLogical_def)
      (simp add: sample_cache_def NewCache_def)
  then show "storable sample_cache" by (simp add: storable_def gaps_ok_def) (simp add: sample_cache_def NewCache_def)
  show "write_ok sample_write (SnapshotIncremental sample_capture sample_cache)"
    by (simp add: write_ok_def sample_write_def visits_def SnapshotIncremental_def sample_cache_def NewCache_def)
qed

section \<open>Properties\<close>

definition durable_eq :: "cache \<Rightarrow> cache \<Rightarrow> bool" where
  "durable_eq a b \<longleftrightarrow> senderNextSeq a = senderNextSeq b \<and> hlcLast a = hlcLast b \<and> frontier a = frontier b \<and>
     appliedGaps a = appliedGaps b \<and> snapshotMarkers a = snapshotMarkers b \<and>
     (\<forall>table pk. CL (RowState a table pk) = CL (RowState b table pk) \<and> Base (RowState a table pk) = Base (RowState b table pk) \<and>
        (\<forall>col. CellStamp a table pk col = CellStamp b table pk col))"

lemma holds_durable_eq: "holds m a \<Longrightarrow> holds m b \<Longrightarrow> durable_eq a b"
  unfolding holds_def durable_eq_def meta_eq_def row_at_def cell_at_def by (simp add: prod_eq_iff)



lemma undisturbed_unmarked:
  assumes s: "synced c m" and v: "capture_ok v c" and fin: "finite (dom (appliedGaps c))"
  shows "unmarked (ClearSnapshotDirty (SnapshotIncremental v c) c)"
proof -
  let ?s = "SnapshotIncremental v c"
  obtain c1 where r: "released v c c c1" and c1: "ClearSnapshotDirty ?s c = (if meta_quiet ?s c1 then c1\<lparr>metaDirty := False\<rparr> else c1)"
    using release_loops [OF v] by blast
  have mk: "marks_ok c k" for k using synced_row [OF s] by blast
  have ms: "meta_synced c m" using s by (simp add: synced_def)
  have "k \<notin> dirtyRows c1" for k
    using mk [of k] releasedD(8) [OF r] by (auto simp: marks_ok_def rowClockCoveredBy_def row_snap_def row_at_def RowState_def)
  moreover have "dirtySenderSeqs c1 = {}" using releasedD(9) [OF r] by blast
  moreover have "dirtyFrontiers c1 = {}" using releasedD(10) [OF r] meta_syncedD(5) [OF ms] by (force simp: front_at_def)
  moreover have "forgottenOrigins c1 = {}" using releasedD(11) [OF r] meta_syncedD(4) [OF ms] by (auto simp: domIff)
  moreover have "dirtyClearedRows c1 k = None" for k
    using releasedD(12) [OF r] epoch_covered_snap [OF v, of c k] by (simp add: domIff)
  moreover have "dirty_cols c1 k = {}" for k
    using releasedD(13) [OF r, rule_format, of k] by (auto simp: cell_covered_def cell_snap_def Let_def split: option.splits)
  then have "dirtyCells c1 k = None \<or> dirtyCells c1 k = Some {}" for k
    by (cases "dirtyCells c1 k") (simp_all add: dirty_cols_def split: option.splits, metis option.simps(5))
  then have "dirtyCells c1 k = None" for k using releasedD(14) [OF r] s by (metis ranI synced_def)
  moreover have "appliedGapsCoveredBy (appliedGaps c1) (appliedGaps c)" using releasedD(5) [OF r] by (auto simp: appliedGapsCoveredBy_def)
  ultimately have "meta_quiet ?s c1" and "unmarked (c1\<lparr>metaDirty := False\<rparr>)"
    using releasedD(3,4,6) [OF r] by (auto simp: meta_quiet_def SnapshotIncremental_def unmarked_def fun_eq_iff)
  then show ?thesis using c1 by simp
qed

text \<open>
  C37: A pass that nothing disturbs settles: after its release no mark is left, so the next pass finds
  no work and writes nothing.
\<close>

theorem undisturbed_pass_settles:
  assumes "node_step\<^sup>*\<^sup>* (NewCache orig, empty_store, None) (c, m, fl)" and "capture_ok v c" "finite (dom (appliedGaps c))"
    and "capture_ok v' (ClearSnapshotDirty (SnapshotIncremental v c) c)"
  shows "\<not> snapshotHasWork (SnapshotIncremental v' (ClearSnapshotDirty (SnapshotIncremental v c) c))"
proof -
  have "synced c m" using node_reachable [OF assms(1)] by (simp add: node_inv_def)
  from undisturbed_unmarked [OF this assms(2,3)] show ?thesis
    using assms(4) by (simp add: snapshotHasWork_def SnapshotIncremental_def unmarked_def capture_ok_def visits_def)
qed

theorem undisturbed_pass_settles_witness:
  "\<not> snapshotHasWork (SnapshotIncremental \<lparr>vRows = [], vCleared = [], vCells = [], vForgotten = []\<rparr>
     (ClearSnapshotDirty (SnapshotIncremental sample_capture sample_cache) sample_cache))"
proof (rule undisturbed_pass_settles [OF sample_reached sample_ok(1)])
  show fin: "finite (dom (appliedGaps sample_cache))" using sample_ok(2) by (simp add: storable_def)
  have "synced sample_cache empty_store" using node_reachable [OF sample_reached] by (simp add: node_inv_def)
  from undisturbed_unmarked [OF this sample_ok(1) fin]
  show "capture_ok \<lparr>vRows = [], vCleared = [], vCells = [], vForgotten = []\<rparr>
      (ClearSnapshotDirty (SnapshotIncremental sample_capture sample_cache) sample_cache)"
    by (simp add: unmarked_def capture_ok_def visits_def)
qed

text \<open>
  C38: A cell that is cleared and written again with the stamp the snapshot captured, while that
  snapshot is being written, is released although a clear of its row is still pending: the next write
  deletes it from the store and does not write it back, although the cache still holds it.
\<close>

theorem reput_cell_lost:
  assumes "capture_ok v c0" and "col \<in> dirty_cols c0 (table, pk)" and "CellStamp c0 table pk col = Some s"
    and "seq_at (dirtyClearedRows c0) (table, pk) \<noteq> - 1"
    and c: "c = PutCellStamp (ClearCellsForRow c0 table pk) table pk col s" and "CellStamp c table pk col = Some s"
    and c1: "c1 = ClearSnapshotDirty (SnapshotIncremental v c0) c"
    and "capture_ok v' c1" "clocks_packable c1" "write_ok w (SnapshotIncremental v' c1)"
  shows "CellStamp c1 table pk col = Some s \<and>
    (\<exists>m'. WriteSnapshot w (SnapshotIncremental v' c1) m = Inr m' \<and> cell_clock m' ((table, pk), col) = None)"
proof -
  let ?k = "(table, pk)" and ?s = "SnapshotIncremental v c0"
  obtain c2 where r: "released v c0 c c2" and c2: "c1 = (if meta_quiet ?s c2 then c2\<lparr>metaDirty := False\<rparr> else c2)"
    using release_loops [OF assms(1)] c1 by blast
  have "cell_at c ?k col = cell_at c0 ?k col" using assms(3,6) by (simp add: cell_at_def)
  then have "cell_covered c (cell_snap c0 ?k col)" by (simp add: cell_covered_def cell_snap_def Let_def split: option.split)
  then have "col \<notin> dirty_cols c2 ?k" using releasedD(13) [OF r, rule_format, of ?k] assms(2) by simp
  then have col: "col \<notin> dirty_cols c1 ?k" using c2 by (simp add: dirty_cols_def)
  have "dirtyClearedRows c ?k = Some (seq_at (dirtyClearedRows c0) ?k + 1)"
    by (simp add: c PutCellStamp_def ClearCellsForRow_def markCellDirty_def Let_def)
  moreover from this have "\<not> epoch_covered ?s c ?k"
    using epoch_covered_snap [OF assms(1)] u64_less_succ [OF assms(4)] by (auto simp: seq_at_def)
  ultimately have "?k \<in> dom (dirtyClearedRows c2)" using releasedD(12) [OF r] by (simp add: domIff)
  then have "?k \<in> dom (dirtyClearedRows c1)" using c2 by simp
  then have "cell_clock (stored w c1 m) (?k, col) = None" using col by (simp add: stored_tables overlay_def)
  moreover have "WriteSnapshot w (SnapshotIncremental v' c1) m = Inr (stored w c1 m)"
    using write_result [OF assms(9,8,10)] by (simp add: stored_def)
  moreover have "rowClock c1 = rowClock c" using c2 releasedD(1) [OF r] by simp
  then have "CellStamp c1 table pk col = Some s" using assms(6) by (simp add: CellStamp_def RowState_def)
  ultimately show ?thesis by blast
qed

theorem reput_cell_lost_witness:
  "let s = Stamp (Clock 20 0) 2; c = PutCellStamp (ClearCellsForRow sample_cache 5 [7]) 5 [7] 9 s;
       c1 = ClearSnapshotDirty (SnapshotIncremental sample_capture sample_cache) c;
       v = \<lparr>vRows = [], vCleared = [(5, [7])], vCells = [], vForgotten = []\<rparr>
   in CellStamp c1 5 [7] 9 = Some s \<and>
     (\<exists>m'. WriteSnapshot sample_write (SnapshotIncremental v c1) empty_store = Inr m' \<and> cell_clock m' ((5, [7]), 9) = None)"
proof -
  let ?s = "Stamp (Clock 20 0) 2"
  define c where "c = PutCellStamp (ClearCellsForRow sample_cache 5 [7]) 5 [7] 9 ?s"
  define c1 where "c1 = ClearSnapshotDirty (SnapshotIncremental sample_capture sample_cache) c"
  let ?v = "\<lparr>vRows = [], vCleared = [(5, [7])], vCells = [], vForgotten = []\<rparr> :: capture_order"
  have e: "EffectiveStamp sample_row 9 (ByteRange 0 0) < ?s"
    by (simp add: EffectiveStamp_cell sample_row_def zero_row_def less_stamp_code less_clock_code)
  have row: "RowState (ClearCellsForRow sample_cache 5 [7]) 5 [7] = sample_row"
    by (simp add: ClearCellsForRow_def sample_cache_def RowState_def sample_row_def zero_row_def Let_def)
  have c: "c = sample_cache\<lparr>dirtyClearedRows := [(5, [7]) \<mapsto> 1]\<rparr>"
    unfolding c_def PutCellStamp_def Let_def row using e
    by (simp add: ClearCellsForRow_def markCellDirty_def sample_cache_def NewCache_def seq_at_def RowState_def Let_def sample_row_def zero_row_def)
  obtain c2 where r: "released sample_capture sample_cache c c2"
    and c2: "c1 = (if meta_quiet (SnapshotIncremental sample_capture sample_cache) c2 then c2\<lparr>metaDirty := False\<rparr> else c2)"
    using release_loops [OF sample_ok(1)] unfolding c1_def by blast
  have cols: "dirty_cols c k = (if k = (5, [7]) then {9} else {})" "dirty_cols sample_cache k = dirty_cols c k"
      "cell_at c k = cell_at sample_cache k" "row_at c k = row_at sample_cache k" for k
    by (simp_all add: c dirty_cols_def sample_cache_def NewCache_def cell_at_def row_at_def CellStamp_def RowState_def fun_eq_iff)
  have "cell_covered c (cell_snap sample_cache k col)" for k col
    by (simp add: cell_covered_def cell_snap_def cols(3) Let_def split: option.split)
  then have "dirty_cols c2 k = {}" for k using releasedD(13) [OF r, rule_format, of k] cols(2) [of k] by auto
  then have "dirtyCells c2 k = None \<or> dirtyCells c2 k = Some {}" for k
    by (cases "dirtyCells c2 k") (simp_all add: dirty_cols_def split: option.splits, metis option.simps(5))
  moreover have "{} \<notin> ran (dirtyCells c2)" using releasedD(14) [OF r] by (simp add: c sample_cache_def NewCache_def)
  ultimately have cells: "dirtyCells c2 = Map.empty" by (intro ext) (metis ranI)
  have rows: "dirtyRows c2 = {}"
    using releasedD(8) [OF r] by (auto simp: c sample_cache_def NewCache_def rowClockCoveredBy_def row_snap_def row_at_def RowState_def)
  have "dirtyClearedRows sample_cache = Map.empty" by (simp add: sample_cache_def NewCache_def)
  then have "dirtyClearedRows c2 = dirtyClearedRows c"
    using releasedD(12) [OF r] epoch_covered_snap [OF sample_ok(1), of c] by simp
  then have cl: "dom (dirtyClearedRows c2) = {(5, [7])}" by (simp add: c)
  have same: "dirtySenderSeqs c2 = {}" "forgottenOrigins c2 = {}" "frontier c2 = Map.empty" "appliedGaps c2 = Map.empty"
      "snapshotMarkers c2 = Map.empty" "hlcLast c2 = Clock 30 0"
    using releasedD(3-6,9,11) [OF r] by (simp_all add: c sample_cache_def NewCache_def)
  have "capture_ok ?v c1" using c2 rows cells cl same by (simp add: capture_ok_def visits_def)
  moreover have "clocks_packable c1" using c2 rows cells same
    by (simp add: clocks_packable_def dirty_cols_def packable_def clockMaxWall_def clockMaxLogical_def)
  moreover have "write_ok sample_write (SnapshotIncremental ?v c1)" using c2 same
    by (simp add: write_ok_def sample_write_def visits_def SnapshotIncremental_def)
  moreover have "9 \<in> dirty_cols sample_cache (5, [7])" using cols(1,2) by simp
  moreover have "CellStamp sample_cache 5 [7] 9 = Some ?s" "CellStamp c 5 [7] 9 = Some ?s" "seq_at (dirtyClearedRows sample_cache) (5, [7]) \<noteq> - 1"
    by (simp_all add: c sample_cache_def NewCache_def CellStamp_def RowState_def seq_at_def)
  ultimately show ?thesis unfolding Let_def c_def [symmetric] c1_def [symmetric]
    using reput_cell_lost [OF sample_ok(1) _ _ _ c_def _ c1_def] by blast
qed

end
