(* ===== verification/Replay.thy ===== *)
theory Replay
  imports Cell_Group Node_State
begin

text \<open>
  The clock bookkeeping of one replayed record (\<open>internal/nodestate/recover.go\<close>): the row-level path,
  the per-column path of a cell-group table with its opportunistic collapse, and the degraded mode
  for counter contributions to an unknown table. A row's clocks are then read as a generation (its
  causal length) with one effective stamp per register column; on that view a replay is one
  operation of a replicated type, so neither order nor repetition matters.
\<close>

section \<open>Replaying one record\<close>

type_synonym cell_tables = "table_id \<Rightarrow> cell_table option"

definition updateHasDelta :: "col_value list \<Rightarrow> bool" where
  "updateHasDelta changed = list_ex (\<lambda>v. Format v = FormatDelta) changed"

definition cellGroupTable :: "cell_tables option \<Rightarrow> table_id \<Rightarrow> cell_table option" where
  "cellGroupTable tables table = (case tables of None \<Rightarrow> None | Some f \<Rightarrow> f table)"

definition baseline :: "u64 \<Rightarrow> stamp \<Rightarrow> row_state" where
  "baseline cl s = \<lparr>CL = cl, Base = s, Cells = None, Ranges = Map.empty\<rparr>"

definition PutBaseline :: "cache \<Rightarrow> table_id \<Rightarrow> pk_blob \<Rightarrow> u64 \<Rightarrow> stamp \<Rightarrow> cache" where
  "PutBaseline c table pk cl s =
     (case PutRowState c table pk (baseline cl s) of (c, landed) \<Rightarrow> if landed then ClearCellsForRow c table pk else c)"

definition cellWinners :: "row_state \<Rightarrow> stamp \<Rightarrow> col_value list \<Rightarrow> col_value list" where
  "cellWinners rs s changed =
     filter (\<lambda>v. Format v = FormatDelta \<or> Dominates s (EffectiveStamp rs (Column v) (ByteRange 0 0))) changed"

definition replayCellClocks ::
  "cache \<Rightarrow> cell_table \<Rightarrow> table_id \<Rightarrow> pk_blob \<Rightarrow> u64 \<Rightarrow> col_value list \<Rightarrow> row_state \<Rightarrow> stamp \<Rightarrow> cache" where
  "replayCellClocks c tab table pk cl changed rs s =
     (if cl < CL rs \<or> (\<not> updateHasDelta changed \<and> \<not> DominatedBy rs cl s) then c
      else
        let newGen = cl > CL rs;
            winners = (if newGen then changed else cellWinners rs s changed) in
        if \<not> newGen \<and> winners = [] then c
        else if CoversAllNonPK tab winners then PutBaseline c table pk cl s
        else
          let c = (if newGen then PutBaseline c table pk cl zero_stamp else c) in
          fold (\<lambda>v c. if snd (ColumnRole tab (Column v)) then c else PutCellStamp c table pk (Column v) s) winners c)"

definition replayRow :: "dml_record \<Rightarrow> row_state \<Rightarrow> stamp \<Rightarrow> cache \<Rightarrow> cache" where
  "replayRow r rs s c =
     (let h = Header r in
      if \<not> DominatedBy rs (HCL h) s then c else fst (PutRowState c (HTable h) (HPK h) (baseline (HCL h) s)))"

definition replayRecord :: "cell_tables option \<Rightarrow> stamp \<Rightarrow> dml_record \<Rightarrow> cache \<Rightarrow> cache" where
  "replayRecord tables s r c =
     (let h = Header r; rs = RowState c (HTable h) (HPK h) in
      case cellGroupTable tables (HTable h) of
        Some tab \<Rightarrow>
          (case AsCellUpdate tab r rs of
             Some (Update table pk cl changed) \<Rightarrow> replayCellClocks c tab table pk cl changed rs s
           | _ \<Rightarrow> replayRow r rs s c)
      | None \<Rightarrow>
          (case r of
             Update table pk cl changed \<Rightarrow>
               if updateHasDelta changed
               then if cl > CL rs then PutBaseline c table pk cl zero_stamp else c
               else replayRow r rs s c
           | _ \<Rightarrow> replayRow r rs s c))"

section \<open>The effect on one row\<close>

definition put_base :: "u64 \<Rightarrow> stamp \<Rightarrow> row_state \<Rightarrow> row_state" where
  "put_base cl s rs = (if RowDominates (cl, s) (CL rs, Base rs) then baseline cl s else rs)"

definition row_cells :: "cell_table \<Rightarrow> u64 \<Rightarrow> col_value list \<Rightarrow> stamp \<Rightarrow> row_state \<Rightarrow> row_state" where
  "row_cells tab cl changed s rs =
     (if cl < CL rs \<or> (\<not> updateHasDelta changed \<and> \<not> DominatedBy rs cl s) then rs
      else
        let winners = (if cl > CL rs then changed else cellWinners rs s changed) in
        if \<not> cl > CL rs \<and> winners = [] then rs
        else if CoversAllNonPK tab winners then put_base cl s rs
        else fold cell_put (map (\<lambda>v. (Column v, s)) (filter (\<lambda>v. \<not> snd (ColumnRole tab (Column v))) winners))
               (if cl > CL rs then put_base cl zero_stamp rs else rs))"

definition row_plain :: "u64 \<Rightarrow> stamp \<Rightarrow> row_state \<Rightarrow> row_state" where
  "row_plain cl s rs = (if DominatedBy rs cl s then row_put (baseline cl s) rs else rs)"

definition row_replay :: "cell_tables option \<Rightarrow> stamp \<Rightarrow> dml_record \<Rightarrow> row_state \<Rightarrow> row_state" where
  "row_replay tables s r rs =
     (case cellGroupTable tables (HTable (Header r)) of
        Some tab \<Rightarrow>
          (case AsCellUpdate tab r rs of
             Some (Update table pk cl changed) \<Rightarrow> row_cells tab cl changed s rs
           | _ \<Rightarrow> row_plain (HCL (Header r)) s rs)
      | None \<Rightarrow>
          (case r of
             Update table pk cl changed \<Rightarrow>
               if updateHasDelta changed then if cl > CL rs then put_base cl zero_stamp rs else rs
               else row_plain cl s rs
           | _ \<Rightarrow> row_plain (HCL (Header r)) s rs))"

lemma baseline_simps [simp]:
  "CL (baseline cl s) = cl" "Base (baseline cl s) = s" "Cells (baseline cl s) = None" "Ranges (baseline cl s) = Map.empty"
  "(baseline cl s)\<lparr>Cells := None\<rparr> = baseline cl s"
  by (simp_all add: baseline_def)

lemma row_put_baseline: "row_put (baseline cl s) rs =
    (if RowDominates (cl, s) (CL rs, Base rs) then if cl > CL rs then baseline cl s else (baseline cl s)\<lparr>Cells := Cells rs\<rparr> else rs)"
  by (simp add: row_put_def baseline_def)

lemma ClearCells_row:
  "RowState (ClearCellsForRow c table pk) t p = (if (t, p) = (table, pk) then (RowState c table pk)\<lparr>Cells := None\<rparr> else RowState c t p)"
  by (simp add: RowState_upd [of "ClearCellsForRow c table pk" c table pk] ClearCellsForRow_def Let_def)

lemma PutBaseline_row:
  "RowState (PutBaseline c table pk cl s) t p =
    (if (t, p) = (table, pk) then put_base cl s (RowState c table pk) else RowState c t p)"
proof -
  let ?rs = "RowState c table pk"
  obtain c' landed where p: "PutRowState c table pk (baseline cl s) = (c', landed)" by (cases "PutRowState c table pk (baseline cl s)")
  have l: "landed \<longleftrightarrow> RowDominates (cl, s) (CL ?rs, Base ?rs)"
    using PutRowState_landed [of c table pk "baseline cl s"] p by simp
  have r: "RowState c' t p = (if (t, p) = (table, pk) then row_put (baseline cl s) ?rs else RowState c t p)" for t p
    using PutRowState_row [of c table pk "baseline cl s" t p] p by simp
  show ?thesis using p l r [of table pk] r [of t p]
    by (auto simp: PutBaseline_def ClearCells_row put_base_def row_put_baseline)
qed

lemma cell_loop_row:
  "RowState (fold (\<lambda>v c. if Q v then c else PutCellStamp c table pk (Column v) s) vs c) t p =
    (if (t, p) = (table, pk)
     then fold cell_put (map (\<lambda>v. (Column v, s)) (filter (\<lambda>v. \<not> Q v) vs)) (RowState c table pk) else RowState c t p)"
  by (induction vs arbitrary: c) (auto simp: PutCellStamp_row)

lemma replayCellClocks_row:
  assumes "rs = RowState c table pk"
  shows "RowState (replayCellClocks c tab table pk cl changed rs s) t p =
    (if (t, p) = (table, pk) then row_cells tab cl changed s rs else RowState c t p)"
proof -
  let ?c = "if cl > CL rs then PutBaseline c table pk cl zero_stamp else c"
  have "RowState ?c t p = (if (t, p) = (table, pk) then if cl > CL rs then put_base cl zero_stamp rs else rs else RowState c t p)"
    for t p using assms by (simp add: PutBaseline_row)
  then show ?thesis
    using assms unfolding replayCellClocks_def row_cells_def Let_def
    by (cases "(t, p) = (table, pk)") (simp_all only: if_distrib [of "\<lambda>c. RowState c t p"]
        if_distrib [of "\<lambda>c. RowState c table pk"] PutBaseline_row cell_loop_row
        if_True if_False if_cancel simp_thms prod.inject)
qed

lemma replayRow_row:
  assumes "rs = RowState c (HTable (Header r)) (HPK (Header r))"
  shows "RowState (replayRow r rs s c) t p =
    (if (t, p) = (HTable (Header r), HPK (Header r)) then row_plain (HCL (Header r)) s rs else RowState c t p)"
  using assms by (simp add: replayRow_def Let_def row_plain_def PutRowState_row)

lemma replayRecord_row:
  "RowState (replayRecord tables s r c) t p =
    (if (t, p) = (HTable (Header r), HPK (Header r)) then row_replay tables s r (RowState c t p) else RowState c t p)"
proof (cases "cellGroupTable tables (HTable (Header r))")
  case None
  then show ?thesis
    by (cases r) (auto simp: replayRecord_def row_replay_def Let_def replayRow_row PutBaseline_row)
next
  case (Some tab)
  let ?rs = "RowState c (HTable (Header r)) (HPK (Header r))"
  show ?thesis
  proof (cases "AsCellUpdate tab r ?rs")
    case None
    then show ?thesis using Some by (auto simp: replayRecord_def row_replay_def Let_def replayRow_row)
  next
    case upd: (Some u)
    then show ?thesis using Some
      by (cases r) (auto simp: replayRecord_def row_replay_def Let_def replayCellClocks_row split: if_splits)
  qed
qed


section \<open>What a replay leaves alone\<close>

text \<open>A replay writes the clock tables and their dirty marks, and nothing else of the cache.\<close>

definition clocks_only :: "cache \<Rightarrow> cache \<Rightarrow> bool" where
  "clocks_only c c' \<longleftrightarrow> c' = c\<lparr>rowClock := rowClock c', dirtyRows := dirtyRows c', dirtyCells := dirtyCells c',
     dirtyClearedRows := dirtyClearedRows c'\<rparr>"

lemma clocks_only_refl [simp]: "clocks_only c c"
  by (simp add: clocks_only_def)

lemma clocks_only_trans: "clocks_only a b \<Longrightarrow> clocks_only b c \<Longrightarrow> clocks_only a c"
  unfolding clocks_only_def by (cases a; cases b; cases c) simp

lemma clocks_only_same:
  assumes "clocks_only c c'"
  shows "self c' = self c" "frontier c' = frontier c" "appliedGaps c' = appliedGaps c" "snapshotMarkers c' = snapshotMarkers c"
    "hlcLast c' = hlcLast c" "senderNextSeq c' = senderNextSeq c"
  using assms unfolding clocks_only_def by (cases c; cases c'; simp)+

lemma clocks_only_ops:
  "clocks_only c (fst (PutRowState c table pk st))" "clocks_only c (PutCellStamp c table pk col s)"
  "clocks_only c (ClearCellsForRow c table pk)"
proof -
  show "clocks_only c (fst (PutRowState c table pk st))"
    unfolding PutRowState_cases Let_def by (cases c) (simp add: clocks_only_def bump_cleared_def)
  show "clocks_only c (PutCellStamp c table pk col s)"
    by (cases c) (simp add: clocks_only_def PutCellStamp_def markCellDirty_def Let_def)
  show "clocks_only c (ClearCellsForRow c table pk)"
    by (cases c) (simp add: clocks_only_def ClearCellsForRow_def Let_def)
qed

lemma clocks_only_PutBaseline: "clocks_only c (PutBaseline c table pk cl s)"
proof -
  obtain c' landed where p: "PutRowState c table pk (baseline cl s) = (c', landed)" by (cases "PutRowState c table pk (baseline cl s)")
  then show ?thesis using clocks_only_ops(1) [of c table pk "baseline cl s"] clocks_only_ops(3) [of c' table pk]
    by (auto simp: PutBaseline_def intro: clocks_only_trans)
qed

lemma clocks_only_fold:
  "(\<And>x c. x \<in> set xs \<Longrightarrow> clocks_only c (f x c)) \<Longrightarrow> clocks_only c (fold f xs c)"
  by (induction xs arbitrary: c) (auto intro: clocks_only_trans)

lemma clocks_only_cells: "clocks_only c (replayCellClocks c tab table pk cl changed rs s)"
proof -
  have "clocks_only c (fold (\<lambda>v c. if snd (ColumnRole tab (Column v)) then c else PutCellStamp c table pk (Column v) s) ws c')"
    if "clocks_only c c'" for ws c'
    by (rule clocks_only_trans [OF that clocks_only_fold]) (simp add: clocks_only_ops)
  then show ?thesis by (simp add: replayCellClocks_def Let_def clocks_only_PutBaseline)
qed

lemma clocks_only_replay: "clocks_only c (replayRecord tables s r c)"
proof -
  have "clocks_only c (replayRow r rs s c)" for r rs by (simp add: replayRow_def Let_def clocks_only_ops)
  then show ?thesis
    by (simp add: replayRecord_def Let_def clocks_only_cells clocks_only_PutBaseline split: option.split dml_record.split)
qed

section \<open>Generations\<close>

type_synonym generation = "u64 \<times> (column_id \<Rightarrow> stamp)"

abbreviation eff :: "row_state \<Rightarrow> column_id \<Rightarrow> stamp" where
  "eff rs col \<equiv> EffectiveStamp rs col (ByteRange 0 0)"

definition row_view :: "column_id set \<Rightarrow> row_state \<Rightarrow> generation" where
  "row_view R rs = (CL rs, \<lambda>col. if col \<in> R then eff rs col else zero_stamp)"

definition gen_put :: "column_id set \<Rightarrow> u64 \<times> stamp \<times> column_id set \<Rightarrow> generation \<Rightarrow> generation" where
  "gen_put R = (\<lambda>(cl, s, C) (n, f).
     if n < cl then (cl, \<lambda>col. if col \<in> R \<inter> C then s else zero_stamp)
     else if cl = n then (n, \<lambda>col. if col \<in> R \<inter> C then max s (f col) else f col)
     else (n, f))"

definition real_stamp :: "u64 \<times> stamp \<times> column_id set \<Rightarrow> bool" where
  "real_stamp a \<longleftrightarrow> zero_stamp \<le> fst (snd a)"

interpretation generations: replicated "gen_put R" "\<lambda>_. True" real_stamp "\<lambda>_ _. True"
proof
  fix a b :: "u64 \<times> stamp \<times> column_id set" and s :: generation
  assume ok: "real_stamp a" "real_stamp b"
  obtain cl t C where a: "a = (cl, t, C)" by (cases a)
  obtain cl' t' C' where b: "b = (cl', t', C')" by (cases b)
  obtain n f where s: "s = (n, f)" by (cases s)
  have t: "max t zero_stamp = t" "max zero_stamp t = t" "max t' zero_stamp = t'" "max zero_stamp t' = t'"
    using ok by (simp_all add: real_stamp_def a b max_def)
  consider "cl < cl'" | "cl' < cl" | "cl = cl'" by fastforce
  then show "gen_put R a (gen_put R b s) = gen_put R b (gen_put R a s)"
  proof cases
    case 3
    then show ?thesis
      by (auto simp: a b s gen_put_def fun_eq_iff t max.left_commute max.commute)
  qed (auto simp: a b s gen_put_def)
next
  fix a s assume "real_stamp a"
  then show "gen_put R a (gen_put R a s) = gen_put R a s"
    by (cases a; cases s) (auto simp: gen_put_def fun_eq_iff)
qed simp

section \<open>A replay is a put on the generation\<close>

definition cell_of :: "row_state \<Rightarrow> column_id \<Rightarrow> stamp option" where
  "cell_of rs col = (case Cells rs of None \<Rightarrow> None | Some m \<Rightarrow> Mapping.lookup m col)"

definition row_inv :: "bool \<Rightarrow> row_state \<Rightarrow> bool" where
  "row_inv cellwise rs \<longleftrightarrow> (\<forall>col s. cell_of rs col = Some s \<longrightarrow> Base rs \<le> s) \<and>
     (\<not> cellwise \<or> even (CL rs) \<longrightarrow> Cells rs = None)"

definition registers :: "cell_table \<Rightarrow> column_id set" where
  "registers tab = {col \<in> set (NonPKColumns tab). \<not> snd (ColumnRole tab col)}"

lemma eff_cell_of: "eff rs col = (case cell_of rs col of None \<Rightarrow> Base rs | Some s \<Rightarrow> s)"
  by (simp add: EffectiveStamp_cell cell_of_def split: option.splits)

lemma row_inv_eff: "row_inv b rs \<Longrightarrow> Base rs \<le> eff rs col"
  by (auto simp: row_inv_def eff_cell_of split: option.split)

lemma baseline_inv [simp]: "row_inv b (baseline cl s)" "eff (baseline cl s) col = s"
  by (simp_all add: row_inv_def cell_of_def eff_cell_of)

lemma cell_put_keeps [simp]: "CL (cell_put a rs) = CL rs" "Base (cell_put a rs) = Base rs"
  by (cases a; simp add: cell_put_def)+

lemma cell_put_inv:
  assumes "row_inv True rs" and "odd (CL rs)"
  shows "row_inv True (cell_put (col, s) rs)"
proof -
  have "cell_of (cell_put (col, s) rs) d = (if eff rs col < s \<and> d = col then Some s else cell_of rs d)" for d
    by (simp add: cell_put_eq cell_of_def lookup_update' lookup_empty split: option.split)
  moreover have "Base rs \<le> eff rs col" by (rule row_inv_eff [OF assms(1)])
  ultimately show ?thesis using assms by (auto simp: row_inv_def split: if_splits)
qed

lemma cell_puts_view:
  fixes s :: stamp
  assumes "row_inv True rs" and "odd (CL rs)"
  defines "rs' ws \<equiv> fold cell_put (map (\<lambda>v. (Column v, s)) ws) rs"
  shows "(\<forall>col. eff (rs' ws) col = (if col \<in> Column ` set ws then max s (eff rs col) else eff rs col)) \<and>
    CL (rs' ws) = CL rs \<and> row_inv True (rs' ws)"
  using assms(1,2) unfolding rs'_def
proof (induction ws arbitrary: rs)
  case (Cons w ws)
  have "row_inv True (cell_put (Column w, s) rs)" "odd (CL (cell_put (Column w, s) rs))"
    using Cons.prems cell_put_inv by simp_all
  note ih = Cons.IH [OF this]
  have "eff (fold cell_put (map (\<lambda>v. (Column v, s)) ws) (cell_put (Column w, s) rs)) col =
      (if col \<in> Column ` set (w # ws) then max s (eff rs col) else eff rs col)" for col
    using ih by (auto simp: cell_put_effective max_def)
  then show ?case using ih by simp
qed simp

lemma row_plain_view:
  assumes "row_inv b rs" and "b \<longrightarrow> even cl \<or> cl \<noteq> CL rs"
  shows "row_view R (row_plain cl s rs) = gen_put R (cl, s, UNIV) (row_view R rs) \<and> row_inv b (row_plain cl s rs)"
proof (cases "CL rs < cl")
  case True
  then have "row_plain cl s rs = baseline cl s" by (simp add: row_plain_def DominatedBy_iff row_put_baseline RowDominates_def)
  then show ?thesis using True by (auto simp: row_view_def gen_put_def fun_eq_iff)
next
  case False
  show ?thesis
  proof (cases "cl = CL rs")
    case True
    then have cells: "Cells rs = None" using assms by (auto simp: row_inv_def)
    then have e: "eff rs col = Base rs" for col by (simp add: EffectiveStamp_cell)
    show ?thesis
    proof (cases "Base rs < s")
      case less: True
      then have "row_plain cl s rs = baseline cl s"
        using True cells by (simp add: row_plain_def DominatedBy_iff row_put_baseline RowDominates_def)
      then show ?thesis using True less by (auto simp: row_view_def gen_put_def fun_eq_iff e max_def)
    next
      case ge: False
      then have "row_plain cl s rs = rs" using True by (simp add: row_plain_def DominatedBy_iff RowDominates_def)
      then show ?thesis using True ge assms(1) by (auto simp: row_view_def gen_put_def fun_eq_iff e max_def)
    qed
  next
    case ne: False
    then have "row_plain cl s rs = rs" using False by (simp add: row_plain_def DominatedBy_iff RowDominates_def)
    then show ?thesis using False ne assms(1) by (simp add: row_view_def gen_put_def)
  qed
qed

lemma put_base_gt: "CL rs < cl \<Longrightarrow> put_base cl s rs = baseline cl s"
  by (simp add: put_base_def RowDominates_def)

lemma row_cells_new:
  assumes "CL rs < cl" and "odd cl" and "zero_stamp \<le> s"
  shows "row_view (registers tab) (row_cells tab cl changed s rs) =
      gen_put (registers tab) (cl, s, Column ` set changed) (row_view (registers tab) rs) \<and>
    row_inv True (row_cells tab cl changed s rs)"
proof (cases "CoversAllNonPK tab changed")
  case True
  then have "registers tab \<subseteq> Column ` set changed" by (auto simp: CoversAllNonPK_def registers_def list_all_iff)
  moreover have "row_cells tab cl changed s rs = baseline cl s"
    using True assms(1) by (simp add: row_cells_def DominatedBy_iff RowDominates_def put_base_gt)
  ultimately show ?thesis using assms(1) by (auto simp: row_view_def gen_put_def fun_eq_iff)
next
  case False
  let ?ws = "filter (\<lambda>v. \<not> snd (ColumnRole tab (Column v))) changed"
  have "row_cells tab cl changed s rs = fold cell_put (map (\<lambda>v. (Column v, s)) ?ws) (baseline cl zero_stamp)"
    using False assms(1) by (simp add: row_cells_def DominatedBy_iff RowDominates_def put_base_gt)
  moreover have "max s zero_stamp = s" using assms(3) by (simp add: max_def)
  ultimately show ?thesis
    using cell_puts_view [of "baseline cl zero_stamp" s ?ws] assms(1,2)
    by (auto simp: row_view_def gen_put_def fun_eq_iff registers_def)
qed

lemma row_cells_same:
  assumes cl: "CL rs = cl" "odd cl" and inv: "row_inv True rs"
    and delta: "\<forall>v \<in> set changed. Format v = FormatDelta \<longrightarrow> snd (ColumnRole tab (Column v))"
  shows "row_view (registers tab) (row_cells tab cl changed s rs) =
      gen_put (registers tab) (cl, s, Column ` set changed) (row_view (registers tab) rs) \<and>
    row_inv True (row_cells tab cl changed s rs)"
proof -
  let ?R = "registers tab" and ?w = "cellWinners rs s changed"
  have won: "col \<in> Column ` set ?w \<longleftrightarrow> col \<in> Column ` set changed \<and> eff rs col < s" if "col \<in> ?R" for col
    using that delta by (auto simp: cellWinners_def registers_def)
  have noop: ?thesis if "row_cells tab cl changed s rs = rs" "\<forall>col \<in> ?R \<inter> Column ` set changed. \<not> eff rs col < s"
    using that cl inv by (auto simp: row_view_def gen_put_def fun_eq_iff max_def not_less)
  consider "\<not> updateHasDelta changed" "\<not> Base rs < s" | "?w = []"
    | "updateHasDelta changed \<or> Base rs < s" "?w \<noteq> []" "CoversAllNonPK tab ?w"
    | "updateHasDelta changed \<or> Base rs < s" "?w \<noteq> []" "\<not> CoversAllNonPK tab ?w" by blast
  then show ?thesis
  proof cases
    case 1
    then show ?thesis using cl row_inv_eff [OF inv]
      by (intro noop) (auto simp: row_cells_def DominatedBy_iff RowDominates_def not_less intro: order_trans)
  next
    case 2
    then show ?thesis using cl won by (intro noop) (auto simp: row_cells_def)
  next
    case 3
    then have all: "\<forall>col \<in> ?R. col \<in> Column ` set changed \<and> eff rs col < s"
      using won by (fastforce simp: CoversAllNonPK_def registers_def list_all_iff)
    have run: "row_cells tab cl changed s rs = put_base cl s rs"
      using 3 cl by (auto simp: row_cells_def DominatedBy_iff RowDominates_def)
    show ?thesis
    proof (cases "Base rs < s")
      case True
      then show ?thesis using run cl all
        by (auto simp: put_base_def RowDominates_def row_view_def gen_put_def fun_eq_iff max_def)
    next
      case False
      then have "?R = {}" using all row_inv_eff [OF inv] by (meson all_not_in_conv order_le_less_trans)
      then show ?thesis using run cl inv by (auto simp: put_base_def row_view_def gen_put_def)
    qed
  next
    case 4
    let ?ws = "filter (\<lambda>v. \<not> snd (ColumnRole tab (Column v))) ?w"
    have "row_cells tab cl changed s rs = fold cell_put (map (\<lambda>v. (Column v, s)) ?ws) rs"
      using 4 cl by (auto simp: row_cells_def DominatedBy_iff RowDominates_def)
    moreover have "col \<in> Column ` set ?ws \<longleftrightarrow> col \<in> Column ` set changed \<and> eff rs col < s" if "col \<in> ?R" for col
      using won [OF that] that by (auto simp: registers_def)
    ultimately show ?thesis
      using cell_puts_view [OF inv, of s ?ws] cl
      by (auto simp: row_view_def gen_put_def fun_eq_iff max_def)
  qed
qed

section \<open>Any order, any multiplicity\<close>

definition table_columns :: "cell_tables option \<Rightarrow> table_id \<Rightarrow> column_id set" where
  "table_columns tables table = (case cellGroupTable tables table of None \<Rightarrow> UNIV | Some tab \<Rightarrow> registers tab)"

fun touched :: "cell_tables option \<Rightarrow> dml_record \<Rightarrow> column_id set" where
  "touched tables (Update table pk cl changed) =
     (case cellGroupTable tables table of
        None \<Rightarrow> if updateHasDelta changed then {} else UNIV
      | Some tab \<Rightarrow> Column ` set changed)"
| "touched tables _ = UNIV"

text \<open>
  What the replayed records are assumed to be: lengths have the parity of the operation, counter
  contributions go to counter columns, an insert carries the whole row. Blob patches are set apart.
\<close>

fun replay_ok :: "cell_tables option \<Rightarrow> dml_record \<Rightarrow> bool" where
  "replay_ok tables (Insert table pk cl img) \<longleftrightarrow> odd cl \<and>
     (case cellGroupTable tables table of None \<Rightarrow> True
      | Some tab \<Rightarrow> registers tab \<subseteq> Column ` {v \<in> set img. \<not> fst (ColumnRole tab (Column v))} \<and>
          (\<forall>v \<in> set img. Format v = FormatDelta \<longrightarrow> snd (ColumnRole tab (Column v))))"
| "replay_ok tables (Update table pk cl changed) \<longleftrightarrow> odd cl \<and>
     (case cellGroupTable tables table of None \<Rightarrow> True
      | Some tab \<Rightarrow> \<forall>v \<in> set changed. Format v = FormatDelta \<longrightarrow> snd (ColumnRole tab (Column v)))"
| "replay_ok tables (Delete table pk cl) \<longleftrightarrow> even cl"
| "replay_ok tables (BlobPatch table pk cl col ranges) \<longleftrightarrow> False"

lemma gen_put_inter: "R \<inter> C = R \<inter> C' \<Longrightarrow> gen_put R (cl, s, C) g = gen_put R (cl, s, C') g"
  by (cases g) (simp add: gen_put_def)

lemma row_cells_view:
  assumes "odd cl" and "zero_stamp \<le> s" and "row_inv True rs"
    and "\<forall>v \<in> set changed. Format v = FormatDelta \<longrightarrow> snd (ColumnRole tab (Column v))"
  shows "row_view (registers tab) (row_cells tab cl changed s rs) =
      gen_put (registers tab) (cl, s, Column ` set changed) (row_view (registers tab) rs) \<and>
    row_inv True (row_cells tab cl changed s rs)"
proof -
  consider "CL rs < cl" | "CL rs = cl" | "cl < CL rs" by fastforce
  then show ?thesis
  proof cases
    case 1
    then show ?thesis using assms by (intro row_cells_new)
  next
    case 2
    then show ?thesis using assms by (intro row_cells_same)
  next
    case 3
    then have "row_cells tab cl changed s rs = rs" by (simp add: row_cells_def)
    then show ?thesis using 3 assms(3) by (auto simp: row_view_def gen_put_def)
  qed
qed

lemma image_columns:
  "Column ` set (concat (map (cellValue tab) img)) = Column ` {v \<in> set img. \<not> fst (ColumnRole tab (Column v))}"
proof -
  have "Column ` set (cellValue tab v) = (if fst (ColumnRole tab (Column v)) then {} else {Column v})" for v
    by (cases "ColumnRole tab (Column v)") (simp add: cellValue_def)
  then show ?thesis by (auto simp: image_Union image_iff split: if_splits)
qed

lemma image_deltas:
  assumes "\<forall>v \<in> set img. Format v = FormatDelta \<longrightarrow> snd (ColumnRole tab (Column v))"
  shows "\<forall>w \<in> set (concat (map (cellValue tab) img)). Format w = FormatDelta \<longrightarrow> snd (ColumnRole tab (Column w))"
proof -
  have "\<forall>w \<in> set (cellValue tab v). Format w = FormatDelta \<longrightarrow> snd (ColumnRole tab (Column w))" if "v \<in> set img" for v
    using assms that by (cases "ColumnRole tab (Column v)") (auto simp: cellValue_def)
  then show ?thesis by auto
qed

lemma replay_view:
  assumes ok: "replay_ok tables r" and s: "zero_stamp \<le> s" and inv: "row_inv (cellGroupTable tables (HTable (Header r)) \<noteq> None) rs"
  defines "R \<equiv> table_columns tables (HTable (Header r))"
  shows "row_view R (row_replay tables s r rs) = gen_put R (HCL (Header r), s, touched tables r) (row_view R rs) \<and>
    row_inv (cellGroupTable tables (HTable (Header r)) \<noteq> None) (row_replay tables s r rs)"
proof (cases "cellGroupTable tables (HTable (Header r))")
  case None
  then have plain: "row_view UNIV (row_plain cl s rs) = gen_put UNIV (cl, s, UNIV) (row_view UNIV rs) \<and> row_inv False (row_plain cl s rs)" for cl
    using inv by (intro row_plain_view) simp_all
  show ?thesis
  proof (cases r)
    case (Update table pk cl changed)
    have "row_view UNIV (if CL rs < cl then put_base cl zero_stamp rs else rs) = gen_put UNIV (cl, s, {}) (row_view UNIV rs) \<and>
      row_inv False (if CL rs < cl then put_base cl zero_stamp rs else rs)"
      using inv None by (auto simp: put_base_gt row_view_def gen_put_def fun_eq_iff)
    then show ?thesis using plain None Update by (simp add: R_def table_columns_def row_replay_def)
  qed (use plain None ok in \<open>simp_all add: R_def table_columns_def row_replay_def\<close>)
next
  case (Some tab)
  have R: "R = registers tab" and inv: "row_inv True rs" using Some inv by (simp_all add: R_def table_columns_def)
  show ?thesis
  proof (cases r)
    case (Insert table pk cl img)
    note ok = ok [unfolded Insert replay_ok.simps] and tab = Some [unfolded Insert Header.simps, simplified]
    show ?thesis
    proof (cases "IsLive rs \<and> cl = CL rs")
      case True
      let ?ch = "concat (map (cellValue tab) img)"
      have "registers tab \<inter> Column ` set ?ch = registers tab \<inter> UNIV" using ok tab unfolding image_columns by auto
      from gen_put_inter [OF this] show ?thesis
        using row_cells_view [OF _ s inv image_deltas, of cl img tab] ok tab True Insert
        by (simp add: R row_replay_def)
    next
      case False
      then have "cl \<noteq> CL rs" using ok by (auto simp: row_parity)
      then show ?thesis using row_plain_view [OF inv, of cl "registers tab" s] tab False Insert
        by (auto simp: R row_replay_def)
    qed
  next
    case (Update table pk cl changed)
    then show ?thesis using row_cells_view [OF _ s inv, of cl changed tab] ok Some by (simp add: R row_replay_def)
  next
    case (Delete table pk cl)
    then show ?thesis using row_plain_view [OF inv, of cl "registers tab" s] ok Some by (simp add: R row_replay_def)
  qed (use ok in simp)
qed

definition row_of :: "dml_record \<Rightarrow> row_key" where
  "row_of r = (HTable (Header r), HPK (Header r))"

lemma replayRecord_row_of:
  "RowState (replayRecord tables s r c) t p = (if row_of r = (t, p) then row_replay tables s r (RowState c t p) else RowState c t p)"
  by (auto simp: replayRecord_row row_of_def)

lemma replay_fold_row:
  "RowState (fold (\<lambda>(s, r). replayRecord tables s r) xs c) t p =
    fold (\<lambda>(s, r). row_replay tables s r) (filter (\<lambda>(s, r). row_of r = (t, p)) xs) (RowState c t p)"
proof (induction xs arbitrary: c)
  case (Cons x xs)
  obtain s r where x: "x = (s, r)" by (cases x)
  show ?case by (simp add: x replayRecord_row_of Cons.IH)
qed simp

lemma replay_fold_view:
  assumes "\<forall>(s, r) \<in> set xs. replay_ok tables r \<and> zero_stamp \<le> s \<and> HTable (Header r) = t"
    and "row_inv (cellGroupTable tables t \<noteq> None) rs"
  shows "row_view (table_columns tables t) (fold (\<lambda>(s, r). row_replay tables s r) xs rs) =
    fold (gen_put (table_columns tables t)) (map (\<lambda>(s, r). (HCL (Header r), s, touched tables r)) xs)
      (row_view (table_columns tables t) rs)"
  using assms
proof (induction xs arbitrary: rs)
  case (Cons x xs)
  obtain s r where x: "x = (s, r)" by (cases x)
  show ?case using Cons replay_view [of tables r s rs] by (auto simp: x)
qed simp

lemma replay_converges:
  assumes "set xs = set ys" and "\<forall>(s, r) \<in> set xs. replay_ok tables r \<and> zero_stamp \<le> s"
    and "row_inv (cellGroupTable tables t \<noteq> None) (RowState c t p)"
  shows "row_view (table_columns tables t) (RowState (fold (\<lambda>(s, r). replayRecord tables s r) xs c) t p) =
    row_view (table_columns tables t) (RowState (fold (\<lambda>(s, r). replayRecord tables s r) ys c) t p)"
proof -
  let ?mine = "filter (\<lambda>(s, r). row_of r = (t, p))"
  let ?op = "\<lambda>(s, r). (HCL (Header r), s, touched tables r)"
  have v: "row_view (table_columns tables t) (RowState (fold (\<lambda>(s, r). replayRecord tables s r) zs c) t p) =
      fold (gen_put (table_columns tables t)) (map ?op (?mine zs)) (row_view (table_columns tables t) (RowState c t p))"
    if "set zs = set xs" for zs
    unfolding replay_fold_row using assms(2,3) that by (intro replay_fold_view) (auto simp: row_of_def)
  have "set (map ?op (?mine xs)) = set (map ?op (?mine ys))" using assms(1) by simp
  moreover have "\<forall>a \<in> set (map ?op (?mine xs)). real_stamp a" using assms(2) by (auto simp: real_stamp_def)
  ultimately have "fold (gen_put R) (map ?op (?mine xs)) g = fold (gen_put R) (map ?op (?mine ys)) g" for R g
    by (intro generations.converges) simp_all
  then show ?thesis by (simp only: v [OF refl] v [OF assms(1) [symmetric]])
qed

end
