(* ===== verification/Journal_Format.thy ===== *)
theory Journal_Format
  imports Bytes
begin

text \<open>
  \<open>internal/journal/format.go\<close> and the record parser of \<open>segment.go\<close>: the file header, the record
  header, the CRC-32 trailer and the alignment rule. Integers on disk are little-endian. Byte
  offsets inside a segment are natural numbers: a segment is shorter than \<open>2\<^sup>3\<^sup>2\<close> bytes and the code
  adds offsets as 64-bit integers, so no sum wraps. A record is complete when its first word, the
  kind, is not zero; the checksum leaves out that word and the flags, so both can be stored later.
\<close>

section \<open>Little-endian integers and CRC-32\<close>

definition put_le :: "nat \<Rightarrow> 'a::len word \<Rightarrow> bytes" where
  "put_le n v = rev (put_be n v)"

definition le_word :: "bytes \<Rightarrow> 'a::len word" where
  "le_word bs = be_word (rev bs)"

abbreviation le32 :: "u32 \<Rightarrow> bytes" where "le32 \<equiv> put_le 4"
abbreviation le64 :: "u64 \<Rightarrow> bytes" where "le64 \<equiv> put_le 8"

lemma length_put_le [simp]: "length (put_le n v) = n"
  by (simp add: put_le_def)

lemma le_word_put [simp]: "le_word (le32 x) = x" "le_word (le64 y) = y"
  by (simp_all add: le_word_def put_le_def)

lemma put_le_word: "8 * length bs \<le> LENGTH('a) \<Longrightarrow> put_le (length bs) (le_word bs :: 'a::len word) = bs"
  using put_be_be_word [where 'a = 'a, of "rev bs"] by (simp add: le_word_def put_le_def)

text \<open>\<open>crc32.ChecksumIEEE\<close> and \<open>crc32.NewIEEE\<close>: the reflected IEEE polynomial, complemented before and after.\<close>

definition ieee_shift :: "u32 \<Rightarrow> u32" where
  "ieee_shift crc = (if bit crc 0 then drop_bit 1 crc XOR 0xEDB88320 else drop_bit 1 crc)"

definition ieee_step :: "u32 \<Rightarrow> byte \<Rightarrow> u32" where
  "ieee_step crc v = (ieee_shift ^^ 8) (ucast (ucast crc XOR v :: byte)) XOR drop_bit 8 crc"

definition crc32 :: "bytes \<Rightarrow> u32" where
  "crc32 p = NOT (foldl ieee_step (NOT 0) p)"

section \<open>The file header\<close>

definition magic :: u64 where "magic = 0x4e524a595a59533a"
definition formatVersion :: u32 where "formatVersion = 2"
abbreviation (input) fileHeaderSize :: nat where "fileHeaderSize \<equiv> 64"
abbreviation (input) recordHeaderLen :: nat where "recordHeaderLen \<equiv> 40"
abbreviation (input) crcLen :: nat where "crcLen \<equiv> 4"
abbreviation (input) recordTrailerLen :: nat where "recordTrailerLen \<equiv> 8"
abbreviation (input) recordAlign :: nat where "recordAlign \<equiv> 8"
abbreviation (input) flagsHeaderOffset :: nat where "flagsHeaderOffset \<equiv> 4"

record file_header =
  Magic :: u64
  Version :: u32
  SegmentSize :: u32
  CreatedUs :: u64
  Salt0 :: u64
  Salt1 :: u64
  HeaderCRC :: u32

definition encodeFileHeader :: "file_header \<Rightarrow> bytes" where
  "encodeFileHeader h =
     (let b = le64 (Magic h) @ le32 (Version h) @ le32 (SegmentSize h) @ le64 (CreatedUs h) @
              le64 (Salt0 h) @ le64 (Salt1 h) @ replicate 20 0
      in b @ le32 (crc32 b))"

definition decodeFileHeader :: "bytes \<Rightarrow> file_header result" where
  "decodeFileHeader b =
     (if length b < fileHeaderSize then Inl ErrShortHeader
      else
        let h = \<lparr>Magic = le_word (take 8 b), Version = le_word (take 4 (drop 8 b)),
                 SegmentSize = le_word (take 4 (drop 12 b)), CreatedUs = le_word (take 8 (drop 16 b)),
                 Salt0 = le_word (take 8 (drop 24 b)), Salt1 = le_word (take 8 (drop 32 b)),
                 HeaderCRC = le_word (take 4 (drop 60 b))\<rparr>
        in if Magic h \<noteq> magic then Inl ErrBadMagic
           else if Version h \<noteq> formatVersion then Inl ErrUnsupportedVersion
           else if crc32 (take 60 b) \<noteq> HeaderCRC h then Inl ErrBadHeaderCRC
           else Inr h)"

lemma length_encodeFileHeader [simp]: "length (encodeFileHeader h) = fileHeaderSize"
  by (simp add: encodeFileHeader_def Let_def)

lemma decode_encode_header:
  assumes "Magic h = magic" and "Version h = formatVersion"
  shows "\<exists>crc. decodeFileHeader (encodeFileHeader h) = Inr (h\<lparr>HeaderCRC := crc\<rparr>)"
proof -
  let ?b = "le64 (Magic h) @ le32 (Version h) @ le32 (SegmentSize h) @ le64 (CreatedUs h) @
              le64 (Salt0 h) @ le64 (Salt1 h) @ replicate 20 0"
  have e: "encodeFileHeader h = ?b @ le32 (crc32 ?b)" by (simp only: encodeFileHeader_def Let_def)
  show ?thesis
    unfolding e using assms by (cases h) (simp add: decodeFileHeader_def)
qed

section \<open>Records\<close>

type_synonym kind = byte

definition KindUnknown :: kind where "KindUnknown = 0"
definition KindLocalDML :: kind where "KindLocalDML = 1"
definition KindLocalDDL :: kind where "KindLocalDDL = 2"
definition KindEmpty :: kind where "KindEmpty = 3"
definition KindMirror :: kind where "KindMirror = 4"
definition KindSeal :: kind where "KindSeal = 255"

lemmas kinds = KindUnknown_def KindLocalDML_def KindLocalDDL_def KindEmpty_def KindMirror_def KindSeal_def

definition FlagAborted :: u16 where "FlagAborted = 1"

record journal_record =
  RKind :: kind
  RFlags :: u16
  RSeq :: u64
  RHLC :: u64
  ROrigin :: u64
  RSchemaSeq :: u32
  RPayload :: bytes

definition Aborted :: "journal_record \<Rightarrow> bool" where
  "Aborted r = (RFlags r AND FlagAborted \<noteq> 0)"

record journal_header =
  JKind :: kind
  JPayloadLen :: u32
  JSchemaSeq :: u32
  JSeq :: u64
  JHLC :: u64
  JOrigin :: u64

definition decodeRecordHeader :: "bytes \<Rightarrow> journal_header" where
  "decodeRecordHeader b =
     (let kindWord = le_word (take 4 b) :: u32 in
      \<lparr>JKind = ucast kindWord, JPayloadLen = le_word (take 4 (drop 8 b)),
       JSchemaSeq = le_word (take 4 (drop 12 b)), JSeq = le_word (take 8 (drop 16 b)),
       JHLC = le_word (take 8 (drop 24 b)), JOrigin = le_word (take 8 (drop 32 b))\<rparr>)"

definition recordCRC :: "bytes \<Rightarrow> bytes \<Rightarrow> u32" where
  "recordCRC headerBytes payload = crc32 (drop (flagsHeaderOffset + 4) headerBytes @ payload)"

definition recordTotalLen :: "nat \<Rightarrow> nat" where
  "recordTotalLen payloadLen =
     (let raw = recordHeaderLen + payloadLen + recordTrailerLen
      in (raw + recordAlign - 1) div recordAlign * recordAlign)"

definition parseRecordAt :: "bytes \<Rightarrow> nat \<Rightarrow> nat \<Rightarrow> (journal_record \<times> nat) result" where
  "parseRecordAt data off limit =
     (if off + recordHeaderLen + crcLen > limit then Inl ErrEndOfData
      else
        let hdrBytes = take recordHeaderLen (drop off data) in
        if (le_word (take 4 hdrBytes) :: u32) = 0 then Inl ErrPending
        else
          let rh = decodeRecordHeader hdrBytes in
          if JKind rh = 0 then Inl ErrInvalidRecord
          else
            let stop = off + recordTotalLen (unat (JPayloadLen rh)) in
            if stop > limit then Inl ErrEndOfData
            else
              let hdrEnd = off + recordHeaderLen;
                  payloadEnd = hdrEnd + unat (JPayloadLen rh);
                  payload = take (unat (JPayloadLen rh)) (drop hdrEnd data) in
              if JKind rh = KindSeal \<and> payload \<noteq> [] then Inl ErrInvalidRecord
              else if le_word (take crcLen (drop payloadEnd data)) \<noteq> recordCRC hdrBytes payload then Inl ErrInvalidRecord
              else
                Inr (\<lparr>RKind = JKind rh, RFlags = ucast (le_word (take 4 (drop flagsHeaderOffset hdrBytes)) :: u32),
                      RSeq = JSeq rh, RHLC = JHLC rh, ROrigin = JOrigin rh, RSchemaSeq = JSchemaSeq rh,
                      RPayload = payload\<rparr>, stop))"

lemma recordTotalLen_bounds: "n + 48 \<le> recordTotalLen n" "recordTotalLen n < n + 56" "8 dvd recordTotalLen n"
  by (simp add: recordTotalLen_def Let_def; presburger)+

lemma parse_end: "parseRecordAt data off limit = Inr (r, stop) \<Longrightarrow> off + 48 \<le> stop \<and> stop \<le> limit"
  using recordTotalLen_bounds(1) [of "unat (JPayloadLen (decodeRecordHeader (take recordHeaderLen (drop off data))))"]
  by (simp add: parseRecordAt_def Let_def split: if_splits)

section \<open>The image of a record\<close>

text \<open>
  \<open>enc_rec r\<close> is what a finished append leaves in the file: header, payload, checksum, padding. The
  parser reads it back wherever it stands (\<open>parse_enc\<close>), and reads no record from zeroed reserve.
\<close>

definition rec_header :: "u32 \<Rightarrow> journal_record \<Rightarrow> bytes" where
  "rec_header kindWord r =
     le32 kindWord @ le32 (ucast (RFlags r)) @ le32 (word_of_nat (length (RPayload r))) @ le32 (RSchemaSeq r) @
     le64 (RSeq r) @ le64 (RHLC r) @ le64 (ROrigin r)"

definition rec_len :: "journal_record \<Rightarrow> nat" where
  "rec_len r = recordTotalLen (length (RPayload r))"

definition enc_rec :: "journal_record \<Rightarrow> bytes" where
  "enc_rec r = rec_header (ucast (RKind r)) r @ RPayload r @ le32 (recordCRC (rec_header 0 r) (RPayload r)) @
     replicate (rec_len r - (44 + length (RPayload r))) 0"

definition rec_ok :: "journal_record \<Rightarrow> bool" where
  "rec_ok r \<longleftrightarrow> RKind r \<noteq> 0 \<and> length (RPayload r) < 2 ^ 32 \<and> (RKind r = KindSeal \<longrightarrow> RPayload r = [])"

lemma length_rec_header [simp]: "length (rec_header k r) = 40"
  by (simp add: rec_header_def)

lemma rec_len_ge: "length (RPayload r) + 48 \<le> rec_len r"
  by (simp add: rec_len_def recordTotalLen_bounds)

lemma length_enc_rec [simp]: "length (enc_rec r) = rec_len r"
  using rec_len_ge [of r] by (simp add: enc_rec_def)

lemma recordCRC_kind: "recordCRC (rec_header k r) p = recordCRC (rec_header 0 r) p"
  by (simp add: recordCRC_def rec_header_def)

lemma decode_rec_header:
  "decodeRecordHeader (rec_header k r) =
    \<lparr>JKind = ucast k, JPayloadLen = word_of_nat (length (RPayload r)), JSchemaSeq = RSchemaSeq r,
     JSeq = RSeq r, JHLC = RHLC r, JOrigin = ROrigin r\<rparr>"
  by (simp add: decodeRecordHeader_def rec_header_def)

lemma ucast_kind_word: "ucast (ucast (k :: byte) :: u32) = k" "(ucast k :: u32) = 0 \<longleftrightarrow> k = 0"
  "ucast (ucast (f :: u16) :: u32) = f"
proof -
  show k: "ucast (ucast k :: u32) = k" by (rule bit_word_eqI) (auto simp: bit_simps)
  show "(ucast k :: u32) = 0 \<longleftrightarrow> k = 0" by (metis k unsigned_0)
  show "ucast (ucast f :: u32) = f" by (rule bit_word_eqI) (auto simp: bit_simps)
qed

lemma parse_enc:
  assumes "rec_ok r" and "data = pre @ enc_rec r @ post" and "limit = length data"
  shows "parseRecordAt data (length pre) limit = Inr (r, length pre + rec_len r)"
proof -
  have len: "unat (word_of_nat (length (RPayload r)) :: u32) = length (RPayload r)"
    using assms(1) by (simp add: rec_ok_def unat_of_nat)
  let ?h = "rec_header (ucast (RKind r)) r"
  have d: "drop (length pre) data = ?h @ RPayload r @ le32 (recordCRC (rec_header 0 r) (RPayload r)) @
     replicate (rec_len r - (44 + length (RPayload r))) 0 @ post"
    by (simp add: assms(2) enc_rec_def)
  have dp: "drop (length pre + k) data = drop k (drop (length pre) data)" for k
    by (simp add: add.commute)
  have lim: "length pre + rec_len r \<le> limit" by (simp add: assms)
  have kw: "(le_word (take 4 ?h) :: u32) = ucast (RKind r)" by (simp add: rec_header_def)
  have fl: "ucast (le_word (take 4 (drop 4 ?h)) :: u32) = RFlags r" by (simp add: rec_header_def ucast_kind_word)
  have t: "take 40 (drop (length pre) data) = ?h" by (simp add: d)
  have p: "take (length (RPayload r)) (drop (length pre + 40) data) = RPayload r"
    by (simp add: dp d)
  have c: "take 4 (drop (length pre + 40 + length (RPayload r)) data) = le32 (recordCRC (rec_header 0 r) (RPayload r))"
    by (simp add: dp d add.assoc)
  show ?thesis
    using assms(1) lim rec_len_ge [of r]
    by (simp add: parseRecordAt_def Let_def t kw decode_rec_header ucast_kind_word len p c fl recordCRC_kind [of "ucast (RKind r)"]
        rec_ok_def rec_len_def [symmetric])
qed

lemma parse_zeros:
  assumes "data = pre @ replicate n 0" and "off = length pre" and "limit = length data"
  shows "parseRecordAt data off limit = Inl (if n < 44 then ErrEndOfData else ErrPending)"
proof -
  have "le_word (replicate 4 0) = (0 :: u32)"
    by (simp add: le_word_def be_word_def numeral_eq_Suc)
  moreover have "take 4 (take 40 (drop off data)) = replicate 4 0" if "44 \<le> n"
    using that assms by (simp add: min_def)
  ultimately show ?thesis using assms by (simp add: parseRecordAt_def Let_def)
qed

end
