(* ===== verification/Journal_Segment.thy ===== *)
theory Journal_Segment
  imports Journal_Format "HOL-Library.Mapping"
begin

text \<open>
  \<open>internal/journal/segment.go\<close>: one memory-mapped file of the journal. The mapping is shared
  (\<open>MAP_SHARED\<close>), so the bytes belong to the directory (\<open>files\<close>, by segment number) and a \<open>segment\<close> is
  what one process remembers of a file: its size, the head it has observed, the sealed flag. An
  append is the list of its stores in program order; the file after a crash is the fold of a
  prefix of them. The timestamp and the salt of a new file are arguments; \<open>syncedHead\<close> and the flush
  to disk are not represented.
\<close>

type_synonym files = "(u32, bytes) mapping"

record segment =
  segNum :: u32
  segSize :: u32
  segHead :: nat
  segSealed :: bool

record fresh_header =
  freshUs :: u64
  freshSalt0 :: u64
  freshSalt1 :: u64

definition minSegmentSize :: nat where
  "minSegmentSize = fileHeaderSize + 1024"

definition seg_data :: "files \<Rightarrow> segment \<Rightarrow> bytes" where
  "seg_data files s = (case Mapping.lookup files (segNum s) of Some d \<Rightarrow> d | None \<Rightarrow> [])"

section \<open>Scanning\<close>

function scan_loop :: "bytes \<Rightarrow> nat \<Rightarrow> nat \<Rightarrow> u64 \<Rightarrow> nat \<times> u64 \<times> bool \<times> error option" where
  "scan_loop data limit off lastSeq =
     (case parseRecordAt data off limit of
        Inl e \<Rightarrow> (off, lastSeq, False, Some e)
      | Inr (rec, stop) \<Rightarrow>
          let lastSeq = (if RSeq rec > lastSeq then RSeq rec else lastSeq) in
          if RKind rec = KindSeal then (stop, lastSeq, True, None)
          else scan_loop data limit stop lastSeq)"
  by pat_completeness auto
termination
  by (relation "measure (\<lambda>(data, limit, off, lastSeq). limit - off)") (auto dest!: parse_end)

declare scan_loop.simps [simp del]

definition scanRecords :: "bytes \<Rightarrow> nat \<Rightarrow> nat \<times> u64 \<times> bool \<times> error option" where
  "scanRecords data segmentSize = scan_loop data segmentSize fileHeaderSize 0"

function record_after_loop :: "bytes \<Rightarrow> nat \<Rightarrow> nat \<Rightarrow> bool" where
  "record_after_loop data limit off =
     (if off + recordHeaderLen + crcLen \<le> limit
      then (case parseRecordAt data off limit of
              Inr _ \<Rightarrow> True
            | Inl _ \<Rightarrow> record_after_loop data limit (off + recordAlign))
      else False)"
  by pat_completeness auto
termination
  by (relation "measure (\<lambda>(data, limit, off). limit - off)") auto

declare record_after_loop.simps [simp del]

definition recordAfter :: "bytes \<Rightarrow> nat \<Rightarrow> nat \<Rightarrow> bool" where
  "recordAfter data from segmentSize = record_after_loop data segmentSize (from + recordAlign)"

section \<open>Opening\<close>

definition openSegmentFile :: "files \<Rightarrow> u32 \<Rightarrow> u32 \<Rightarrow> bool \<Rightarrow> fresh_header \<Rightarrow> (files \<times> segment \<times> u64 \<times> bool) result" where
  "openSegmentFile files num sz create fresh =
     (if Mapping.lookup files num = None \<and> \<not> create then Inl ErrNoFile
      else
        let bytes = (case Mapping.lookup files num of Some d \<Rightarrow> d | None \<Rightarrow> []) in
        if bytes = [] then
          if unat sz < minSegmentSize then Inl ErrSegmentSize
          else
            let hdr = \<lparr>Magic = magic, Version = formatVersion, SegmentSize = sz, CreatedUs = freshUs fresh,
                       Salt0 = freshSalt0 fresh, Salt1 = freshSalt1 fresh, HeaderCRC = 0\<rparr>;
                data = encodeFileHeader hdr @ replicate (unat sz - fileHeaderSize) 0
            in Inr (Mapping.update num data files,
                    \<lparr>segNum = num, segSize = sz, segHead = fileHeaderSize, segSealed = False\<rparr>, 0, False)
        else
          let sz = word_of_nat (length bytes) :: u32;
              data = take (unat sz) bytes in
          if sz = 0 then Inl ErrMmap
          else if length data < fileHeaderSize then Inl PanicIndex
          else bindE (decodeFileHeader (take fileHeaderSize data)) (\<lambda>hdr.
            if SegmentSize hdr \<noteq> sz then Inl ErrSegmentSize
            else
              let (head, lastSeq, sealed, stop) = scanRecords data (unat sz);
                  s = \<lparr>segNum = num, segSize = sz, segHead = head, segSealed = sealed\<rparr> in
              if stop = Some ErrInvalidRecord then
                if recordAfter data head (unat sz) then Inl (ErrMidJournalCorruption head)
                else
                  let cleared = take head data @ replicate (unat sz - head) 0 @ drop (unat sz) bytes
                  in Inr (Mapping.update num cleared files, s, lastSeq, sealed)
              else Inr (files, s, lastSeq, sealed)))"

definition openSegment :: "files \<Rightarrow> u32 \<Rightarrow> u32 \<Rightarrow> fresh_header \<Rightarrow> (files \<times> segment \<times> u64 \<times> bool) result" where
  "openSegment files num sz fresh = openSegmentFile files num sz True fresh"

definition openExistingSegment :: "files \<Rightarrow> u32 \<Rightarrow> fresh_header \<Rightarrow> (files \<times> segment \<times> u64 \<times> bool) result" where
  "openExistingSegment files num fresh = openSegmentFile files num 0 False fresh"

section \<open>Appending, marking and reading\<close>

definition store :: "nat \<times> bytes \<Rightarrow> bytes \<Rightarrow> bytes" where
  "store = (\<lambda>(off, b) data. take off data @ b @ drop (off + length b) data)"

definition append_stores :: "nat \<Rightarrow> journal_record \<Rightarrow> (nat \<times> bytes) list" where
  "append_stores off r =
     (let len = length (RPayload r); payloadEnd = off + recordHeaderLen + len; total = rec_len r in
      [(off, le32 0), (off + 4, le32 (ucast (RFlags r))), (off + 8, le32 (word_of_nat len)),
       (off + 12, le32 (RSchemaSeq r)), (off + 16, le64 (RSeq r)), (off + 24, le64 (RHLC r)),
       (off + 32, le64 (ROrigin r)), (off + recordHeaderLen, RPayload r),
       (payloadEnd, le32 (recordCRC (rec_header 0 r) (RPayload r))),
       (payloadEnd + crcLen, replicate (off + total - (payloadEnd + crcLen)) 0),
       (off, le32 (ucast (RKind r)))])"

definition segment_append :: "files \<Rightarrow> segment \<Rightarrow> journal_record \<Rightarrow> (files \<times> segment \<times> nat) result" where
  "segment_append files s r =
     (if segSealed s then Inl ErrSegmentFull
      else
        let total = rec_len r; off = segHead s in
        if off + total > unat (segSize s) then Inl ErrSegmentFull
        else Inr (Mapping.update (segNum s) (fold store (append_stores off r) (seg_data files s)) files,
                  s\<lparr>segHead := off + total, segSealed := RKind r = KindSeal\<rparr>, off))"

definition segment_markAborted :: "files \<Rightarrow> segment \<Rightarrow> nat \<Rightarrow> files result" where
  "segment_markAborted files s byteOff =
     (if byteOff < fileHeaderSize \<or> byteOff + recordHeaderLen > unat (segSize s) then Inl ErrOffsetRange
      else
        let at = byteOff + flagsHeaderOffset; data = seg_data files s;
            word = le_word (take 4 (drop at data)) :: u32
        in Inr (Mapping.update (segNum s) (store (at, le32 (word OR ucast FlagAborted)) data) files))"

definition segment_next :: "files \<Rightarrow> segment \<Rightarrow> nat \<Rightarrow> (segment \<times> journal_record \<times> nat) result" where
  "segment_next files s byteOff =
     (if byteOff \<ge> unat (segSize s) then Inl ErrEOF
      else
        case parseRecordAt (seg_data files s) byteOff (unat (segSize s)) of
          Inl ErrPending \<Rightarrow> Inl ErrPending
        | Inl ErrEndOfData \<Rightarrow> Inl ErrEOF
        | Inl ErrInvalidRecord \<Rightarrow> Inl (ErrRecordCRC byteOff)
        | Inl e \<Rightarrow> Inl e
        | Inr (rec, stop) \<Rightarrow>
            let s = (if stop > segHead s then s\<lparr>segHead := stop\<rparr> else s);
                s = (if RKind rec = KindSeal then s\<lparr>segSealed := True\<rparr> else s)
            in Inr (s, rec, stop))"

section \<open>The log a file holds\<close>

text \<open>
  \<open>seg_file data rs rest\<close>: a valid header, the images of the records \<open>rs\<close>, then \<open>rest\<close>. A reserve is
  \<open>quiet\<close> when the parser finds no record at its start.
\<close>

definition recs_len :: "journal_record list \<Rightarrow> nat" where
  "recs_len rs = sum_list (map rec_len rs)"

definition is_sealed :: "journal_record list \<Rightarrow> bool" where
  "is_sealed rs \<longleftrightarrow> rs \<noteq> [] \<and> RKind (last rs) = KindSeal"

definition log_ok :: "journal_record list \<Rightarrow> bool" where
  "log_ok rs \<longleftrightarrow> (\<forall>r \<in> set rs. rec_ok r) \<and> (\<forall>r \<in> set (butlast rs). RKind r \<noteq> KindSeal)"

definition seg_file :: "bytes \<Rightarrow> journal_record list \<Rightarrow> bytes \<Rightarrow> bool" where
  "seg_file data rs rest \<longleftrightarrow> log_ok rs \<and> (\<exists>hdr h. data = hdr @ concat (map enc_rec rs) @ rest \<and>
     length hdr = 64 \<and> decodeFileHeader hdr = Inr h \<and> unat (SegmentSize h) = length data)"

definition quiet :: "bytes \<Rightarrow> bool" where
  "quiet rest \<longleftrightarrow> length rest < 44 \<or> take 4 rest = replicate 4 0"

lemma recs_len_simps [simp]:
  "recs_len [] = 0" "recs_len (r # rs) = rec_len r + recs_len rs" "recs_len (xs @ ys) = recs_len xs + recs_len ys"
  by (simp_all add: recs_len_def)

lemma length_images [simp]: "length (concat (map enc_rec rs)) = recs_len rs"
  by (induction rs) simp_all

lemma quiet_zeros [simp]: "quiet (replicate n 0)"
  by (auto simp: quiet_def min_def)

lemma seg_file_len: "seg_file data rs rest \<Longrightarrow> length data = 64 + recs_len rs + length rest"
  by (auto simp: seg_file_def)

lemma seg_file_small: "seg_file data rs rest \<Longrightarrow> length data < 2 ^ 32"
proof -
  assume "seg_file data rs rest"
  then obtain h :: file_header where h: "unat (SegmentSize h) = length data" by (auto simp: seg_file_def)
  have "unat (SegmentSize h) < 2 ^ 32" by (rule order_less_le_trans [OF unsigned_less]) simp
  then show ?thesis using h by simp
qed

lemma log_ok_snoc: "log_ok (rs @ [r]) \<longleftrightarrow> log_ok rs \<and> \<not> is_sealed rs \<and> rec_ok r"
  by (cases rs rule: rev_cases) (auto simp: log_ok_def is_sealed_def butlast_append)

lemma parse_nth:
  assumes "seg_file data rs rest" and "k < length rs"
  shows "parseRecordAt data (64 + recs_len (take k rs)) (length data) =
    Inr (rs ! k, 64 + recs_len (take (Suc k) rs))"
proof -
  obtain hdr where d: "data = hdr @ concat (map enc_rec rs) @ rest" and h: "length hdr = 64"
    using assms(1) by (auto simp: seg_file_def)
  have "rs = take k rs @ rs ! k # drop (Suc k) rs" using assms(2) by (simp add: id_take_nth_drop)
  then have "concat (map enc_rec rs) =
      concat (map enc_rec (take k rs)) @ enc_rec (rs ! k) @ concat (map enc_rec (drop (Suc k) rs))"
    by (metis concat.simps(2) concat_append list.simps(9) map_append)
  then have "data = (hdr @ concat (map enc_rec (take k rs))) @ enc_rec (rs ! k) @
      (concat (map enc_rec (drop (Suc k) rs)) @ rest)" using d by simp
  moreover have "rec_ok (rs ! k)" using assms by (auto simp: seg_file_def log_ok_def)
  ultimately have "parseRecordAt data (length (hdr @ concat (map enc_rec (take k rs)))) (length data) =
      Inr (rs ! k, length (hdr @ concat (map enc_rec (take k rs))) + rec_len (rs ! k))"
    by (intro parse_enc) auto
  then show ?thesis using assms(2) by (simp add: h take_Suc_conv_app_nth)
qed

lemma parse_rest:
  assumes "seg_file data rs rest" and "quiet rest"
  shows "parseRecordAt data (64 + recs_len rs) (length data) =
    Inl (if length rest < 44 then ErrEndOfData else ErrPending)"
proof -
  obtain hdr where d: "data = (hdr @ concat (map enc_rec rs)) @ rest" and h: "length hdr = 64"
    using assms(1) by (auto simp: seg_file_def)
  have "drop (64 + recs_len rs) data = rest" by (simp add: d h)
  moreover have "le_word (replicate 4 0) = (0 :: u32)"
    by (simp add: le_word_def be_word_def numeral_eq_Suc)
  ultimately show ?thesis
    using assms(2) seg_file_len [OF assms(1)] by (auto simp: parseRecordAt_def quiet_def Let_def)
qed

lemma take_sealed:
  assumes "log_ok rs" and "k < length rs"
  shows "RKind (rs ! k) = KindSeal \<longleftrightarrow> Suc k = length rs \<and> is_sealed rs"
proof (cases rs rule: rev_cases)
  case (snoc ys y)
  then show ?thesis
    using assms by (cases "k < length ys") (auto simp: log_ok_def is_sealed_def nth_append not_less)
qed (use assms in simp)

definition last_seq :: "u64 \<Rightarrow> journal_record list \<Rightarrow> u64" where
  "last_seq seq rs = foldl (\<lambda>m r. max m (RSeq r)) seq rs"

lemma scan_suffix:
  assumes "seg_file data rs rest" and "quiet rest" and "k \<le> length rs" and "\<not> (is_sealed rs \<and> k = length rs)"
  shows "scan_loop data (length data) (64 + recs_len (take k rs)) seq =
    (64 + recs_len rs, last_seq seq (drop k rs), is_sealed rs,
     if is_sealed rs then None else Some (if length rest < 44 then ErrEndOfData else ErrPending))"
  using assms(3,4)
proof (induction "length rs - k" arbitrary: k seq)
  case 0
  then have "k = length rs" by simp
  then show ?case using parse_rest [OF assms(1,2)] 0 by (subst scan_loop.simps) (simp add: last_seq_def)
next
  case (Suc n)
  then have k: "k < length rs" by simp
  have ok: "log_ok rs" using assms(1) by (simp add: seg_file_def)
  have d: "drop k rs = rs ! k # drop (Suc k) rs" using k by (simp add: Cons_nth_drop_Suc)
  have m: "(if a < b then b else a) = max a b" for a b :: u64 by (auto simp: max_def)
  show ?case
  proof (cases "RKind (rs ! k) = KindSeal")
    case True
    then have "Suc k = length rs" "is_sealed rs" using take_sealed [OF ok k] by auto
    then show ?thesis using True parse_nth [OF assms(1) k]
      by (subst scan_loop.simps) (simp add: Let_def m d last_seq_def)
  next
    case False
    then have ns: "\<not> (is_sealed rs \<and> Suc k = length rs)" using take_sealed [OF ok k] by auto
    have "n = length rs - Suc k" using Suc.hyps(2) by simp
    from Suc.hyps(1) [OF this _ ns, of "max seq (RSeq (rs ! k))"] show ?thesis
      using False parse_nth [OF assms(1) k] k
      by (subst scan_loop.simps) (simp add: Let_def m d last_seq_def)
  qed
qed

lemma scan_file:
  assumes "seg_file data rs rest" and "quiet rest"
  shows "scanRecords data (length data) =
    (64 + recs_len rs, last_seq 0 rs, is_sealed rs,
     if is_sealed rs then None else Some (if length rest < 44 then ErrEndOfData else ErrPending))"
  using scan_suffix [OF assms, of 0 0] by (auto simp: scanRecords_def is_sealed_def)

section \<open>What an append stores\<close>

lemma store_next:
  assumes "length b \<le> length t" and "off = length a"
  shows "store (off, b) (a @ t) = (a @ b) @ drop (length b) t"
  using assms by (simp add: store_def)

lemma store_first: "length b = length b' \<Longrightarrow> store (length a, b') (a @ b @ t) = a @ b' @ t"
  by (simp add: store_def)

fun chain :: "nat \<Rightarrow> bytes list \<Rightarrow> (nat \<times> bytes) list" where
  "chain off [] = []"
| "chain off (b # bs) = (off, b) # chain (off + length b) bs"

lemma fold_chain:
  assumes "length (concat bs) \<le> length t"
  shows "fold store (chain (length a) bs) (a @ t) = a @ concat bs @ drop (length (concat bs)) t"
  using assms
proof (induction bs arbitrary: a t)
  case (Cons b bs)
  have "fold store (chain (length (a @ b)) bs) ((a @ b) @ drop (length b) t) =
      (a @ b) @ concat bs @ drop (length (concat bs)) (drop (length b) t)"
    using Cons.prems by (intro Cons.IH) simp
  then show ?case using Cons.prems by (simp add: store_next [of b t _ a] add.commute)
qed simp

definition rec_fields :: "journal_record \<Rightarrow> bytes list" where
  "rec_fields r =
     [le32 0, le32 (ucast (RFlags r)), le32 (word_of_nat (length (RPayload r))), le32 (RSchemaSeq r),
      le64 (RSeq r), le64 (RHLC r), le64 (ROrigin r), RPayload r,
      le32 (recordCRC (rec_header 0 r) (RPayload r)), replicate (rec_len r - (44 + length (RPayload r))) 0]"

lemma length_rec_fields: "length (rec_fields r) = 10"
  by (simp add: rec_fields_def)

lemma append_stores_chain:
  "append_stores off r = chain off (rec_fields r) @ [(off, le32 (ucast (RKind r)))]"
  using rec_len_ge [of r] by (simp add: append_stores_def rec_fields_def Let_def add.assoc)

lemma fields_enc: "concat (rec_fields r) = le32 0 @ drop 4 (enc_rec r)"
  by (simp add: rec_fields_def enc_rec_def rec_header_def)

lemma enc_publish: "enc_rec r = le32 (ucast (RKind r)) @ drop 4 (enc_rec r)"
  by (simp add: enc_rec_def rec_header_def)

lemma length_fields [simp]: "length (concat (rec_fields r)) = rec_len r"
  using rec_len_ge [of r] by (simp add: fields_enc)

lemma append_image:
  assumes "rec_len r \<le> length t"
  shows "fold store (append_stores (length a) r) (a @ t) = a @ enc_rec r @ drop (rec_len r) t"
proof -
  have "fold store (append_stores (length a) r) (a @ t) =
      store (length a, le32 (ucast (RKind r))) (a @ le32 0 @ (drop 4 (enc_rec r) @ drop (rec_len r) t))"
    using fold_chain [of "rec_fields r" t a] assms unfolding append_stores_chain length_fields
    by simp (simp add: fields_enc)
  also have "\<dots> = a @ le32 (ucast (RKind r)) @ (drop 4 (enc_rec r) @ drop (rec_len r) t)"
    by (rule store_first) simp
  also have "\<dots> = a @ enc_rec r @ drop (rec_len r) t"
    using enc_publish [of r] by (metis append_assoc)
  finally show ?thesis .
qed

lemma chain_take: "take n (chain off bs) = chain off (take n bs)"
proof (induction bs arbitrary: off n)
  case (Cons b bs)
  then show ?case by (cases n) simp_all
qed simp

lemma length_chain [simp]: "length (chain off bs) = length bs"
  by (induction bs arbitrary: off) simp_all

lemma length_concat_take: "length (concat (take n bs)) \<le> length (concat bs)"
  by (metis append_take_drop_id concat_append length_append le_add1)

lemma crash_image:
  assumes "rec_len r \<le> length t" and "quiet t" and "n < length (append_stores (length a) r)"
  shows "\<exists>t'. fold store (take n (append_stores (length a) r)) (a @ t) = a @ t' \<and> length t' = length t \<and> quiet t'"
proof -
  have "n \<le> 10" using assms(3) by (simp add: append_stores_chain rec_fields_def)
  then have tk: "take n (append_stores (length a) r) = chain (length a) (take n (rec_fields r))"
    unfolding append_stores_chain by (simp add: chain_take [symmetric] length_rec_fields)
  let ?w = "concat (take n (rec_fields r))"
  have len: "length ?w \<le> length t" using length_concat_take [of n "rec_fields r"] assms(1) by simp
  have "take 4 (?w @ drop (length ?w) t) = replicate 4 0" if "44 \<le> length t"
  proof (cases n)
    case 0
    then show ?thesis using that assms(2) by (simp add: quiet_def)
  next
    case (Suc m)
    have "le32 0 = replicate 4 0" by (simp add: put_le_def put_be_def numeral_eq_Suc)
    then show ?thesis by (simp add: Suc rec_fields_def)
  qed
  then have "quiet (?w @ drop (length ?w) t)" using len by (cases "44 \<le> length t") (simp_all add: quiet_def)
  then show ?thesis using fold_chain [OF len, of a] len tk by (intro exI [of _ "?w @ drop (length ?w) t"]) simp
qed

section \<open>A segment and its log\<close>

definition seg_ok :: "files \<Rightarrow> segment \<Rightarrow> journal_record list \<Rightarrow> bool" where
  "seg_ok files s rs \<longleftrightarrow> (\<exists>data n. Mapping.lookup files (segNum s) = Some data \<and> seg_file data rs (replicate n 0) \<and>
     unat (segSize s) = length data) \<and> segHead s = 64 + recs_len rs \<and> segSealed s = is_sealed rs"

lemma seg_okE:
  assumes "seg_ok files s rs"
  obtains data n where "Mapping.lookup files (segNum s) = Some data" "seg_file data rs (replicate n 0)"
    "unat (segSize s) = length data" "segHead s = 64 + recs_len rs" "segSealed s = is_sealed rs"
    "seg_data files s = data"
  using assms by (auto simp: seg_ok_def seg_data_def)

lemma seg_ok_frame: "Mapping.lookup files' (segNum s) = Mapping.lookup files (segNum s) \<Longrightarrow>
    seg_ok files' s rs = seg_ok files s rs"
  by (simp add: seg_ok_def)

lemma seg_file_append:
  assumes f: "seg_file data rs rest" and ns: "\<not> is_sealed rs" and r: "rec_ok r" and fit: "rec_len r \<le> length rest"
  shows "seg_file (fold store (append_stores (64 + recs_len rs) r) data) (rs @ [r]) (drop (rec_len r) rest)"
    (is "seg_file ?d _ _")
    and "length (fold store (append_stores (64 + recs_len rs) r) data) = length data"
proof -
  obtain hdr h where d: "data = hdr @ concat (map enc_rec rs) @ rest" and l: "length hdr = 64"
    and h: "decodeFileHeader hdr = Inr h" "unat (SegmentSize h) = length data"
    using f by (auto simp: seg_file_def)
  have "?d = (hdr @ concat (map enc_rec rs)) @ enc_rec r @ drop (rec_len r) rest"
    using append_image [OF fit, of "hdr @ concat (map enc_rec rs)"] d l by simp
  moreover from this show len: "length ?d = length data" using d fit by simp
  moreover have "log_ok (rs @ [r])" using f ns r by (simp add: log_ok_snoc seg_file_def)
  ultimately show "seg_file ?d (rs @ [r]) (drop (rec_len r) rest)"
    unfolding seg_file_def using l h by auto
qed

lemma seg_append:
  assumes "seg_ok files s rs" and "\<not> is_sealed rs" and "rec_ok r" and "segHead s + rec_len r \<le> unat (segSize s)"
  obtains data where
    "segment_append files s r = Inr (Mapping.update (segNum s) data files,
       s\<lparr>segHead := segHead s + rec_len r, segSealed := RKind r = KindSeal\<rparr>, segHead s)"
    "seg_ok (Mapping.update (segNum s) data files)
       (s\<lparr>segHead := segHead s + rec_len r, segSealed := RKind r = KindSeal\<rparr>) (rs @ [r])"
proof -
  obtain data n where o: "Mapping.lookup files (segNum s) = Some data" "seg_file data rs (replicate n 0)"
    "unat (segSize s) = length data" "segHead s = 64 + recs_len rs" "segSealed s = is_sealed rs"
    "seg_data files s = data"
    using assms(1) by (rule seg_okE)
  let ?d = "fold store (append_stores (segHead s) r) data"
  have "rec_len r \<le> n" using assms(4) o(3,4) seg_file_len [OF o(2)] by simp
  then have "seg_file ?d (rs @ [r]) (replicate (n - rec_len r) 0)" "length ?d = length data"
    using seg_file_append [OF o(2) assms(2,3)] o(4) by simp_all
  moreover have "is_sealed (rs @ [r]) = (RKind r = KindSeal)" by (simp add: is_sealed_def)
  ultimately have "seg_ok (Mapping.update (segNum s) ?d files)
       (s\<lparr>segHead := segHead s + rec_len r, segSealed := RKind r = KindSeal\<rparr>) (rs @ [r])"
    using o(3,4) unfolding seg_ok_def by (auto simp: lookup_update)
  moreover have "segment_append files s r = Inr (Mapping.update (segNum s) ?d files,
       s\<lparr>segHead := segHead s + rec_len r, segSealed := RKind r = KindSeal\<rparr>, segHead s)"
    using assms(2,4) o(5,6) by (simp add: segment_append_def Let_def)
  ultimately show ?thesis by (rule that [rotated])
qed

lemma recs_len_take_less: "k < length rs \<Longrightarrow> recs_len (take k rs) + rec_len (rs ! k) \<le> recs_len rs"
proof -
  assume k: "k < length rs"
  have "recs_len rs = recs_len (take (Suc k) rs) + recs_len (drop (Suc k) rs)"
    by (metis append_take_drop_id recs_len_simps(3))
  then show ?thesis using k by (simp add: take_Suc_conv_app_nth)
qed

lemma seg_next:
  assumes "seg_ok files s rs" and "k < length rs"
  shows "segment_next files s (64 + recs_len (take k rs)) = Inr (s, rs ! k, 64 + recs_len (take (Suc k) rs))"
proof -
  obtain data n where o: "seg_file data rs (replicate n 0)" "unat (segSize s) = length data"
    "segHead s = 64 + recs_len rs" "segSealed s = is_sealed rs" "seg_data files s = data"
    using assms(1) by (rule seg_okE)
  have lt: "recs_len (take k rs) + rec_len (rs ! k) \<le> recs_len rs" by (rule recs_len_take_less [OF assms(2)])
  have "0 < rec_len (rs ! k)" using rec_len_ge [of "rs ! k"] by simp
  then have "64 + recs_len (take k rs) < length data" using lt seg_file_len [OF o(1)] by simp
  moreover have "RKind (rs ! k) = KindSeal \<Longrightarrow> s\<lparr>segSealed := True\<rparr> = s"
    using take_sealed [of rs k] o(1,4) assms(2) by (cases s) (simp add: seg_file_def)
  moreover have "\<not> segHead s < 64 + recs_len (take (Suc k) rs)"
    using lt o(3) assms(2) by (simp add: take_Suc_conv_app_nth)
  ultimately show ?thesis
    using parse_nth [OF o(1) assms(2)] o(2,5) by (simp add: segment_next_def Let_def)
qed

lemma seg_next_end:
  assumes "seg_ok files s rs"
  shows "segment_next files s (64 + recs_len rs) \<in> {Inl ErrPending, Inl ErrEOF}"
proof -
  obtain data n where o: "seg_file data rs (replicate n 0)" "unat (segSize s) = length data" "seg_data files s = data"
    using assms by (rule seg_okE)
  show ?thesis using parse_rest [OF o(1)] o(2,3) by (simp add: segment_next_def)
qed

lemma open_file:
  assumes "Mapping.lookup files num = Some data" and "seg_file data rs rest" and "quiet rest"
  shows "openSegmentFile files num sz create fresh =
    Inr (files, \<lparr>segNum = num, segSize = word_of_nat (length data), segHead = 64 + recs_len rs, segSealed = is_sealed rs\<rparr>,
         last_seq 0 rs, is_sealed rs)"
proof -
  obtain hdr h where d: "data = hdr @ concat (map enc_rec rs) @ rest" and l: "length hdr = 64"
    and h: "decodeFileHeader hdr = Inr h" "unat (SegmentSize h) = length data"
    using assms(2) by (auto simp: seg_file_def)
  have u: "unat (word_of_nat (length data) :: u32) = length data"
    using seg_file_small [OF assms(2)] by (simp add: unat_of_nat)
  have z: "SegmentSize h = word_of_nat (length data)" by (simp add: h(2) [symmetric])
  have len: "64 \<le> length data" using seg_file_len [OF assms(2)] by simp
  then have nz: "(word_of_nat (length data) :: u32) \<noteq> 0" using u by (metis not_numeral_le_zero unsigned_0)
  have "data \<noteq> []" using len by auto
  moreover have "take 64 data = hdr" using d l by simp
  ultimately show ?thesis
    using scan_file [OF assms(2,3)] h(1) z nz len u assms(1)
    by (simp add: openSegmentFile_def Let_def)
qed

lemma open_seg_ok:
  assumes "seg_ok files s rs"
  shows "openSegmentFile files (segNum s) sz create fresh = Inr (files, s, last_seq 0 rs, is_sealed rs)"
proof -
  obtain data n where o: "Mapping.lookup files (segNum s) = Some data" "seg_file data rs (replicate n 0)"
    "unat (segSize s) = length data" "segHead s = 64 + recs_len rs" "segSealed s = is_sealed rs"
    using assms by (rule seg_okE)
  have "word_of_nat (length data) = segSize s" by (simp add: o(3) [symmetric])
  then show ?thesis using open_file [OF o(1,2) quiet_zeros, of sz create fresh] o(4,5) by (cases s) simp
qed

definition fresh_image :: "u32 \<Rightarrow> fresh_header \<Rightarrow> bytes" where
  "fresh_image sz fresh =
     encodeFileHeader \<lparr>Magic = magic, Version = formatVersion, SegmentSize = sz, CreatedUs = freshUs fresh,
       Salt0 = freshSalt0 fresh, Salt1 = freshSalt1 fresh, HeaderCRC = 0\<rparr> @ replicate (unat sz - 64) 0"

abbreviation fresh_segment :: "u32 \<Rightarrow> u32 \<Rightarrow> segment" where
  "fresh_segment num sz \<equiv> \<lparr>segNum = num, segSize = sz, segHead = 64, segSealed = False\<rparr>"

lemma fresh_seg_ok:
  assumes "minSegmentSize \<le> unat sz"
  shows "seg_ok (Mapping.update num (fresh_image sz fresh) files) (fresh_segment num sz) []"
proof -
  let ?h = "\<lparr>Magic = magic, Version = formatVersion, SegmentSize = sz, CreatedUs = freshUs fresh,
                       Salt0 = freshSalt0 fresh, Salt1 = freshSalt1 fresh, HeaderCRC = 0\<rparr>"
  obtain crc where "decodeFileHeader (encodeFileHeader ?h) = Inr (?h\<lparr>HeaderCRC := crc\<rparr>)"
    using decode_encode_header [of ?h] by auto
  moreover have len: "length (fresh_image sz fresh) = unat sz"
    using assms by (simp add: minSegmentSize_def fresh_image_def)
  ultimately have "seg_file (fresh_image sz fresh) [] (replicate (unat sz - 64) 0)"
    unfolding seg_file_def by (auto simp: log_ok_def fresh_image_def)
  then show ?thesis using len by (auto simp: seg_ok_def lookup_update is_sealed_def)
qed

lemma open_fresh:
  assumes "Mapping.lookup files num = None" and "minSegmentSize \<le> unat sz"
  shows "openSegment files num sz fresh =
    Inr (Mapping.update num (fresh_image sz fresh) files, fresh_segment num sz, 0, False)"
  using assms by (simp add: openSegment_def openSegmentFile_def fresh_image_def Let_def)

section \<open>Crashes\<close>

definition crashed :: "nat \<Rightarrow> journal_record \<Rightarrow> files \<Rightarrow> segment \<Rightarrow> files" where
  "crashed n r files s =
     Mapping.update (segNum s) (fold store (take n (append_stores (segHead s) r)) (seg_data files s)) files"

lemma length_append_stores [simp]: "length (append_stores off r) = 11"
  by (simp add: append_stores_def Let_def)

lemma seg_file_crash:
  assumes f: "seg_file data rs rest" and q: "quiet rest" and fit: "rec_len r \<le> length rest" and n: "n < 11"
  obtains rest' where "seg_file (fold store (take n (append_stores (64 + recs_len rs) r)) data) rs rest'" "quiet rest'"
    "length rest' = length rest"
proof -
  obtain hdr h where d: "data = hdr @ concat (map enc_rec rs) @ rest" and l: "length hdr = 64"
    and h: "decodeFileHeader hdr = Inr h" "unat (SegmentSize h) = length data"
    using f by (auto simp: seg_file_def)
  obtain t' where "fold store (take n (append_stores (64 + recs_len rs) r)) data = (hdr @ concat (map enc_rec rs)) @ t'"
    "length t' = length rest" "quiet t'"
    using crash_image [OF fit q, of n "hdr @ concat (map enc_rec rs)"] n d l by auto
  moreover from this have "seg_file (fold store (take n (append_stores (64 + recs_len rs) r)) data) rs t'"
    using f l h d by (auto simp: seg_file_def)
  ultimately show ?thesis using that by blast
qed

text \<open>
  C8: an append is atomic under a crash of the writing process at any of its stores. A process
  that opens the file afterwards finds the segment exactly as before the append while the kind
  word is not yet stored, and with the whole record, its sequence number and its seal once it is;
  the file is left as it is found.
\<close>

theorem append_crash_atomic:
  assumes "seg_ok files s rs" and "\<not> is_sealed rs" and "rec_ok r" and "segHead s + rec_len r \<le> unat (segSize s)"
  shows "openSegmentFile (crashed n r files s) (segNum s) sz create fresh =
    (if n < length (append_stores (segHead s) r)
     then Inr (crashed n r files s, s, last_seq 0 rs, False)
     else Inr (crashed n r files s, s\<lparr>segHead := segHead s + rec_len r, segSealed := RKind r = KindSeal\<rparr>,
               last_seq 0 (rs @ [r]), RKind r = KindSeal))"
proof -
  obtain data z where o: "Mapping.lookup files (segNum s) = Some data" "seg_file data rs (replicate z 0)"
    "unat (segSize s) = length data" "segHead s = 64 + recs_len rs" "segSealed s = is_sealed rs"
    "seg_data files s = data"
    using assms(1) by (rule seg_okE)
  have fit: "rec_len r \<le> z" using assms(4) o(3,4) seg_file_len [OF o(2)] by simp
  show ?thesis
  proof (cases "n < 11")
    case True
    then obtain t where t: "seg_file (fold store (take n (append_stores (64 + recs_len rs) r)) data) rs t" "quiet t"
      "length t = z"
      using seg_file_crash [OF o(2) quiet_zeros, of r n] fit by auto
    have l: "length (fold store (take n (append_stores (64 + recs_len rs) r)) data) = length data"
      using seg_file_len [OF t(1)] seg_file_len [OF o(2)] t(3) by simp
    have "word_of_nat (length data) = segSize s" by (simp add: o(3) [symmetric])
    then show ?thesis
      using open_file [OF _ t(1,2), of "crashed n r files s" "segNum s" sz create fresh] True o(4,5,6) l assms(2)
      by (cases s) (simp add: crashed_def lookup_update)
  next
    case False
    obtain d where d: "segment_append files s r = Inr (Mapping.update (segNum s) d files,
       s\<lparr>segHead := segHead s + rec_len r, segSealed := RKind r = KindSeal\<rparr>, segHead s)"
      "seg_ok (Mapping.update (segNum s) d files)
       (s\<lparr>segHead := segHead s + rec_len r, segSealed := RKind r = KindSeal\<rparr>) (rs @ [r])"
      using seg_append [OF assms] by blast
    have "crashed n r files s = Mapping.update (segNum s) d files"
      using d(1) False by (simp add: crashed_def segment_append_def Let_def split: if_splits)
    then show ?thesis using open_seg_ok [OF d(2), of sz create fresh] False by (simp add: is_sealed_def)
  qed
qed

definition sample_files :: files where
  "sample_files = Mapping.update 0 (fresh_image 2048 \<lparr>freshUs = 5, freshSalt0 = 6, freshSalt1 = 7\<rparr>) Mapping.empty"

definition sample_record :: "bytes \<Rightarrow> journal_record" where
  "sample_record p = \<lparr>RKind = KindMirror, RFlags = 0, RSeq = 1, RHLC = 9, ROrigin = 3, RSchemaSeq = 0, RPayload = p\<rparr>"

lemma sample_segment_ok:
  "seg_ok sample_files (fresh_segment 0 2048) []" "\<not> is_sealed []"
  "length p < 1000 \<Longrightarrow> rec_ok (sample_record p)" "rec_len (sample_record p) < length p + 56"
  using fresh_seg_ok [of 2048 0 "\<lparr>freshUs = 5, freshSalt0 = 6, freshSalt1 = 7\<rparr>" Mapping.empty]
    recordTotalLen_bounds(2) [of "length p"]
  by (simp_all add: sample_files_def minSegmentSize_def is_sealed_def rec_ok_def sample_record_def kinds rec_len_def)

theorem append_crash_atomic_witness:
  "openSegmentFile (crashed 7 (sample_record [1, 2]) sample_files (fresh_segment 0 2048)) 0 0 True \<lparr>freshUs = 0, freshSalt0 = 0, freshSalt1 = 0\<rparr> =
    Inr (crashed 7 (sample_record [1, 2]) sample_files (fresh_segment 0 2048), fresh_segment 0 2048, 0, False)"
proof -
  have "segHead (fresh_segment 0 2048) + rec_len (sample_record [1, 2]) \<le> unat (segSize (fresh_segment 0 2048))"
    using sample_segment_ok(4) [of "[1, 2]"] by simp
  then show ?thesis
    using append_crash_atomic [OF sample_segment_ok(1,2) sample_segment_ok(3), of "[1, 2]" 7 0 True]
    by (simp add: last_seq_def)
qed

lemma next_beyond:
  assumes "seg_file data rs (enc_rec r @ rest)" and "Mapping.lookup files (segNum s) = Some data"
    and "unat (segSize s) = length data" and "segHead s = 64 + recs_len rs" and "rec_ok r" and "RKind r \<noteq> KindSeal"
  shows "segment_next files s (segHead s) =
    Inr (s\<lparr>segHead := segHead s + rec_len r\<rparr>, r, segHead s + rec_len r)"
proof -
  obtain hdr where d: "data = (hdr @ concat (map enc_rec rs)) @ enc_rec r @ rest" and l: "length hdr = 64"
    using assms(1) by (auto simp: seg_file_def)
  have "parseRecordAt data (64 + recs_len rs) (length data) = Inr (r, 64 + recs_len rs + rec_len r)"
    using parse_enc [OF assms(5) d refl] l by simp
  moreover have "64 + recs_len rs < length data" "0 < rec_len r" using rec_len_ge [of r] by (simp_all add: d l)
  ultimately show ?thesis
    using assms(2-4,6) by (simp add: segment_next_def seg_data_def Let_def)
qed

lemma seg_file_unpublished:
  assumes f: "seg_file data rs (replicate z 0)" and fit: "rec_len p \<le> z"
  defines "d \<equiv> fold store (take 10 (append_stores (64 + recs_len rs) p)) data"
    and "t \<equiv> concat (rec_fields p) @ replicate (z - rec_len p) 0"
  shows "seg_file d rs t" and "quiet t" and "length d = length data"
proof -
  obtain hdr h where h: "data = hdr @ concat (map enc_rec rs) @ replicate z 0" "length hdr = 64"
    "decodeFileHeader hdr = Inr h" "unat (SegmentSize h) = length data"
    using f by (auto simp: seg_file_def)
  have "take 10 (append_stores (64 + recs_len rs) p) = chain (64 + recs_len rs) (rec_fields p)"
    by (simp add: append_stores_chain length_rec_fields)
  then have d: "d = (hdr @ concat (map enc_rec rs)) @ t"
    using fold_chain [of "rec_fields p" "replicate z 0" "hdr @ concat (map enc_rec rs)"] fit h
    by (simp add: d_def t_def)
  then show "length d = length data" using h(1) fit by (simp add: t_def)
  with d show "seg_file d rs t" using f h by (auto simp: seg_file_def)
  show "quiet t" by (simp add: t_def quiet_def rec_fields_def put_le_def put_be_def numeral_eq_Suc)
qed

lemma planted_image:
  assumes "RPayload p = replicate (rec_len q - 40) 0 @ enc_rec r"
  obtains rest where "drop (rec_len q) (concat (rec_fields p) @ t) = enc_rec r @ rest" and "rec_len q \<le> rec_len p"
proof -
  have ge: "40 \<le> rec_len q" using rec_len_ge [of q] by simp
  have "concat (rec_fields p) @ t = (rec_header 0 p @ replicate (rec_len q - 40) 0) @ enc_rec r @
      le32 (recordCRC (rec_header 0 p) (RPayload p)) @ replicate (rec_len p - (44 + length (RPayload p))) 0 @ t"
    by (simp add: rec_fields_def rec_header_def assms)
  then have "drop (rec_len q) (concat (rec_fields p) @ t) = enc_rec r @
      le32 (recordCRC (rec_header 0 p) (RPayload p)) @ replicate (rec_len p - (44 + length (RPayload p))) 0 @ t"
    using ge by simp
  moreover have "rec_len q \<le> rec_len p" using rec_len_ge [of p] assms ge by simp
  ultimately show ?thesis by (rule that)
qed

text \<open>
  C9: what a crashed append leaves behind is not cleared. Suppose the writer dies before the kind
  word of a record \<open>p\<close> is stored, and the payload of \<open>p\<close> contains, at the right place, the image of some
  record \<open>r\<close>. Opening the file reports the log without \<open>p\<close>, and keeps the bytes; the next append, of a
  shorter record \<open>q\<close>, ends exactly where that image starts; and the reader then returns \<open>r\<close>, a record
  that no append wrote.
\<close>

theorem crashed_append_forges_record:
  assumes "seg_ok files s rs" and "\<not> is_sealed rs" and "rec_ok q" and "RKind q \<noteq> KindSeal"
    and "rec_ok r" and "RKind r \<noteq> KindSeal"
    and payload: "RPayload p = replicate (rec_len q - 40) 0 @ enc_rec r" and "segHead s + rec_len p \<le> unat (segSize s)"
  defines "after \<equiv> crashed 10 p files s"
  shows "openSegmentFile after (segNum s) sz create fresh = Inr (after, s, last_seq 0 rs, False) \<and>
    (\<exists>files' s'. segment_append after s q = Inr (files', s', segHead s) \<and>
       segment_next files' s' (segHead s') = Inr (s'\<lparr>segHead := segHead s' + rec_len r\<rparr>, r, segHead s' + rec_len r))"
proof -
  obtain data z where o: "Mapping.lookup files (segNum s) = Some data" "seg_file data rs (replicate z 0)"
    "unat (segSize s) = length data" "segHead s = 64 + recs_len rs" "segSealed s = is_sealed rs"
    "seg_data files s = data"
    using assms(1) by (rule seg_okE)
  have fit: "rec_len p \<le> z" using assms(8) o(3,4) seg_file_len [OF o(2)] by simp
  let ?t = "concat (rec_fields p) @ replicate (z - rec_len p) 0"
  let ?d = "fold store (take 10 (append_stores (segHead s) p)) data"
  have f1: "seg_file ?d rs ?t" "quiet ?t" "length ?d = length data"
    using seg_file_unpublished [OF o(2) fit] o(4) by simp_all
  have look: "Mapping.lookup after (segNum s) = Some ?d" by (simp add: after_def crashed_def o(6) lookup_update)
  have "word_of_nat (length data) = segSize s" by (simp add: o(3) [symmetric])
  then have A: "openSegmentFile after (segNum s) sz create fresh = Inr (after, s, last_seq 0 rs, False)"
    using open_file [OF look f1(1,2), of sz create fresh] f1(3) o(4,5) assms(2) by (cases s) simp
  obtain rest where rest: "drop (rec_len q) ?t = enc_rec r @ rest" and "rec_len q \<le> rec_len p"
    using planted_image [OF payload] by blast
  then have fitq: "rec_len q \<le> length ?t" by simp
  let ?d2 = "fold store (append_stores (segHead s) q) ?d"
  let ?s2 = "s\<lparr>segHead := segHead s + rec_len q, segSealed := RKind q = KindSeal\<rparr>"
  let ?f2 = "Mapping.update (segNum s) ?d2 after"
  have f2: "seg_file ?d2 (rs @ [q]) (enc_rec r @ rest)" "length ?d2 = length ?d"
    using seg_file_append [OF f1(1) assms(2,3) fitq] o(4) rest by simp_all
  have "segHead s + rec_len q \<le> unat (segSize s)" using fitq seg_file_len [OF f1(1)] o(3,4) f1(3) by simp
  then have B: "segment_append after s q = Inr (?f2, ?s2, segHead s)"
    using o(5) assms(2) look by (simp add: segment_append_def Let_def seg_data_def)
  have "segment_next ?f2 ?s2 (segHead ?s2) = Inr (?s2\<lparr>segHead := segHead ?s2 + rec_len r\<rparr>, r, segHead ?s2 + rec_len r)"
    using f2 f1(3) o(3,4) assms(5,6) by (intro next_beyond [of ?d2 "rs @ [q]" r rest]) (simp_all add: lookup_update)
  with A B show ?thesis by blast
qed

theorem crashed_append_forges_record_witness:
  "let r = sample_record [8]; q = sample_record []; p = sample_record (replicate 8 0 @ enc_rec r);
       after = crashed 10 p sample_files (fresh_segment 0 2048)
   in \<exists>files' s' s''. segment_append after (fresh_segment 0 2048) q = Inr (files', s', 64) \<and>
        segment_next files' s' (segHead s') = Inr (s'', r, segHead s' + rec_len r)"
proof -
  let ?r = "sample_record [8]" and ?q = "sample_record []"
  let ?p = "sample_record (replicate 8 0 @ enc_rec ?r)"
  have q: "rec_len ?q = 48" and r: "rec_len ?r = 56" and k: "RKind (sample_record b) \<noteq> KindSeal" for b
    by (simp_all add: rec_len_def sample_record_def recordTotalLen_def kinds)
  then have "RPayload ?p = replicate (rec_len ?q - 40) 0 @ enc_rec ?r" by (simp add: sample_record_def)
  moreover have "segHead (fresh_segment 0 2048) + rec_len ?p \<le> unat (segSize (fresh_segment 0 2048))"
    using sample_segment_ok(4) [of "replicate 8 0 @ enc_rec ?r"] r by simp
  ultimately show ?thesis
    using crashed_append_forges_record [OF sample_segment_ok(1,2) sample_segment_ok(3) k sample_segment_ok(3) k,
        of "[]" "[8]" ?p 0 True "\<lparr>freshUs = 0, freshSalt0 = 0, freshSalt1 = 0\<rparr>"]
    unfolding Let_def by auto
qed

end
