(* ===== verification/Journal.thy ===== *)
theory Journal
  imports Journal_Segment
begin

text \<open>
  \<open>internal/journal/journal.go\<close>: a journal is a directory of segments with one writer. A \<open>journal\<close>
  record is one process's handle: the segments it has mapped, oldest first, the number of the active
  one, the next sequence number, and the shared directory itself. An offset packs the segment number
  and the byte offset. Operations that fail return the error; what a failed rotation leaves in
  memory is not represented. The wake-up hooks, the locks and the flush to disk are left out. The
  loops of Append, Next and Refresh go from segment to segment by number, which wraps at \<open>2\<^sup>3\<^sup>2\<close>: they
  are partial functions, and \<open>None\<close> means that the loop does not end.
\<close>

record journal =
  jSegmentSize :: u32
  jFiles :: files
  jSegments :: "segment list"
  jActive :: "u32 option"
  jNextSeq :: u64

section \<open>Offsets and segments\<close>

definition makeOffset :: "u32 \<Rightarrow> nat \<Rightarrow> u64" where
  "makeOffset seg byteOff = push_bit 32 (ucast seg) OR (word_of_nat byteOff AND 0xFFFFFFFF)"

definition Offset_seg :: "u64 \<Rightarrow> u32" where
  "Offset_seg off = ucast (drop_bit 32 off)"

definition Offset_byteOff :: "u64 \<Rightarrow> nat" where
  "Offset_byteOff off = unat (off AND 0xFFFFFFFF)"

definition SegmentStart :: "u32 \<Rightarrow> u64" where
  "SegmentStart seg = makeOffset seg 0"

definition findSegment :: "journal \<Rightarrow> u32 \<Rightarrow> segment option" where
  "findSegment j num = List.find (\<lambda>s. segNum s = num) (jSegments j)"

definition put_segment :: "segment \<Rightarrow> journal \<Rightarrow> journal" where
  "put_segment s j = j\<lparr>jSegments := map (\<lambda>t. if segNum t = segNum s then s else t) (jSegments j)\<rparr>"

definition activeSegment :: "journal \<Rightarrow> segment result" where
  "activeSegment j =
     (case jActive j of None \<Rightarrow> Inl ErrJournalClosed
      | Some n \<Rightarrow> (case findSegment j n of None \<Rightarrow> Inl PanicIndex | Some s \<Rightarrow> Inr s))"

definition Head :: "journal \<Rightarrow> u64" where
  "Head j = (case activeSegment j of Inl _ \<Rightarrow> 0 | Inr s \<Rightarrow> makeOffset (segNum s) (segHead s))"

definition Segments :: "journal \<Rightarrow> u32 list" where
  "Segments j = map segNum (jSegments j)"

section \<open>Opening\<close>

definition listSegmentNumbers :: "files \<Rightarrow> u32 list" where
  "listSegmentNumbers files = Mapping.ordered_keys files"

definition open_step :: "(u32 \<Rightarrow> fresh_header) \<Rightarrow> u32 \<Rightarrow> u32 \<Rightarrow> files \<times> segment list \<times> u64 \<Rightarrow> (files \<times> segment list \<times> u64) result" where
  "open_step fresh segmentSize n = (\<lambda>(files, segs, maxSeq).
     bindE (openSegment files n segmentSize (fresh n)) (\<lambda>(files, s, lastSeq, _).
       Inr (files, segs @ [s], if lastSeq > maxSeq then lastSeq else maxSeq)))"

definition Open :: "(u32 \<Rightarrow> fresh_header) \<Rightarrow> files \<Rightarrow> u32 \<Rightarrow> journal result" where
  "Open fresh files segmentSize =
     (let nums = listSegmentNumbers files in
      if nums = [] then
        if segmentSize = 0 then Inl ErrNoSegments
        else bindE (openSegment files 0 segmentSize (fresh 0)) (\<lambda>(files, s, _, _).
          Inr \<lparr>jSegmentSize = segmentSize, jFiles = files, jSegments = [s], jActive = Some (segNum s), jNextSeq = 1\<rparr>)
      else
        bindE (foldE (open_step fresh segmentSize) nums (files, [], 0)) (\<lambda>(files, segs, maxSeq).
          let lst = last segs;
              segmentSize = (if segmentSize = 0 then segSize lst else segmentSize) in
          bindE (if segSealed lst
                 then bindE (openSegment files (segNum lst + 1) segmentSize (fresh (segNum lst + 1)))
                        (\<lambda>(files, s, _, _). Inr (files, segs @ [s], s))
                 else Inr (files, segs, lst))
            (\<lambda>(files, segs, lst).
               Inr \<lparr>jSegmentSize = segmentSize, jFiles = files, jSegments = segs, jActive = Some (segNum lst),
                    jNextSeq = maxSeq + 1\<rparr>)))"

definition Journal_Close :: "journal \<Rightarrow> journal" where
  "Journal_Close j = j\<lparr>jSegments := [], jActive := None\<rparr>"

definition HasDrainableSegment :: "files \<Rightarrow> bool" where
  "HasDrainableSegment files =
     list_ex (\<lambda>n. case Mapping.lookup files n of Some d \<Rightarrow> d \<noteq> [] | None \<Rightarrow> False) (listSegmentNumbers files)"

definition openExistingSegmentLocked :: "journal \<Rightarrow> u32 \<Rightarrow> (journal \<times> segment) result" where
  "openExistingSegmentLocked j num =
     (case findSegment j num of Some s \<Rightarrow> Inr (j, s)
      | None \<Rightarrow>
        bindE (openExistingSegment (jFiles j) num \<lparr>freshUs = 0, freshSalt0 = 0, freshSalt1 = 0\<rparr>) (\<lambda>(files, s, lastSeq, _).
          let i = sort_Search (length (jSegments j)) (\<lambda>i. segNum (jSegments j ! i) \<ge> num);
              act = (case jActive j of None \<Rightarrow> Some (segNum s)
                     | Some cur \<Rightarrow> if segNum s > cur then Some (segNum s) else Some cur)
          in Inr (j\<lparr>jFiles := files, jSegments := take i (jSegments j) @ [s] @ drop i (jSegments j), jActive := act,
                    jNextSeq := (if lastSeq < jNextSeq j then jNextSeq j else lastSeq + 1)\<rparr>, s)))"

section \<open>Appending\<close>

definition requiredSegmentSize :: "nat \<Rightarrow> u32 result" where
  "requiredSegmentSize recordLen =
     (let need = fileHeaderSize + recordLen + recordTotalLen 0 in
      if need > 0xFFFFFFFF then Inl ErrPayloadTooLarge else Inr (word_of_nat need))"

definition seal_record :: journal_record where
  "seal_record = \<lparr>RKind = KindSeal, RFlags = 0, RSeq = 0, RHLC = 0, ROrigin = 0, RSchemaSeq = 0, RPayload = []\<rparr>"

definition rotate :: "(u32 \<Rightarrow> fresh_header) \<Rightarrow> journal \<Rightarrow> segment \<Rightarrow> u32 \<Rightarrow> journal result" where
  "rotate fresh j expected minSize =
     (if jActive j \<noteq> Some (segNum expected) then Inr j
      else
        let newSize = (if jSegmentSize j < minSize then minSize else jSegmentSize j);
            newNum = segNum expected + 1 in
        bindE (openSegment (jFiles j) newNum newSize (fresh newNum)) (\<lambda>(files, s, _, _).
          if segSize s < newSize then Inl ErrSegmentSize
          else
            let j = j\<lparr>jFiles := files\<rparr>;
                j = (case findSegment j newNum of Some _ \<Rightarrow> j | None \<Rightarrow> j\<lparr>jSegments := jSegments j @ [s]\<rparr>) in
            bindE (if segSealed expected then Inr j
                   else if segHead expected + recordTotalLen 0 > unat (segSize expected) then Inl ErrSealRoom
                   else bindE (segment_append (jFiles j) expected seal_record) (\<lambda>(files, e, _).
                          Inr (put_segment e (j\<lparr>jFiles := files\<rparr>))))
              (\<lambda>j. Inr (j\<lparr>jActive := Some newNum\<rparr>))))"

partial_function (option) append_loop ::
  "(u32 \<Rightarrow> fresh_header) \<Rightarrow> journal \<Rightarrow> journal_record \<Rightarrow> u32 \<Rightarrow> ((journal \<times> u64 \<times> u64) result) option" where
  "append_loop fresh j r need =
     (case activeSegment j of
        Inl e \<Rightarrow> Some (Inl e)
      | Inr s \<Rightarrow>
          if segSealed s \<or> segSize s < need \<or> segHead s + rec_len r + recordTotalLen 0 > unat (segSize s)
          then (case rotate fresh j s need of Inl e \<Rightarrow> Some (Inl e) | Inr j \<Rightarrow> append_loop fresh j r need)
          else
            (case segment_append (jFiles j) s (r\<lparr>RSeq := jNextSeq j\<rparr>) of
               Inr (files, s', off) \<Rightarrow>
                 Some (Inr (put_segment s' (j\<lparr>jFiles := files, jNextSeq := jNextSeq j + 1\<rparr>),
                            makeOffset (segNum s) off, jNextSeq j))
             | Inl e \<Rightarrow>
                 if e \<noteq> ErrSegmentFull then Some (Inl e)
                 else (case rotate fresh j s need of Inl e \<Rightarrow> Some (Inl e) | Inr j \<Rightarrow> append_loop fresh j r need)))"

definition AppendWithSchemaSeq ::
  "(u32 \<Rightarrow> fresh_header) \<Rightarrow> journal \<Rightarrow> kind \<Rightarrow> u64 \<Rightarrow> u64 \<Rightarrow> u32 \<Rightarrow> bytes \<Rightarrow> ((journal \<times> u64 \<times> u64) result) option" where
  "AppendWithSchemaSeq fresh j kind hlc origin schemaSeq payload =
     (if kind = KindUnknown \<or> kind = KindSeal then Some (Inl ErrKindRequired)
      else if length payload > 0xFFFFFFFF then Some (Inl ErrPayloadTooLarge)
      else
        (case requiredSegmentSize (recordTotalLen (length payload)) of
           Inl e \<Rightarrow> Some (Inl e)
         | Inr need \<Rightarrow>
             append_loop fresh j \<lparr>RKind = kind, RFlags = 0, RSeq = 0, RHLC = hlc, ROrigin = origin,
               RSchemaSeq = schemaSeq, RPayload = payload\<rparr> need))"

definition Append :: "(u32 \<Rightarrow> fresh_header) \<Rightarrow> journal \<Rightarrow> kind \<Rightarrow> u64 \<Rightarrow> u64 \<Rightarrow> bytes \<Rightarrow> ((journal \<times> u64 \<times> u64) result) option" where
  "Append fresh j kind hlc origin payload = AppendWithSchemaSeq fresh j kind hlc origin 0 payload"

definition MarkAborted :: "journal \<Rightarrow> u64 \<Rightarrow> journal result" where
  "MarkAborted j off =
     (case findSegment j (Offset_seg off) of
        None \<Rightarrow> Inl (ErrSegmentNotFound (Offset_seg off))
      | Some s \<Rightarrow> bindE (segment_markAborted (jFiles j) s (Offset_byteOff off)) (\<lambda>files. Inr (j\<lparr>jFiles := files\<rparr>)))"

lemma closed_journal:
  assumes "\<not> (kind = KindUnknown \<or> kind = KindSeal)" and "length payload + 200 \<le> 0xFFFFFFFF"
  shows "Head (Journal_Close j) = 0"
    and "Append fresh (Journal_Close j) kind hlc origin payload = Some (Inl ErrJournalClosed)"
proof -
  have act: "activeSegment (Journal_Close j) = Inl ErrJournalClosed" by (simp add: activeSegment_def Journal_Close_def)
  then show "Head (Journal_Close j) = 0" by (simp add: Head_def)
  have "\<exists>need. requiredSegmentSize (recordTotalLen (length payload)) = Inr need"
    using assms(2) by (simp add: requiredSegmentSize_def recordTotalLen_def)
  then show "Append fresh (Journal_Close j) kind hlc origin payload = Some (Inl ErrJournalClosed)"
    using assms act by (auto simp: Append_def AppendWithSchemaSeq_def append_loop.simps)
qed

section \<open>Retention\<close>

definition drop_below :: "u32 \<Rightarrow> journal \<Rightarrow> journal" where
  "drop_below cutoff j =
     (let gone = filter (\<lambda>s. segNum s < cutoff) (jSegments j) in
      j\<lparr>jSegments := filter (\<lambda>s. \<not> segNum s < cutoff) (jSegments j),
        jFiles := fold (\<lambda>s. Mapping.delete (segNum s)) gone (jFiles j)\<rparr>)"

definition RetainAfter :: "journal \<Rightarrow> u64 \<Rightarrow> journal" where
  "RetainAfter j off = drop_below (Offset_seg off) j"

fun aged_cutoff :: "(u32 \<Rightarrow> bool) \<Rightarrow> u32 \<Rightarrow> segment list \<Rightarrow> u32" where
  "aged_cutoff young cutoff [] = cutoff"
| "aged_cutoff young cutoff (s # segs) =
     (if segNum s \<ge> cutoff then cutoff
      else if young (segNum s) then segNum s
      else aged_cutoff young cutoff segs)"

definition RetainAfterAged :: "journal \<Rightarrow> u64 \<Rightarrow> (u32 \<Rightarrow> bool) option \<Rightarrow> journal" where
  "RetainAfterAged j off young =
     (case young of None \<Rightarrow> drop_below (Offset_seg off) j
      | Some y \<Rightarrow> drop_below (aged_cutoff y (Offset_seg off) (jSegments j)) j)"

section \<open>Reading\<close>

definition Iterate :: "journal \<Rightarrow> u64 \<Rightarrow> u64" where
  "Iterate j off =
     (if off = 0 then (case jSegments j of s # _ \<Rightarrow> makeOffset (segNum s) fileHeaderSize | [] \<Rightarrow> 0) else off)"

definition successor :: "journal \<Rightarrow> u32 \<Rightarrow> u32 option" where
  "successor j num =
     foldl (\<lambda>next s. if segNum s > num then (case next of None \<Rightarrow> Some (segNum s)
              | Some m \<Rightarrow> if segNum s < m then Some (segNum s) else Some m) else next) None (jSegments j)"

partial_function (option) Iterator_Next :: "journal \<Rightarrow> u64 \<Rightarrow> (journal \<times> u64 \<times> (journal_record \<times> u64) result) option" where
  "Iterator_Next j off =
     (let num = Offset_seg off in
      case findSegment j num of
        None \<Rightarrow>
          (case jSegments j of
             [] \<Rightarrow> Some (j, off, Inl ErrEOF)
           | oldest # _ \<Rightarrow>
               if segNum oldest > num then Iterator_Next j (makeOffset (segNum oldest) fileHeaderSize)
               else Some (j, off, Inl (ErrSegmentNotFound num)))
      | Some s \<Rightarrow>
          (case segment_next (jFiles j) s (Offset_byteOff off) of
             Inr (s', rec, stop) \<Rightarrow>
               if RKind rec = KindSeal then
                 (case openExistingSegmentLocked (put_segment s' j) (num + 1) of
                    Inl e \<Rightarrow> Some (put_segment s' j, off, Inl e)
                  | Inr (j', _) \<Rightarrow> Iterator_Next j' (makeOffset (num + 1) fileHeaderSize))
               else Some (put_segment s' j, makeOffset num stop, Inr (rec, off))
           | Inl e \<Rightarrow>
               if e = ErrEOF then
                 (case successor j num of
                    Some m \<Rightarrow> Iterator_Next j (makeOffset m fileHeaderSize)
                  | None \<Rightarrow> Some (j, off, Inl ErrEOF))
               else Some (j, off, Inl e)))"

function align_loop :: "bytes \<Rightarrow> nat \<Rightarrow> nat \<Rightarrow> nat \<Rightarrow> nat" where
  "align_loop data limit target boundary =
     (if boundary < target
      then (case parseRecordAt data boundary limit of
              Inl _ \<Rightarrow> boundary
            | Inr (_, stop) \<Rightarrow> if stop > target then boundary else align_loop data limit target stop)
      else boundary)"
  by pat_completeness auto
termination
  by (relation "measure (\<lambda>(data, limit, target, boundary). target - boundary)") (auto dest!: parse_end)

declare align_loop.simps [simp del]

definition AlignResume :: "journal \<Rightarrow> u64 \<Rightarrow> u64" where
  "AlignResume j off =
     (case jSegments j of [] \<Rightarrow> 0
      | oldest # _ \<Rightarrow>
          let oldestStart = makeOffset (segNum oldest) fileHeaderSize in
          if off = 0 then oldestStart
          else
            (case findSegment j (Offset_seg off) of
               None \<Rightarrow> oldestStart
             | Some s \<Rightarrow>
                 let target = Offset_byteOff off in
                 if target < fileHeaderSize then makeOffset (segNum s) fileHeaderSize
                 else makeOffset (segNum s)
                        (align_loop (seg_data (jFiles j) s) (unat (segSize s)) target fileHeaderSize)))"

section \<open>Refreshing the cached heads\<close>

function refresh_scan :: "bytes \<Rightarrow> nat \<Rightarrow> nat \<Rightarrow> nat \<Rightarrow> nat \<times> bool \<times> nat" where
  "refresh_scan data limit off added =
     (if off < limit
      then (case parseRecordAt data off limit of
              Inl _ \<Rightarrow> (off, False, added)
            | Inr (rec, stop) \<Rightarrow>
                if RKind rec = KindSeal then (stop, True, added + 1) else refresh_scan data limit stop (added + 1))
      else (off, False, added))"
  by pat_completeness auto
termination
  by (relation "measure (\<lambda>(data, limit, off, added). limit - off)") (auto dest!: parse_end)

declare refresh_scan.simps [simp del]

partial_function (option) refresh_loop :: "nat \<Rightarrow> journal \<Rightarrow> nat \<Rightarrow> (journal \<times> nat) option" where
  "refresh_loop i j added =
     (if i < length (jSegments j)
      then
        let s = jSegments j ! i;
            (off, sealed, added) =
              (if segSealed s then (segHead s, False, added)
               else refresh_scan (seg_data (jFiles j) s) (unat (segSize s)) (segHead s) added);
            s = s\<lparr>segSealed := segSealed s \<or> sealed, segHead := max (segHead s) off\<rparr>;
            j = j\<lparr>jSegments := (jSegments j)[i := s]\<rparr>;
            j = (if sealed \<and> Suc i = length (jSegments j)
                 then (case openExistingSegmentLocked j (segNum s + 1) of Inl _ \<Rightarrow> j | Inr (j, _) \<Rightarrow> j)
                 else j)
        in refresh_loop (Suc i) j added
      else Some (j, added))"

definition Refresh :: "journal \<Rightarrow> (journal \<times> nat) option" where
  "Refresh j =
     (case refresh_loop 0 j 0 of None \<Rightarrow> None
      | Some (j, added) \<Rightarrow>
          Some (if jSegments j \<noteq> [] then (j\<lparr>jActive := Some (segNum (last (jSegments j)))\<rparr>, added) else (j, added)))"

section \<open>The log a journal holds\<close>

text \<open>
  \<open>segs_ok j logs\<close>: the handle's segments hold the logs, their numbers are consecutive, and a segment
  that is not sealed has room for its seal. A reader goes on to the next segment only over a seal, so
  what it can reach is the sealed prefix and the first segment after it (\<open>readable\<close>).
\<close>

definition seg_roomy :: "segment \<Rightarrow> bool" where
  "seg_roomy s \<longleftrightarrow> segSealed s \<or> segHead s + 48 \<le> unat (segSize s)"

definition consecutive :: "segment list \<Rightarrow> bool" where
  "consecutive segs \<longleftrightarrow> (\<exists>b. b + length segs < 2 ^ 32 \<and> map segNum segs = map word_of_nat [b..<b + length segs])"

definition segs_ok :: "journal \<Rightarrow> journal_record list list \<Rightarrow> bool" where
  "segs_ok j logs \<longleftrightarrow> jSegments j \<noteq> [] \<and> list_all2 (seg_ok (jFiles j)) (jSegments j) logs \<and>
     list_all seg_roomy (jSegments j) \<and> consecutive (jSegments j)"

definition visible :: "journal_record list \<Rightarrow> journal_record list" where
  "visible rs = filter (\<lambda>r. RKind r \<noteq> KindSeal) rs"

fun readable :: "journal_record list list \<Rightarrow> journal_record list" where
  "readable [] = []"
| "readable (rs # logs) = visible rs @ (if is_sealed rs then readable logs else [])"

text \<open>The records an iterator returns one after the other, until it reports an error or its end.\<close>

partial_function (option) collect :: "journal \<Rightarrow> u64 \<Rightarrow> (journal \<times> error \<times> journal_record list) option" where
  "collect j off =
     (case Iterator_Next j off of None \<Rightarrow> None
      | Some (j, off, res) \<Rightarrow>
          (case res of
             Inl e \<Rightarrow> Some (j, e, [])
           | Inr (r, _) \<Rightarrow> Option.bind (collect j off) (\<lambda>(j, e, rs). Some (j, e, r # rs))))"

lemma Offset_makeOffset [simp]:
  "Offset_seg (makeOffset n b) = n" "b < 2 ^ 32 \<Longrightarrow> Offset_byteOff (makeOffset n b) = b"
proof -
  have m: "(0xFFFFFFFF :: u64) = mask 32" by (simp add: mask_eq_exp_minus_1)
  show "Offset_seg (makeOffset n b) = n"
    unfolding Offset_seg_def makeOffset_def m by (rule bit_word_eqI) (auto simp: bit_simps)
  assume b: "b < 2 ^ 32"
  have "(push_bit 32 (ucast n) OR (word_of_nat b AND mask 32)) AND mask 32 = take_bit 32 (word_of_nat b :: u64)"
    by (rule bit_word_eqI) (auto simp: bit_simps)
  then show "Offset_byteOff (makeOffset n b) = b"
    using b by (simp add: Offset_byteOff_def makeOffset_def m unsigned_take_bit_eq unat_of_nat take_bit_nat_eq_self)
qed

lemma unat_u32_of_nat_eq: "b < 2 ^ 32 \<Longrightarrow> unat (word_of_nat b :: u32) = b"
  by (simp add: unat_of_nat)

lemma consecutive_distinct:
  assumes "consecutive segs"
  shows "distinct (map segNum segs)"
    and "Suc i < length segs \<Longrightarrow> segNum (segs ! Suc i) = segNum (segs ! i) + 1"
proof -
  obtain b where b: "b + length segs < 2 ^ 32" and m: "map segNum segs = map word_of_nat [b..<b + length segs]"
    using assms by (auto simp: consecutive_def)
  have "inj_on (word_of_nat :: nat \<Rightarrow> u32) {b..<b + length segs}"
  proof (rule inj_onI)
    fix x y assume xy: "x \<in> {b..<b + length segs}" "y \<in> {b..<b + length segs}" "(word_of_nat x :: u32) = word_of_nat y"
    have "x < 2 ^ 32" "y < 2 ^ 32" using xy(1,2) b by auto
    then show "x = y" using arg_cong [OF xy(3), of unat] by (simp only: unat_u32_of_nat_eq)
  qed
  then show "distinct (map segNum segs)" unfolding m by (simp add: distinct_map)
  have nth: "segNum (segs ! i) = word_of_nat (b + i)" if "i < length segs" for i
    using arg_cong [OF m, of "\<lambda>xs. xs ! i"] that by simp
  show "segNum (segs ! Suc i) = segNum (segs ! i) + 1" if "Suc i < length segs"
    using nth [of i] nth [of "Suc i"] that by simp
qed

lemma find_distinct:
  "distinct (map segNum segs) \<Longrightarrow> s \<in> set segs \<Longrightarrow> List.find (\<lambda>t. segNum t = segNum s) segs = Some s"
  by (induction segs) (auto simp: image_iff)

lemma map_same_segment:
  "distinct (map segNum segs) \<Longrightarrow> s \<in> set segs \<Longrightarrow> map (\<lambda>t. if segNum t = segNum s then s else t) segs = segs"
  by (rule map_idI) (auto simp: distinct_map inj_on_def)

lemma segs_okD:
  assumes "segs_ok j logs" and "i < length logs"
  shows "length (jSegments j) = length logs" and "findSegment j (segNum (jSegments j ! i)) = Some (jSegments j ! i)"
    and "put_segment (jSegments j ! i) j = j" and "seg_ok (jFiles j) (jSegments j ! i) (logs ! i)"
    and "is_sealed (logs ! i) \<or> 64 + recs_len (logs ! i) + 48 \<le> unat (segSize (jSegments j ! i))"
    and "Suc i < length logs \<Longrightarrow> segNum (jSegments j ! Suc i) = segNum (jSegments j ! i) + 1"
proof -
  show l: "length (jSegments j) = length logs" using assms(1) by (auto simp: segs_ok_def list_all2_lengthD)
  then have mem: "jSegments j ! i \<in> set (jSegments j)" using assms(2) by simp
  have d: "distinct (map segNum (jSegments j))" using assms(1) by (simp add: segs_ok_def consecutive_distinct)
  show "findSegment j (segNum (jSegments j ! i)) = Some (jSegments j ! i)"
    using find_distinct [OF d mem] by (simp add: findSegment_def)
  show "put_segment (jSegments j ! i) j = j"
    using map_same_segment [OF d mem] by (simp add: put_segment_def)
  show s: "seg_ok (jFiles j) (jSegments j ! i) (logs ! i)"
    using assms l by (auto simp: segs_ok_def list_all2_nthD)
  have "seg_roomy (jSegments j ! i)" using assms(1) mem by (auto simp: segs_ok_def list_all_iff)
  then show "is_sealed (logs ! i) \<or> 64 + recs_len (logs ! i) + 48 \<le> unat (segSize (jSegments j ! i))"
    using s by (simp add: seg_roomy_def seg_ok_def)
  show "segNum (jSegments j ! Suc i) = segNum (jSegments j ! i) + 1" if "Suc i < length logs"
    using assms(1) that l by (intro consecutive_distinct) (simp_all add: segs_ok_def)
qed

definition log_pos :: "journal \<Rightarrow> journal_record list list \<Rightarrow> nat \<Rightarrow> nat \<Rightarrow> u64" where
  "log_pos j logs i k = makeOffset (segNum (jSegments j ! i)) (64 + recs_len (take k (logs ! i)))"

lemma log_pos_parts:
  assumes "segs_ok j logs" and "i < length logs"
  shows "Offset_seg (log_pos j logs i k) = segNum (jSegments j ! i)"
    and "Offset_byteOff (log_pos j logs i k) = 64 + recs_len (take k (logs ! i))"
proof -
  have "recs_len (take k (logs ! i)) \<le> recs_len (logs ! i)"
    by (metis append_take_drop_id le_add1 recs_len_simps(3))
  moreover obtain data n where "seg_file data (logs ! i) (replicate n 0)"
    using segs_okD(4) [OF assms] by (rule seg_okE)
  then have "64 + recs_len (logs ! i) < 2 ^ 32" using seg_file_len seg_file_small by fastforce
  ultimately show "Offset_byteOff (log_pos j logs i k) = 64 + recs_len (take k (logs ! i))"
    by (simp add: log_pos_def)
qed (simp add: log_pos_def)

lemma next_record:
  assumes "segs_ok j logs" and "i < length logs" and "k < length (logs ! i)" and "RKind (logs ! i ! k) \<noteq> KindSeal"
  shows "Iterator_Next j (log_pos j logs i k) =
    Some (j, log_pos j logs i (Suc k), Inr (logs ! i ! k, log_pos j logs i k))"
  using seg_next [OF segs_okD(4) [OF assms(1,2)] assms(3)] assms(4)
  by (subst Iterator_Next.simps) (simp add: log_pos_parts [OF assms(1,2)] segs_okD [OF assms(1,2)] Let_def
      log_pos_def [of j logs i "Suc k"])

lemma next_seal:
  assumes "segs_ok j logs" and "Suc i < length logs" and "k < length (logs ! i)" and "RKind (logs ! i ! k) = KindSeal"
  shows "Iterator_Next j (log_pos j logs i k) = Iterator_Next j (log_pos j logs (Suc i) 0)"
proof -
  have i: "i < length logs" using assms(2) by simp
  note n = segs_okD(6) [OF assms(1) i assms(2)]
  have "openExistingSegmentLocked j (segNum (jSegments j ! i) + 1) = Inr (j, jSegments j ! Suc i)"
    using segs_okD(2) [OF assms(1,2)] n by (simp add: openExistingSegmentLocked_def)
  then show ?thesis
    using seg_next [OF segs_okD(4) [OF assms(1) i] assms(3)] assms(4)
    by (subst Iterator_Next.simps) (simp add: log_pos_parts [OF assms(1) i] segs_okD(2,3) [OF assms(1) i] Let_def
        log_pos_def [of j logs "Suc i"] n)
qed

lemma next_end:
  assumes "segs_ok j logs" and "i < length logs" and "\<not> is_sealed (logs ! i)"
  shows "Iterator_Next j (log_pos j logs i (length (logs ! i))) =
    Some (j, log_pos j logs i (length (logs ! i)), Inl ErrPending)"
proof -
  obtain data n where o: "seg_file data (logs ! i) (replicate n 0)" "unat (segSize (jSegments j ! i)) = length data"
    "seg_data (jFiles j) (jSegments j ! i) = data"
    using segs_okD(4) [OF assms(1,2)] by (rule seg_okE)
  have "48 \<le> n" using segs_okD(5) [OF assms(1,2)] assms(3) o(2) seg_file_len [OF o(1)] by simp
  then have "segment_next (jFiles j) (jSegments j ! i) (64 + recs_len (logs ! i)) = Inl ErrPending"
    using parse_rest [OF o(1)] o(2,3) seg_file_len [OF o(1)] by (simp add: segment_next_def)
  then show ?thesis
    by (subst Iterator_Next.simps) (simp add: log_pos_parts [OF assms(1,2)] segs_okD(2) [OF assms(1,2)] Let_def)
qed

lemma collect_tail:
  assumes "segs_ok j logs" and "i < length logs" and "\<not> is_sealed (logs ! i)" and "k \<le> length (logs ! i)"
  shows "collect j (log_pos j logs i k) = Some (j, ErrPending, visible (drop k (logs ! i)))"
  using assms(4)
proof (induction rule: inc_induct)
  case base
  then show ?case using next_end [OF assms(1-3)] by (subst collect.simps) (simp add: visible_def)
next
  case (step k)
  have "log_ok (logs ! i)" using segs_okD(4) [OF assms(1,2)] by (auto simp: seg_ok_def seg_file_def)
  then have "RKind (logs ! i ! k) \<noteq> KindSeal" using take_sealed step.hyps(2) assms(3) by blast
  then show ?case
    using next_record [OF assms(1,2) step.hyps(2)] step by (subst collect.simps)
      (simp add: visible_def flip: Cons_nth_drop_Suc [OF step.hyps(2)])
qed

lemma collect_sealed:
  assumes "segs_ok j logs" and "Suc i < length logs" and "is_sealed (logs ! i)" and "k < length (logs ! i)"
  shows "collect j (log_pos j logs i k) =
    map_option (\<lambda>(j', e, rs). (j', e, visible (drop k (logs ! i)) @ rs)) (collect j (log_pos j logs (Suc i) 0))"
proof -
  have i: "i < length logs" using assms(2) by simp
  have ok: "log_ok (logs ! i)" using segs_okD(4) [OF assms(1) i] by (auto simp: seg_ok_def seg_file_def)
  have "k \<le> length (logs ! i) - 1" using assms(4) by simp
  then show ?thesis
  proof (induction rule: inc_induct)
    case base
    have k: "length (logs ! i) - 1 < length (logs ! i)" using assms(4) by simp
    then have "RKind (logs ! i ! (length (logs ! i) - 1)) = KindSeal" using take_sealed [OF ok k] assms(3) by simp
    then have "Iterator_Next j (log_pos j logs i (length (logs ! i) - 1)) = Iterator_Next j (log_pos j logs (Suc i) 0)"
      and "visible (drop (length (logs ! i) - 1) (logs ! i)) = []"
      using next_seal [OF assms(1,2) k] Cons_nth_drop_Suc [OF k, symmetric] by (simp_all add: visible_def)
    then show ?case by (simp add: collect.simps [of j "log_pos j logs i _"] collect.simps [of j "log_pos j logs (Suc i) 0"]
          option.map_ident_strong split: option.split prod.split)
  next
    case (step k)
    then have k: "k < length (logs ! i)" "Suc k \<noteq> length (logs ! i)" by auto
    then have "RKind (logs ! i ! k) \<noteq> KindSeal" using take_sealed [OF ok] by blast
    then show ?case
      using next_record [OF assms(1) i k(1)] step.IH
      by (subst collect.simps) (cases "collect j (log_pos j logs (Suc i) 0)",
          auto simp: visible_def Cons_nth_drop_Suc [OF k(1), symmetric])
  qed
qed

lemma collect_readable:
  assumes "segs_ok j logs" and "i \<le> m" and "m < length logs" and "\<not> is_sealed (logs ! m)"
  shows "collect j (log_pos j logs i 0) = Some (j, ErrPending, readable (drop i logs))"
  using assms(2)
proof (induction rule: inc_induct)
  case base
  then show ?case using collect_tail [OF assms(1,3,4), of 0] assms(3,4)
    by (simp flip: Cons_nth_drop_Suc [OF assms(3)])
next
  case (step i)
  have i: "i < length logs" "Suc i < length logs" using step.hyps assms(3) by auto
  show ?case
  proof (cases "is_sealed (logs ! i)")
    case True
    then have "0 < length (logs ! i)" by (auto simp: is_sealed_def)
    then show ?thesis using collect_sealed [OF assms(1) i(2) True] step.IH True
      by (simp flip: Cons_nth_drop_Suc [OF i(1)])
  next
    case False
    then show ?thesis using collect_tail [OF assms(1) i(1) False, of 0]
      by (simp flip: Cons_nth_drop_Suc [OF i(1)])
  qed
qed

lemma collect_all:
  assumes "segs_ok j logs" and "\<not> is_sealed (last logs)"
  shows "collect j (Iterate j 0) = Some (j, ErrPending, readable logs)"
proof -
  have ne: "jSegments j \<noteq> []" "logs \<noteq> []" using assms(1) by (auto simp: segs_ok_def)
  then have "Iterate j 0 = log_pos j logs 0 0"
    by (cases "jSegments j") (simp_all add: Iterate_def log_pos_def)
  then show ?thesis
    using collect_readable [OF assms(1), of 0 "length logs - 1"] assms(2) ne by (simp add: last_conv_nth)
qed

end
