(* ===== verification/Journal_Log.thy ===== *)
theory Journal_Log
  imports Journal
begin

text \<open>
  What the journal promises its clients: an append-only log. \<open>append_log\<close> is that contract, with the
  restart of the process as one of its operations; the journal of \<open>journal.go\<close> meets it while segment
  and sequence numbers last. The last part shows the one point of a rotation at which a crash breaks
  the promise to readers.
\<close>

section \<open>The contract\<close>

text \<open>\<open>rep j xs\<close>: the store \<open>j\<close> holds the records \<open>xs\<close>. An operation is an append or, as \<open>None\<close>, a restart.\<close>

fun log_run :: "('a \<Rightarrow> 'j \<Rightarrow> 'j option) \<Rightarrow> ('j \<Rightarrow> 'j option) \<Rightarrow> 'a option list \<Rightarrow> 'j \<Rightarrow> 'j option" where
  "log_run push reopen [] j = Some j"
| "log_run push reopen (Some a # ops) j = Option.bind (push a j) (log_run push reopen ops)"
| "log_run push reopen (None # ops) j = Option.bind (reopen j) (log_run push reopen ops)"

locale append_log =
  fixes rep :: "'j \<Rightarrow> 'r list \<Rightarrow> bool" and push :: "'a \<Rightarrow> 'j \<Rightarrow> 'j option" and reopen :: "'j \<Rightarrow> 'j option"
    and scan :: "'j \<Rightarrow> 'r list option" and records :: "'a \<Rightarrow> 'r \<Rightarrow> bool" and older :: "'r \<Rightarrow> 'r \<Rightarrow> bool"
    and fits :: "'a \<Rightarrow> bool" and room :: "'j \<Rightarrow> nat"
  assumes push: "rep j xs \<Longrightarrow> fits a \<Longrightarrow> 0 < room j \<Longrightarrow> \<exists>j' r. push a j = Some j' \<and> rep j' (xs @ [r]) \<and>
      records a r \<and> (\<forall>x \<in> set xs. older x r) \<and> room j \<le> Suc (room j')"
    and reopen: "rep j xs \<Longrightarrow> \<exists>j'. reopen j = Some j' \<and> rep j' xs \<and> room j' = room j"
    and scan: "rep j xs \<Longrightarrow> scan j = Some xs"
begin

lemma run_log:
  assumes "rep j xs" and "sorted_wrt older xs" and "\<forall>a. Some a \<in> set ops \<longrightarrow> fits a" and "length ops \<le> room j"
  shows "\<exists>j' rs. log_run push reopen ops j = Some j' \<and> rep j' (xs @ rs) \<and> scan j' = Some (xs @ rs) \<and>
    list_all2 records (map the (filter (\<lambda>x. x \<noteq> None) ops)) rs \<and> sorted_wrt older (xs @ rs)"
  using assms
proof (induction ops arbitrary: j xs)
  case Nil
  then show ?case by (intro exI [of _ j] exI [of _ "[]"]) (simp add: scan)
next
  case (Cons op ops)
  show ?case
  proof (cases op)
    case None
    obtain j' where j': "reopen j = Some j'" "rep j' xs" "room j' = room j" using reopen [OF Cons.prems(1)] by blast
    then show ?thesis using Cons.IH [OF j'(2) Cons.prems(2)] Cons.prems(3,4) None by simp
  next
    case (Some a)
    have f: "fits a" "0 < room j" using Cons.prems(3,4) Some by auto
    obtain j' r where j': "push a j = Some j'" "rep j' (xs @ [r])" "records a r" "\<forall>x \<in> set xs. older x r"
      "room j \<le> Suc (room j')"
      using push [OF Cons.prems(1) f] by blast
    have "sorted_wrt older (xs @ [r])" using Cons.prems(2) j'(4) by (simp add: sorted_wrt_append)
    moreover have "\<forall>a. Some a \<in> set ops \<longrightarrow> fits a" "length ops \<le> room j'" using Cons.prems(3,4) j'(5) by auto
    ultimately obtain j'' rs where "log_run push reopen ops j' = Some j''" "rep j'' ((xs @ [r]) @ rs)"
      "scan j'' = Some ((xs @ [r]) @ rs)" "list_all2 records (map the (filter (\<lambda>x. x \<noteq> None) ops)) rs"
      "sorted_wrt older ((xs @ [r]) @ rs)"
      using Cons.IH [OF j'(2)] by blast
    then show ?thesis using j'(1,3) Some by (intro exI [of _ j''] exI [of _ "r # rs"]) simp
  qed
qed

end

section \<open>A journal with its active segment\<close>

definition jbase :: "journal \<Rightarrow> journal_record list list \<Rightarrow> bool" where
  "jbase j logs \<longleftrightarrow> segs_ok j logs \<and> \<not> is_sealed (last logs) \<and> jActive j = Some (segNum (last (jSegments j))) \<and>
     Mapping.keys (jFiles j) = segNum ` set (jSegments j) \<and> minSegmentSize \<le> unat (jSegmentSize j) \<and>
     jNextSeq j = last_seq 0 (concat logs) + 1 \<and> last_seq 0 (concat logs) < jNextSeq j"

definition seg_room :: "journal \<Rightarrow> nat" where
  "seg_room j = min (2 ^ 32 - 2 - unat (segNum (last (jSegments j)))) (2 ^ 64 - 1 - unat (jNextSeq j))"

lemma list_all2_snoc [simp]: "list_all2 P (xs @ [x]) (ys @ [y]) \<longleftrightarrow> list_all2 P xs ys \<and> P x y"
  using list_all2_rev [of P "xs @ [x]" "ys @ [y]"] by auto

lemma segs_ok_snoc:
  assumes "segs_ok j logs"
  obtains ss s ls rs where "jSegments j = ss @ [s]" "logs = ls @ [rs]" "list_all2 (seg_ok (jFiles j)) ss ls"
    "seg_ok (jFiles j) s rs" "list_all seg_roomy ss" "seg_roomy s" "segNum s \<notin> segNum ` set ss"
proof -
  obtain ss s where s: "jSegments j = ss @ [s]"
    using assms by (cases "jSegments j" rule: rev_cases) (auto simp: segs_ok_def)
  moreover obtain ls rs where "logs = ls @ [rs]"
    using assms s by (cases logs rule: rev_cases) (auto simp: segs_ok_def)
  moreover have "distinct (map segNum (ss @ [s]))"
    using assms s consecutive_distinct(1) [of "ss @ [s]"] by (simp add: segs_ok_def)
  ultimately show ?thesis using that [of ss s ls rs] assms s
    by (auto simp: segs_ok_def)
qed

lemma seg_ok_others:
  assumes "list_all2 (seg_ok files) ss ls" and "n \<notin> segNum ` set ss"
  shows "list_all2 (seg_ok (Mapping.update n d files)) ss ls"
proof -
  have "seg_ok (Mapping.update n d files) (ss ! i) rs = seg_ok files (ss ! i) rs" if "i < length ss" for i rs
    using assms(2) that by (intro seg_ok_frame) (auto simp: lookup_update' dest: nth_mem)
  then show ?thesis using assms(1) by (simp add: list_all2_conv_all_nth)
qed

lemma last_seq_append: "last_seq m (xs @ ys) = last_seq (last_seq m xs) ys"
  by (simp add: last_seq_def)

lemma last_seq_upper: "m \<le> last_seq m rs \<and> (\<forall>r \<in> set rs. RSeq r \<le> last_seq m rs)"
proof (induction rs arbitrary: m)
  case (Cons r rs)
  from Cons [of "max m (RSeq r)"] show ?case by (auto simp: last_seq_def)
qed (simp add: last_seq_def)

lemma consecutive_snoc: "consecutive (ss @ [s]) \<Longrightarrow> segNum s' = segNum s \<Longrightarrow> consecutive (ss @ [s'])"
  by (simp add: consecutive_def)

lemma consecutive_extend:
  assumes "consecutive (ss @ [s])" and "unat (segNum s) + 2 < 2 ^ 32" and "segNum t = segNum s + 1"
  shows "consecutive (ss @ [s, t])" and "segNum t \<notin> segNum ` set (ss @ [s])"
proof -
  obtain b where b: "b + length (ss @ [s]) < 2 ^ 32"
    and m: "map segNum (ss @ [s]) = map word_of_nat [b..<b + length (ss @ [s])]"
    using assms(1) by (auto simp: consecutive_def)
  then have s: "segNum s = word_of_nat (b + length ss)" by simp
  have "unat (segNum s) = b + length ss" unfolding s using b by (intro unat_u32_of_nat_eq) simp
  then have "b + length (ss @ [s, t]) < 2 ^ 32" using assms(2) by simp
  moreover have "map segNum (ss @ [s, t]) = map word_of_nat [b..<b + length (ss @ [s, t])]"
    using m assms(3) s by simp
  ultimately show c: "consecutive (ss @ [s, t])" by (auto simp: consecutive_def)
  show "segNum t \<notin> segNum ` set (ss @ [s])" using consecutive_distinct(1) [OF c] by auto
qed

lemma find_snoc: "List.find P (xs @ [x]) = (case List.find P xs of Some y \<Rightarrow> Some y | None \<Rightarrow> if P x then Some x else None)"
  by (induction xs) auto

lemma find_last:
  assumes "jSegments j = ss @ [s]" and "segNum s \<notin> segNum ` set ss"
  shows "findSegment j (segNum s) = Some s"
    and "segNum s' = segNum s \<Longrightarrow> put_segment s' j = j\<lparr>jSegments := ss @ [s']\<rparr>"
proof -
  have "List.find (\<lambda>t. segNum t = segNum s) ss = None" using assms(2) by (auto simp: find_None_iff image_iff)
  then show "findSegment j (segNum s) = Some s" using assms(1) by (simp add: findSegment_def find_snoc)
  show "put_segment s' j = j\<lparr>jSegments := ss @ [s']\<rparr>" if "segNum s' = segNum s"
  proof -
    have "map (\<lambda>t. if segNum t = segNum s then s' else t) ss = ss" by (rule map_idI) (use assms(2) in \<open>auto simp: image_iff\<close>)
    then show ?thesis using assms(1) that by (simp add: put_segment_def)
  qed
qed

lemma jbase_active:
  assumes "jbase j logs" and "jSegments j = ss @ [s]" and "segNum s \<notin> segNum ` set ss"
  shows "activeSegment j = Inr s"
  using assms find_last(1) [OF assms(2,3)] by (simp add: jbase_def activeSegment_def)

lemma append_fits:
  assumes base: "jbase j logs" and s: "jSegments j = ss @ [s]" and logs: "logs = ls @ [rs]"
    and r: "rec_ok r" "RKind r \<noteq> KindSeal" and fit: "segHead s + rec_len r + 48 \<le> unat (segSize s)"
    and need: "need \<le> segSize s" and seqs: "unat (jNextSeq j) < 2 ^ 64 - 1"
  shows "\<exists>j' off. append_loop fresh j r need = Some (Inr (j', off, jNextSeq j)) \<and>
    jbase j' (ls @ [rs @ [r\<lparr>RSeq := jNextSeq j\<rparr>]]) \<and> jNextSeq j' = jNextSeq j + 1 \<and>
    segNum (last (jSegments j')) = segNum s"
proof -
  let ?r = "r\<lparr>RSeq := jNextSeq j\<rparr>" and ?files = "jFiles j"
  have ok: "segs_ok j (ls @ [rs])" "\<not> is_sealed rs" using base logs by (simp_all add: jbase_def)
  have parts: "list_all2 (seg_ok ?files) ss ls" "seg_ok ?files s rs" "list_all seg_roomy ss" "seg_roomy s"
    "segNum s \<notin> segNum ` set ss"
    by (rule segs_ok_snoc [OF ok(1)]; use s in simp)+
  have len: "rec_len ?r = rec_len r" "rec_ok ?r" using r by (simp_all add: rec_len_def rec_ok_def)
  let ?s = "s\<lparr>segHead := segHead s + rec_len ?r, segSealed := RKind ?r = KindSeal\<rparr>"
  obtain d where d: "segment_append ?files s ?r = Inr (Mapping.update (segNum s) d ?files, ?s, segHead s)"
    "seg_ok (Mapping.update (segNum s) d ?files) ?s (rs @ [?r])"
    using seg_append [OF parts(2) ok(2) len(2)] fit len(1) by auto
  let ?j = "j\<lparr>jFiles := Mapping.update (segNum s) d ?files, jNextSeq := jNextSeq j + 1, jSegments := ss @ [?s]\<rparr>"
  have "\<not> segSealed s" "\<not> segSize s < need" using parts(2) ok(2) need by (simp_all add: seg_ok_def)
  then have run: "append_loop fresh j r need = Some (Inr (?j, makeOffset (segNum s) (segHead s), jNextSeq j))"
    using d(1) fit jbase_active [OF base s parts(5)] s
      find_last(2) [of "j\<lparr>jFiles := Mapping.update (segNum s) d ?files, jNextSeq := jNextSeq j + 1\<rparr>" ss s ?s] parts(5)
    by (subst append_loop.simps) (simp add: recordTotalLen_def)
  have "segs_ok ?j (ls @ [rs @ [?r]])"
    using ok(1) s parts d(2) fit r(2) len(1) seg_ok_others [OF parts(1,5)]
    by (auto simp: segs_ok_def seg_roomy_def intro: consecutive_snoc)
  moreover have "last_seq 0 (concat (ls @ [rs @ [?r]])) = max (last_seq 0 (concat (ls @ [rs]))) (jNextSeq j)"
    by (simp add: last_seq_append) (simp add: last_seq_def)
  moreover have "jNextSeq j \<noteq> - 1" using seqs by (auto simp: unsigned_minus_1_eq_mask mask_eq_exp_minus_1)
  then have "jNextSeq j < jNextSeq j + 1" by (rule u64_less_succ)
  ultimately have "jbase ?j (ls @ [rs @ [?r]])"
    using base logs s r(2) by (auto simp: jbase_def is_sealed_def max_def keys_update)
  then show ?thesis using run s by auto
qed

lemma keys_None: "Mapping.lookup m k = None \<longleftrightarrow> k \<notin> Mapping.keys m"
  by (auto simp: keys_dom_lookup)

lemma rec_len_seal [simp]: "rec_len seal_record = 48" "recordTotalLen 0 = 48"
  by (simp_all add: rec_len_def seal_record_def recordTotalLen_def)

lemma segs_ok_rotated:
  assumes ok: "segs_ok j (ls @ [rs])" and s: "jSegments j = ss @ [s]" and ns: "\<not> is_sealed rs"
    and t: "t = fresh_segment (segNum s + 1) sz" "minSegmentSize \<le> unat sz" and room: "unat (segNum s) + 2 < 2 ^ 32"
    and j': "jFiles j' = Mapping.update (segNum t) (fresh_image sz h) (jFiles j)" "jSegments j' = ss @ [s, t]"
  shows "segs_ok j' (ls @ [rs, []])"
proof -
  have parts: "list_all2 (seg_ok (jFiles j)) ss ls" "seg_ok (jFiles j) s rs" "list_all seg_roomy ss" "seg_roomy s"
    by (rule segs_ok_snoc [OF ok]; use s in simp)+
  have c: "consecutive (ss @ [s, t])" "segNum t \<notin> segNum ` set (ss @ [s])"
    using consecutive_extend [of ss s t] ok s room t(1) by (simp_all add: segs_ok_def)
  have "seg_ok (jFiles j') t []" using fresh_seg_ok [OF t(2), of "segNum t"] t(1) j'(1) by simp
  moreover have "list_all2 (seg_ok (jFiles j')) (ss @ [s]) (ls @ [rs])"
    unfolding j'(1) using parts(1,2) c(2) by (intro seg_ok_others) simp_all
  moreover have "seg_roomy t" using t by (simp add: seg_roomy_def minSegmentSize_def)
  ultimately show ?thesis
    using list_all2_snoc [of "seg_ok (jFiles j')" "ss @ [s]" t "ls @ [rs]" "[]"] parts(3,4) c(1) j'(2)
    by (simp add: segs_ok_def del: list_all2_snoc)
qed

lemma seal_ok:
  assumes ok: "segs_ok j (ls @ [rs, []])" and s: "jSegments j = ss @ [s, t]" and ns: "\<not> is_sealed rs"
  obtains d e where "segment_append (jFiles j) s seal_record = Inr (Mapping.update (segNum s) d (jFiles j), e, segHead s)"
    "\<forall>f. put_segment e (j\<lparr>jFiles := f\<rparr>) = j\<lparr>jFiles := f, jSegments := ss @ [e, t]\<rparr>" "segNum e = segNum s \<and> segSize e = segSize s"
    "segs_ok (j\<lparr>jFiles := Mapping.update (segNum s) d (jFiles j), jSegments := ss @ [e, t]\<rparr>) (ls @ [rs @ [seal_record], []])"
proof -
  have c: "consecutive (ss @ [s, t])" and dist: "distinct (map segNum (ss @ [s, t]))"
    using ok s consecutive_distinct(1) [of "ss @ [s, t]"] by (simp_all add: segs_ok_def)
  have all: "list_all2 (seg_ok (jFiles j)) (ss @ [s]) (ls @ [rs])" "seg_ok (jFiles j) t []"
    using ok s list_all2_snoc [of "seg_ok (jFiles j)" "ss @ [s]" t "ls @ [rs]" "[]"] by (simp_all add: segs_ok_def del: list_all2_snoc)
  then have parts: "list_all2 (seg_ok (jFiles j)) ss ls" "seg_ok (jFiles j) s rs" by simp_all
  have fit: "segHead s + rec_len seal_record \<le> unat (segSize s)" using ok s parts(2) ns by (simp add: segs_ok_def seg_roomy_def seg_ok_def)
  let ?e = "s\<lparr>segHead := segHead s + rec_len seal_record, segSealed := RKind seal_record = KindSeal\<rparr>"
  have "rec_ok seal_record" by (simp add: rec_ok_def seal_record_def kinds)
  then obtain d where d: "segment_append (jFiles j) s seal_record = Inr (Mapping.update (segNum s) d (jFiles j), ?e, segHead s)"
    "seg_ok (Mapping.update (segNum s) d (jFiles j)) ?e (rs @ [seal_record])"
    using seg_append [OF parts(2) ns _ fit] by blast
  have e: "seg_roomy ?e" "segNum ?e = segNum s \<and> segSize ?e = segSize s" by (simp_all add: seg_roomy_def seal_record_def)
  have "map (\<lambda>u. if segNum u = segNum s then ?e else u) ss = ss" by (rule map_idI) (use dist in \<open>auto simp: image_iff\<close>)
  then have "put_segment ?e (j\<lparr>jFiles := f\<rparr>) = j\<lparr>jFiles := f, jSegments := ss @ [?e, t]\<rparr>" for f
    using s dist by (auto simp: put_segment_def simp del: rec_len_seal)
  moreover have "list_all2 (seg_ok (Mapping.update (segNum s) d (jFiles j))) ss ls"
    by (rule seg_ok_others [OF parts(1)]) (use dist in auto)
  moreover have "seg_ok (Mapping.update (segNum s) d (jFiles j)) t []"
    using all(2) dist by (subst seg_ok_frame) (auto simp: lookup_update')
  moreover have "consecutive (ss @ [?e, t])" using c by (simp add: consecutive_def)
  ultimately show ?thesis
    using that [OF d(1)] d(2) e ok s list_all2_snoc [of "seg_ok (Mapping.update (segNum s) d (jFiles j))" "ss @ [?e]" t "ls @ [rs @ [seal_record]]" "[]"]
    by (simp add: segs_ok_def del: list_all2_snoc) simp
qed

lemma rotate_ok:
  fixes need :: u32
  assumes base: "jbase j (ls @ [rs])" and s: "jSegments j = ss @ [s]" and room: "unat (segNum s) + 2 < 2 ^ 32"
  defines "sz \<equiv> (if jSegmentSize j < need then need else jSegmentSize j)"
  shows "\<exists>j' e. rotate fresh j s need = Inr j' \<and> jbase j' (ls @ [rs @ [seal_record], []]) \<and> jNextSeq j' = jNextSeq j \<and>
    jSegments j' = ss @ [e, fresh_segment (segNum s + 1) sz] \<and> segNum e = segNum s \<and> segSize e = segSize s"
proof -
  let ?t = "fresh_segment (segNum s + 1) sz"
  have ok: "segs_ok j (ls @ [rs])" "\<not> is_sealed rs" "jActive j = Some (segNum s)" and
    keys: "Mapping.keys (jFiles j) = segNum ` set (ss @ [s])" and min: "minSegmentSize \<le> unat sz"
    using base s by (auto simp: jbase_def sz_def word_less_nat_alt)
  have parts: "seg_roomy s" "segNum s \<notin> segNum ` set ss" by (rule segs_ok_snoc [OF ok(1)]; use s in simp)+
  have new: "segNum ?t \<notin> segNum ` set (ss @ [s])"
    by (rule consecutive_extend(2)) (use ok(1) s room in \<open>simp_all add: segs_ok_def\<close>)
  define j1 where "j1 = j\<lparr>jFiles := Mapping.update (segNum ?t) (fresh_image sz (fresh (segNum s + 1))) (jFiles j),
    jSegments := ss @ [s, ?t]\<rparr>"
  have opened: "openSegment (jFiles j) (segNum s + 1) sz (fresh (segNum s + 1)) = Inr (jFiles j1, ?t, 0, False)"
    using open_fresh [OF _ min] keys new by (simp add: j1_def keys_None)
  have none: "findSegment (j\<lparr>jFiles := jFiles j1\<rparr>) (segNum s + 1) = None"
    and j1: "j\<lparr>jFiles := jFiles j1, jSegments := jSegments j @ [?t]\<rparr> = j1"
    using new s by (auto simp: findSegment_def find_None_iff image_iff j1_def)
  have ok1: "segs_ok j1 (ls @ [rs, []])"
    using min room by (intro segs_ok_rotated [OF ok(1) s ok(2)]) (simp_all add: j1_def)
  have js: "jSegments j1 = ss @ [s, ?t]" by (simp add: j1_def)
  obtain d e where e: "segment_append (jFiles j1) s seal_record = Inr (Mapping.update (segNum s) d (jFiles j1), e, segHead s)"
    and put: "\<forall>f. put_segment e (j1\<lparr>jFiles := f\<rparr>) = j1\<lparr>jFiles := f, jSegments := ss @ [e, ?t]\<rparr>"
    and en: "segNum e = segNum s \<and> segSize e = segSize s"
    and j2: "segs_ok (j1\<lparr>jFiles := Mapping.update (segNum s) d (jFiles j1), jSegments := ss @ [e, ?t]\<rparr>) (ls @ [rs @ [seal_record], []])"
    by (rule seal_ok [OF ok1 js ok(2)])
  let ?j = "j1\<lparr>jFiles := Mapping.update (segNum s) d (jFiles j1), jSegments := ss @ [e, ?t], jActive := Some (segNum ?t)\<rparr>"
  have "\<not> segSealed s" "segHead s + 48 \<le> unat (segSize s)"
    using ok(1,2) parts(1) s by (auto simp: seg_roomy_def segs_ok_def seg_ok_def)
  then have "rotate fresh j s need = Inr ?j"
    using opened none j1 ok(3) e put by (simp add: rotate_def sz_def [symmetric] Let_def)
  moreover have "segs_ok ?j (ls @ [rs @ [seal_record], []])" using j2 by (simp add: segs_ok_def)
  moreover have "last_seq 0 (concat (ls @ [rs @ [seal_record], []])) = last_seq 0 (concat (ls @ [rs]))"
    by (simp add: last_seq_append) (simp add: last_seq_def seal_record_def)
  ultimately show ?thesis
    using base s en by (intro exI [of _ ?j] exI [of _ e]) (auto simp: jbase_def j1_def is_sealed_def keys_update)
qed

section \<open>Append, restart, read\<close>

record entry =
  eKind :: kind
  eHLC :: u64
  eOrigin :: u64
  eSchemaSeq :: u32
  ePayload :: bytes

definition entry_fits :: "entry \<Rightarrow> bool" where
  "entry_fits a \<longleftrightarrow> eKind a \<noteq> KindUnknown \<and> eKind a \<noteq> KindSeal \<and> 64 + recordTotalLen (length (ePayload a)) + 48 \<le> 0xFFFFFFFF"

definition entry_record :: "entry \<Rightarrow> u64 \<Rightarrow> journal_record" where
  "entry_record a seq = \<lparr>RKind = eKind a, RFlags = 0, RSeq = seq, RHLC = eHLC a, ROrigin = eOrigin a,
     RSchemaSeq = eSchemaSeq a, RPayload = ePayload a\<rparr>"

definition append_entry :: "(u32 \<Rightarrow> fresh_header) \<Rightarrow> entry \<Rightarrow> journal \<Rightarrow> ((journal \<times> u64 \<times> u64) result) option" where
  "append_entry fresh a j = AppendWithSchemaSeq fresh j (eKind a) (eHLC a) (eOrigin a) (eSchemaSeq a) (ePayload a)"

lemma append_entry_loop:
  assumes "entry_fits a"
  obtains need where "append_entry fresh a j = append_loop fresh j (entry_record a 0) need"
    and "unat need = 64 + rec_len (entry_record a 0) + 48"
proof -
  let ?n = "64 + recordTotalLen (length (ePayload a)) + 48"
  have "length (ePayload a) + 48 \<le> recordTotalLen (length (ePayload a))" by (rule recordTotalLen_bounds)
  then have "append_entry fresh a j = append_loop fresh j (entry_record a 0) (word_of_nat ?n)"
    using assms by (simp add: entry_fits_def append_entry_def AppendWithSchemaSeq_def requiredSegmentSize_def entry_record_def)
  moreover have "unat (word_of_nat ?n :: u32) = ?n"
    using assms by (intro unat_u32_of_nat_eq) (simp add: entry_fits_def)
  ultimately show ?thesis by (intro that) (simp_all add: rec_len_def entry_record_def)
qed

lemma entry_record_ok:
  assumes "entry_fits a"
  shows "rec_ok (entry_record a seq)" and "RKind (entry_record a seq) \<noteq> KindSeal"
    and "(entry_record a 0)\<lparr>RSeq := seq\<rparr> = entry_record a seq" and "rec_len (entry_record a seq) = rec_len (entry_record a 0)"
  using assms recordTotalLen_bounds(1) [of "length (ePayload a)"]
  by (simp_all add: rec_ok_def entry_fits_def entry_record_def rec_len_def kinds)

lemma append_ok:
  assumes base: "jbase j (ls @ [rs])" and fits: "entry_fits a" and room: "0 < seg_room j"
  defines "r \<equiv> entry_record a (jNextSeq j)"
  shows "\<exists>j' off logs'. append_entry fresh a j = Some (Inr (j', off, jNextSeq j)) \<and> jbase j' logs' \<and>
    (logs' = ls @ [rs @ [r]] \<or> logs' = ls @ [rs @ [seal_record], [r]]) \<and> seg_room j \<le> Suc (seg_room j')"
proof -
  obtain need where loop: "append_entry fresh a j = append_loop fresh j (entry_record a 0) need"
    and need: "unat need = 64 + rec_len (entry_record a 0) + 48"
    using append_entry_loop [OF fits] by blast
  note ok0 = entry_record_ok(1,2) [OF fits, of 0] and seq = entry_record_ok(3) [OF fits]
  have segs: "segs_ok j (ls @ [rs])" using base by (simp add: jbase_def)
  obtain ss s where s: "jSegments j = ss @ [s]" and seg: "seg_ok (jFiles j) s rs" "segNum s \<notin> segNum ` set ss"
    by (rule segs_ok_snoc [OF segs]) auto
  have lim: "unat (segNum s) + 2 < 2 ^ 32" "unat (jNextSeq j) < 2 ^ 64 - 1" using room s by (auto simp: seg_room_def)
  have succ: "unat (segNum s + 1) = Suc (unat (segNum s))" using lim(1) by (simp add: unat_word_ariths)
  have nseq: "unat (jNextSeq j + 1) = Suc (unat (jNextSeq j))"
    using lim(2) by (intro unat_succ_max) (auto simp: unsigned_minus_1_eq_mask mask_eq_exp_minus_1)
  show ?thesis
  proof (cases "segSize s < need \<or> unat (segSize s) < segHead s + rec_len (entry_record a 0) + 48")
    case False
    then obtain j' off where "append_loop fresh j (entry_record a 0) need = Some (Inr (j', off, jNextSeq j))"
      "jbase j' (ls @ [rs @ [r]])" "jNextSeq j' = jNextSeq j + 1" "segNum (last (jSegments j')) = segNum s"
      using append_fits [OF base s refl ok0 _ _ lim(2), of need fresh] seq by (auto simp: r_def not_less)
    then show ?thesis using loop s nseq by (auto simp: seg_room_def)
  next
    case True
    obtain j1 e where j1: "rotate fresh j s need = Inr j1" "jbase j1 ((ls @ [rs @ [seal_record]]) @ [[]])"
      "jNextSeq j1 = jNextSeq j" "jSegments j1 = (ss @ [e]) @ [fresh_segment (segNum s + 1) (if jSegmentSize j < need then need else jSegmentSize j)]"
      using rotate_ok [OF base s lim(1), of fresh need] by auto
    have step: "append_loop fresh j (entry_record a 0) need = append_loop fresh j1 (entry_record a 0) need"
      using jbase_active [OF base s seg(2)] True j1(1) by (subst append_loop.simps) auto
    have "need \<le> (if jSegmentSize j < need then need else jSegmentSize j)" by auto
    then obtain j' off where "append_loop fresh j1 (entry_record a 0) need = Some (Inr (j', off, jNextSeq j))"
      "jbase j' ((ls @ [rs @ [seal_record]]) @ [[] @ [r]])" "jNextSeq j' = jNextSeq j + 1"
      "segNum (last (jSegments j')) = segNum s + 1"
      using append_fits [OF j1(2,4) refl ok0, of need fresh] seq need j1(3) lim(2)
      by (auto simp: r_def word_le_nat_alt)
    then show ?thesis using loop step s nseq succ by (auto simp: seg_room_def)
  qed
qed

lemma last_seq_max: "last_seq m rs = max m (last_seq 0 rs)"
proof (induction rs arbitrary: m)
  case (Cons r rs)
  have "last_seq (max m (RSeq r)) rs = max m (max (RSeq r) (last_seq 0 rs))"
    using Cons.IH [of "max m (RSeq r)"] by (simp add: max.assoc)
  moreover have "last_seq (max 0 (RSeq r)) rs = max (RSeq r) (last_seq 0 rs)"
    using Cons.IH [of "RSeq r"] by (simp add: max_def)
  ultimately show ?case by (simp add: last_seq_def)
qed (simp add: last_seq_def)

lemma open_all:
  assumes "list_all2 (seg_ok files) segs logs"
  shows "foldE (open_step fresh sz) (map segNum segs) (files, acc, m) = Inr (files, acc @ segs, last_seq m (concat logs))"
  using assms
proof (induction arbitrary: acc m rule: list_all2_induct)
  case Nil
  then show ?case by (simp add: last_seq_def)
next
  case (Cons s segs rs logs)
  have "(if last_seq 0 rs > m then last_seq 0 rs else m) = last_seq m rs"
    using last_seq_max [of m rs] by (auto simp: max_def)
  then show ?case
    using Cons open_seg_ok [OF Cons.hyps(1), of sz True "fresh (segNum s)"]
    by (simp add: open_step_def openSegment_def last_seq_append)
qed

lemma consecutive_sorted:
  assumes "consecutive segs"
  shows "sorted (map segNum segs)"
proof -
  obtain b where b: "b + length segs < 2 ^ 32" and m: "map segNum segs = map word_of_nat [b..<b + length segs]"
    using assms by (auto simp: consecutive_def)
  have "sorted_wrt (\<le>) (map (word_of_nat :: nat \<Rightarrow> u32) [b..<b + length segs])"
    unfolding sorted_wrt_map
  proof (rule sorted_wrt_mono_rel [OF _ sorted_wrt_upt])
    fix x y assume xy: "x \<in> set [b..<b + length segs]" "y \<in> set [b..<b + length segs]" "x < y"
    then have "unat (word_of_nat x :: u32) = x" "unat (word_of_nat y :: u32) = y"
      using b by (auto intro!: unat_u32_of_nat_eq)
    then show "(word_of_nat x :: u32) \<le> word_of_nat y" using xy(3) by (simp only: word_le_nat_alt)
  qed
  then show ?thesis by (simp only: m)
qed

lemma list_segments:
  assumes "consecutive segs" and "Mapping.keys files = segNum ` set segs"
  shows "listSegmentNumbers files = map segNum segs"
proof -
  have "sorted_list_of_set (set (map segNum segs)) = map segNum segs"
    using consecutive_sorted [OF assms(1)] consecutive_distinct(1) [OF assms(1)]
    by (rule sorted_list_of_set.idem_if_sorted_distinct)
  then show ?thesis using assms(2) by (simp add: listSegmentNumbers_def ordered_keys_def)
qed

lemma reopen_ok:
  assumes "jbase j logs"
  shows "Open fresh (jFiles j) (jSegmentSize j) = Inr j"
proof -
  have segs: "segs_ok j logs" and b: "\<not> is_sealed (last logs)" "jActive j = Some (segNum (last (jSegments j)))"
    "Mapping.keys (jFiles j) = segNum ` set (jSegments j)" "jNextSeq j = last_seq 0 (concat logs) + 1"
    "minSegmentSize \<le> unat (jSegmentSize j)"
    using assms by (simp_all add: jbase_def)
  then have all: "list_all2 (seg_ok (jFiles j)) (jSegments j) logs" and c: "consecutive (jSegments j)"
    and ne: "jSegments j \<noteq> []" by (simp_all add: segs_ok_def)
  have "segSealed (last (jSegments j)) = is_sealed (last logs)"
    by (rule segs_ok_snoc [OF segs]) (auto simp: seg_ok_def)
  moreover have "jSegmentSize j \<noteq> 0" using b(5) by (auto simp: minSegmentSize_def)
  ultimately show ?thesis
    using open_all [OF all, of fresh "jSegmentSize j" "[]" 0] list_segments [OF c b(3)] b ne
    by (cases j) (simp add: Open_def Let_def)
qed

section \<open>The journal is an append-only log\<close>

definition jrep :: "journal \<Rightarrow> journal_record list \<Rightarrow> bool" where
  "jrep j xs \<longleftrightarrow> (\<exists>logs. jbase j logs \<and> (\<forall>rs \<in> set (butlast logs). is_sealed rs) \<and> xs = concat (map visible logs))"

lemma readable_all: "\<forall>rs \<in> set (butlast logs). is_sealed rs \<Longrightarrow> readable logs = concat (map visible logs)"
  by (induction logs rule: readable.induct) (auto split: if_splits)

definition push_entry :: "(u32 \<Rightarrow> fresh_header) \<Rightarrow> entry \<Rightarrow> journal \<Rightarrow> journal option" where
  "push_entry fresh a j = (case append_entry fresh a j of Some (Inr (j', _)) \<Rightarrow> Some j' | _ \<Rightarrow> None)"

definition restart :: "(u32 \<Rightarrow> fresh_header) \<Rightarrow> journal \<Rightarrow> journal option" where
  "restart fresh j = (case Open fresh (jFiles j) (jSegmentSize j) of Inr j' \<Rightarrow> Some j' | Inl _ \<Rightarrow> None)"

definition read_all :: "journal \<Rightarrow> journal_record list option" where
  "read_all j = map_option (snd \<circ> snd) (collect j (Iterate j 0))"

definition same_entry :: "entry \<Rightarrow> journal_record \<Rightarrow> bool" where
  "same_entry a r \<longleftrightarrow> r = entry_record a (RSeq r)"

definition older :: "journal_record \<Rightarrow> journal_record \<Rightarrow> bool" where
  "older x r \<longleftrightarrow> RSeq x < RSeq r"

interpretation journal_log: append_log jrep "push_entry fresh" "restart fresh" read_all same_entry older entry_fits seg_room
  for fresh
proof
  fix j xs a assume "jrep j xs" and a: "entry_fits a" "0 < seg_room j"
  then obtain logs where base: "jbase j logs" and sealed: "\<forall>rs \<in> set (butlast logs). is_sealed rs"
    and xs: "xs = concat (map visible logs)" by (auto simp: jrep_def)
  have "logs \<noteq> []" using base by (auto simp: jbase_def segs_ok_def)
  then obtain ls rs where logs: "logs = ls @ [rs]" by (cases logs rule: rev_cases) auto
  let ?r = "entry_record a (jNextSeq j)"
  obtain j' off logs' where j': "append_entry fresh a j = Some (Inr (j', off, jNextSeq j))" "jbase j' logs'"
    "logs' = ls @ [rs @ [?r]] \<or> logs' = ls @ [rs @ [seal_record], [?r]]" "seg_room j \<le> Suc (seg_room j')"
    using append_ok [OF base [unfolded logs] a, of fresh] by blast
  have "RKind ?r \<noteq> KindSeal" by (rule entry_record_ok [OF a(1)])
  then have "jrep j' (xs @ [?r])" using j'(2,3) sealed xs logs
    by (auto simp: jrep_def visible_def is_sealed_def seal_record_def butlast_append intro!: exI [of _ logs'])
  moreover have "\<forall>x \<in> set xs. older x ?r"
  proof
    fix x assume "x \<in> set xs"
    then have "x \<in> set (concat logs)" by (auto simp: xs visible_def)
    then have "RSeq x \<le> last_seq 0 (concat logs)" using last_seq_upper by blast
    then show "older x ?r" using base by (auto simp: jbase_def older_def entry_record_def)
  qed
  moreover have "same_entry a ?r" by (simp add: same_entry_def entry_record_def)
  ultimately show "\<exists>j' r. push_entry fresh a j = Some j' \<and> jrep j' (xs @ [r]) \<and> same_entry a r \<and>
      (\<forall>x \<in> set xs. older x r) \<and> seg_room j \<le> Suc (seg_room j')"
    using j'(1,4) by (intro exI [of _ j'] exI [of _ ?r]) (simp add: push_entry_def)
next
  fix j xs assume "jrep j xs"
  then show "\<exists>j'. restart fresh j = Some j' \<and> jrep j' xs \<and> seg_room j' = seg_room j"
    by (auto simp: jrep_def restart_def reopen_ok)
next
  fix j xs assume "jrep j xs"
  then show "read_all j = Some xs"
    by (auto simp: jrep_def read_all_def jbase_def collect_all readable_all)
qed

definition new_journal :: "(u32 \<Rightarrow> fresh_header) \<Rightarrow> u32 \<Rightarrow> journal" where
  "new_journal fresh sz = \<lparr>jSegmentSize = sz, jFiles = Mapping.update 0 (fresh_image sz (fresh 0)) Mapping.empty,
      jSegments = [fresh_segment 0 sz], jActive = Some 0, jNextSeq = 1\<rparr>"

lemma open_new:
  assumes "minSegmentSize \<le> unat sz"
  shows "Open fresh Mapping.empty sz = Inr (new_journal fresh sz)" and "jbase (new_journal fresh sz) [[]]"
    and "seg_room (new_journal fresh sz) = 2 ^ 32 - 2"
proof -
  have "sz \<noteq> 0" using assms(1) by (auto simp: minSegmentSize_def)
  moreover have "listSegmentNumbers Mapping.empty = []"
    by (simp add: listSegmentNumbers_def ordered_keys_def keys_empty)
  ultimately show "Open fresh Mapping.empty sz = Inr (new_journal fresh sz)"
    using open_fresh [of Mapping.empty 0, OF _ assms(1)] by (simp add: Open_def new_journal_def lookup_empty)
  have "consecutive [fresh_segment 0 sz]" unfolding consecutive_def by (rule exI [of _ 0]) simp
  then have "segs_ok (new_journal fresh sz) [[]]"
    using fresh_seg_ok [OF assms(1)] assms(1) by (simp add: segs_ok_def new_journal_def seg_roomy_def minSegmentSize_def)
  then show "jbase (new_journal fresh sz) [[]]" using assms(1)
    by (simp add: jbase_def is_sealed_def new_journal_def keys_update keys_empty last_seq_def)
qed (simp add: seg_room_def new_journal_def)

text \<open>
  C1: the journal is an append-only log. Any sequence of appends of entries that fit and of
  restarts of the process, on a new journal, succeeds while segment numbers last; an iteration
  from the start then returns exactly the appended entries, in order, whatever segments they
  were written to, under strictly increasing sequence numbers.
\<close>

theorem journal_is_a_log:
  assumes "minSegmentSize \<le> unat sz" and "\<forall>a. Some a \<in> set ops \<longrightarrow> entry_fits a" and "length ops \<le> 2 ^ 32 - 2"
  shows "\<exists>j0 j rs. Open fresh Mapping.empty sz = Inr j0 \<and> log_run (push_entry fresh) (restart fresh) ops j0 = Some j \<and>
    read_all j = Some rs \<and> list_all2 same_entry (map the (filter (\<lambda>x. x \<noteq> None) ops)) rs \<and> sorted_wrt older rs"
proof -
  obtain j0 where j0: "Open fresh Mapping.empty sz = Inr j0" "jbase j0 [[]]" "seg_room j0 = 2 ^ 32 - 2"
    using open_new [OF assms(1)] by metis
  have "jrep j0 []" using j0(2) by (auto simp: jrep_def visible_def intro!: exI [of _ "[[]]"])
  moreover have "length ops \<le> seg_room j0" using assms(3) j0(3) by simp
  ultimately show ?thesis
    using journal_log.run_log [of j0 "[]" ops fresh] assms(2) j0(1) by auto
qed

theorem journal_is_a_log_witness:
  "let ops = [Some \<lparr>eKind = KindMirror, eHLC = 1, eOrigin = 2, eSchemaSeq = 0, ePayload = [7]\<rparr>, None];
       fresh = (\<lambda>_. \<lparr>freshUs = 0, freshSalt0 = 0, freshSalt1 = 0\<rparr>)
   in \<exists>j0 j rs. Open fresh Mapping.empty 2048 = Inr j0 \<and> log_run (push_entry fresh) (restart fresh) ops j0 = Some j \<and>
    read_all j = Some rs \<and> map RPayload rs = [[7]]"
proof -
  let ?a = "\<lparr>eKind = KindMirror, eHLC = 1, eOrigin = 2, eSchemaSeq = 0, ePayload = [7]\<rparr>"
  have "\<forall>a. Some a \<in> set [Some ?a, None] \<longrightarrow> entry_fits a"
    by (simp add: entry_fits_def kinds recordTotalLen_def)
  then show ?thesis
    using journal_is_a_log [of 2048 "[Some ?a, None]" "\<lambda>_. \<lparr>freshUs = 0, freshSalt0 = 0, freshSalt1 = 0\<rparr>"]
    by (auto simp: minSegmentSize_def list_all2_Cons1 same_entry_def entry_record_def Let_def) (metis journal_record.select_convs(7))
qed

section \<open>A crash inside a rotation\<close>

lemma readable_stop: "\<not> is_sealed rs \<Longrightarrow> readable (ls @ rs # rest) = readable (ls @ [rs])"
  by (induction ls) simp_all

text \<open>
  C5: a crash between the two steps of a rotation hides every later record. A rotation creates the
  next segment first and seals the full one afterwards. If the process dies in between, reopening
  makes the new segment the active one and never seals the old one; appends succeed into the new
  segment, but a reader stops at the end of the old one, reports a record that is still pending,
  and returns nothing that was appended since.
\<close>

theorem rotation_crash_hides_records:
  assumes base: "jbase j logs" and num: "num = segNum (last (jSegments j)) + 1" and room: "1 < seg_room j"
    and created: "openSegment (jFiles j) num sz h = Inr (files, t, 0, False)" "minSegmentSize \<le> unat sz" and a: "entry_fits a"
  shows "\<exists>j' j'' off seq. Open fresh files (jSegmentSize j) = Inr j' \<and> append_entry fresh a j' = Some (Inr (j'', off, seq)) \<and>
    collect j'' (Iterate j'' 0) = Some (j'', ErrPending, readable logs)"
proof -
  have segs: "segs_ok j logs" using base by (simp add: jbase_def)
  obtain ss s ls rs where s: "jSegments j = ss @ [s]" and logs: "logs = ls @ [rs]"
    by (rule segs_ok_snoc [OF segs])
  have ns: "\<not> is_sealed rs" and keys: "Mapping.keys (jFiles j) = segNum ` set (ss @ [s])"
    using base s logs by (simp_all add: jbase_def)
  have lim: "unat (segNum s) + 3 < 2 ^ 32" using room s by (auto simp: seg_room_def)
  let ?t = "fresh_segment num sz"
  have new: "segNum ?t \<notin> segNum ` set (ss @ [s])"
    by (rule consecutive_extend(2)) (use segs s lim num in \<open>simp_all add: segs_ok_def\<close>)
  then have files: "files = Mapping.update num (fresh_image sz h) (jFiles j)" "t = ?t"
    using created open_fresh [of "jFiles j" num sz h] keys by (simp_all add: keys_None)
  define j1 where "j1 = j\<lparr>jFiles := files, jSegments := ss @ [s, ?t], jActive := Some num\<rparr>"
  have "segs_ok j1 (ls @ [rs, []])"
    using lim num s by (intro segs_ok_rotated [OF segs [unfolded logs] s ns refl created(2)]) (simp_all add: j1_def files)
  then have base1: "jbase j1 ((ls @ [rs]) @ [[]])"
    using base s logs by (auto simp: jbase_def j1_def files keys_update is_sealed_def)
  have "unat num = Suc (unat (segNum s))" using lim num s by (simp add: unat_word_ariths)
  then have "0 < seg_room j1" using room s by (auto simp: seg_room_def j1_def)
  then obtain j'' off logs' where j'': "append_entry fresh a j1 = Some (Inr (j'', off, jNextSeq j1))" "jbase j'' logs'"
    "logs' = (ls @ [rs]) @ [[] @ [entry_record a (jNextSeq j1)]] \<or>
     logs' = (ls @ [rs]) @ [[] @ [seal_record], [entry_record a (jNextSeq j1)]]"
    using append_ok [OF base1 a, of fresh] by blast
  have "collect j'' (Iterate j'' 0) = Some (j'', ErrPending, readable logs')"
    using j''(2) by (intro collect_all) (simp_all add: jbase_def)
  moreover have "readable logs' = readable logs" using j''(3) readable_stop [OF ns] logs by auto
  moreover have "Open fresh files (jSegmentSize j) = Inr j1" using reopen_ok [OF base1, of fresh] by (simp add: j1_def)
  ultimately show ?thesis using j''(1) by auto
qed

definition sample_fresh :: "u32 \<Rightarrow> fresh_header" where
  "sample_fresh n = \<lparr>freshUs = 1, freshSalt0 = 2, freshSalt1 = 3\<rparr>"

definition sample_entry :: entry where
  "sample_entry = \<lparr>eKind = KindMirror, eHLC = 1, eOrigin = 2, eSchemaSeq = 0, ePayload = [7]\<rparr>"

lemma sample_entry_fits: "entry_fits sample_entry" "minSegmentSize \<le> unat (2048 :: u32)"
  by (simp_all add: entry_fits_def sample_entry_def kinds recordTotalLen_def minSegmentSize_def)

theorem rotation_crash_hides_records_witness:
  "\<exists>files t j' j'' off seq. openSegment (jFiles (new_journal sample_fresh 2048)) 1 2048 (sample_fresh 1) = Inr (files, t, 0, False) \<and>
    Open sample_fresh files 2048 = Inr j' \<and> append_entry sample_fresh sample_entry j' = Some (Inr (j'', off, seq)) \<and>
    collect j'' (Iterate j'' 0) = Some (j'', ErrPending, [])"
proof -
  let ?j = "new_journal sample_fresh 2048"
  note new = open_new [OF sample_entry_fits(2), of sample_fresh]
  let ?files = "Mapping.update 1 (fresh_image 2048 (sample_fresh 1)) (jFiles ?j)"
  have o: "openSegment (jFiles ?j) 1 2048 (sample_fresh 1) = Inr (?files, fresh_segment 1 2048, 0, False)"
    by (rule open_fresh) (simp_all add: new_journal_def lookup_update' lookup_empty minSegmentSize_def)
  have "1 = segNum (last (jSegments ?j)) + 1" by (simp add: new_journal_def)
  then have "\<exists>j' j'' off seq. Open sample_fresh ?files (jSegmentSize ?j) = Inr j' \<and>
      append_entry sample_fresh sample_entry j' = Some (Inr (j'', off, seq)) \<and>
      collect j'' (Iterate j'' 0) = Some (j'', ErrPending, readable [[]])"
    using new(3) by (intro rotation_crash_hides_records [OF new(2) _ _ o]) (simp_all add: sample_entry_fits(1) minSegmentSize_def)
  then show ?thesis using o by (auto simp: visible_def new_journal_def)
qed

section \<open>Resuming at a marker\<close>

lemma align_loop_boundary:
  assumes "seg_file data rs (replicate n 0)" and "k \<le> length rs" and "64 + recs_len (take k rs) \<le> target"
  shows "\<exists>m \<le> length rs. align_loop data (length data) target (64 + recs_len (take k rs)) = 64 + recs_len (take m rs) \<and>
    64 + recs_len (take m rs) \<le> target \<and> (m < length rs \<longrightarrow> target < 64 + recs_len (take (Suc m) rs))"
  using assms(2,3)
proof (induction rule: inc_induct)
  case base
  have "align_loop data (length data) target (64 + recs_len rs) = 64 + recs_len rs"
    using parse_rest [OF assms(1)] by (subst align_loop.simps) simp
  then show ?case using base by (intro exI [of _ "length rs"]) simp
next
  case (step k)
  let ?b = "64 + recs_len (take k rs)" and ?e = "64 + recs_len (take (Suc k) rs)"
  have parse: "parseRecordAt data ?b (length data) = Inr (rs ! k, ?e)" by (rule parse_nth [OF assms(1) step.hyps(2)])
  have less: "?b < ?e" using parse_end [OF parse] by simp
  show ?case
  proof (cases "?e \<le> target")
    case True
    then have "align_loop data (length data) target ?b = align_loop data (length data) target ?e"
      using parse less by (subst align_loop.simps) simp
    then show ?thesis using step.IH [OF True] by simp
  next
    case False
    then have "align_loop data (length data) target ?b = ?b"
      using parse by (subst align_loop.simps) simp
    then show ?thesis using False step by (intro exI [of _ k]) simp
  qed
qed

lemma align_in_segment:
  assumes segs: "segs_ok j logs" and i: "i < length logs" and off: "Offset_seg off = segNum (jSegments j ! i)" "64 \<le> Offset_byteOff off"
  obtains m where "m \<le> length (logs ! i)" "AlignResume j off = log_pos j logs i m"
    "64 + recs_len (take m (logs ! i)) \<le> Offset_byteOff off"
    "m < length (logs ! i) \<longrightarrow> Offset_byteOff off < 64 + recs_len (take (Suc m) (logs ! i))"
proof -
  obtain data n where o: "seg_file data (logs ! i) (replicate n 0)" "unat (segSize (jSegments j ! i)) = length data"
    "seg_data (jFiles j) (jSegments j ! i) = data"
    using segs_okD(4) [OF segs i] by (rule seg_okE)
  obtain m where m: "m \<le> length (logs ! i)"
    "align_loop data (length data) (Offset_byteOff off) 64 = 64 + recs_len (take m (logs ! i))"
    "64 + recs_len (take m (logs ! i)) \<le> Offset_byteOff off"
    "m < length (logs ! i) \<longrightarrow> Offset_byteOff off < 64 + recs_len (take (Suc m) (logs ! i))"
    using align_loop_boundary [OF o(1), of 0 "Offset_byteOff off"] off(2) by auto
  have "off \<noteq> 0" using off(2) by (auto simp: Offset_byteOff_def)
  moreover have "jSegments j \<noteq> []" using segs by (simp add: segs_ok_def)
  moreover define s where "s = jSegments j ! i"
  ultimately have "AlignResume j off = log_pos j logs i m"
    using m(2) o(2,3) [folded s_def] segs_okD(2) [OF segs i, folded s_def] off [folded s_def]
    by (cases "jSegments j") (simp_all add: AlignResume_def log_pos_def s_def [symmetric] Let_def)
  then show ?thesis using that m by blast
qed

text \<open>
  C7: a persisted marker that lies at or behind the seal of a segment, as one kept from an earlier
  generation of the journal can, is aligned to the end of that seal. No record is ever published
  there: the reader that resumes at the aligned offset reports a pending record for good and
  never moves on to the segments that follow. This holds whenever the seal is followed by the 44 bytes
  of reserve in which the parser looks for a record.
\<close>

theorem align_resume_past_seal_wedges:
  assumes segs: "segs_ok j logs" and i: "i < length logs" and "is_sealed (logs ! i)"
    and off: "Offset_seg off = segNum (jSegments j ! i)" "64 + recs_len (logs ! i) \<le> Offset_byteOff off"
    and reserve: "64 + recs_len (logs ! i) + 44 \<le> unat (segSize (jSegments j ! i))"
  shows "Iterator_Next j (AlignResume j off) = Some (j, AlignResume j off, Inl ErrPending)"
proof -
  have "64 \<le> Offset_byteOff off" using off(2) by simp
  then obtain m where m: "m \<le> length (logs ! i)" "AlignResume j off = log_pos j logs i m"
    "m < length (logs ! i) \<longrightarrow> Offset_byteOff off < 64 + recs_len (take (Suc m) (logs ! i))"
    using align_in_segment [OF segs i off(1)] by blast
  have "recs_len (take (Suc m) (logs ! i)) \<le> recs_len (logs ! i)"
    by (metis append_take_drop_id le_add1 recs_len_simps(3))
  then have end_pos: "m = length (logs ! i)" using m(1,3) off(2) by (cases "m < length (logs ! i)") simp_all
  obtain data n where o: "seg_file data (logs ! i) (replicate n 0)" "unat (segSize (jSegments j ! i)) = length data"
    "seg_data (jFiles j) (jSegments j ! i) = data"
    using segs_okD(4) [OF segs i] by (rule seg_okE)
  have "44 \<le> n" using reserve o(2) seg_file_len [OF o(1)] by simp
  then have "segment_next (jFiles j) (jSegments j ! i) (64 + recs_len (logs ! i)) = Inl ErrPending"
    using parse_rest [OF o(1)] o(2,3) seg_file_len [OF o(1)] by (simp add: segment_next_def)
  then show ?thesis unfolding m(2) end_pos
    by (subst Iterator_Next.simps) (simp add: log_pos_parts [OF segs i] segs_okD(2) [OF segs i] Let_def)
qed

theorem align_resume_past_seal_wedges_witness:
  "\<exists>j. rotate sample_fresh (new_journal sample_fresh 2048) (fresh_segment 0 2048) 2048 = Inr j \<and>
    Iterator_Next j (AlignResume j (makeOffset 0 1000)) = Some (j, AlignResume j (makeOffset 0 1000), Inl ErrPending)"
proof -
  let ?j = "new_journal sample_fresh 2048"
  have "jbase ?j ([] @ [[]])" using open_new(2) [OF sample_entry_fits(2), of sample_fresh] by simp
  moreover have "jSegments ?j = [] @ [fresh_segment 0 2048]" by (simp add: new_journal_def)
  ultimately obtain j e where j: "rotate sample_fresh ?j (fresh_segment 0 2048) 2048 = Inr j"
    "jbase j ([] @ [[] @ [seal_record], []])" "jSegments j = [e, fresh_segment 1 2048]" "segNum e = 0" "segSize e = 2048"
    using rotate_ok [of ?j "[]" "[]" "[]" "fresh_segment 0 2048" sample_fresh 2048] by (auto simp: new_journal_def)
  have "Iterator_Next j (AlignResume j (makeOffset 0 1000)) = Some (j, AlignResume j (makeOffset 0 1000), Inl ErrPending)"
    by (rule align_resume_past_seal_wedges [of j "[[seal_record], []]" 0])
      (use j in \<open>simp_all add: jbase_def is_sealed_def seal_record_def [unfolded kinds] rec_len_def recordTotalLen_def kinds\<close>)
  then show ?thesis using j(1) by blast
qed

end
