(* ===== verification/Recovery.thy ===== *)
theory Recovery
  imports Replay Journal_Log Codec
begin

text \<open>
  \<open>internal/nodestate/recover.go\<close>: rebuilding the cache after a restart from the mirror journals
  (\<open>RecoverMirror\<close>) and from the node's own log (\<open>RecoverSelf\<close>). Every changeset found is replayed on the
  clocks only (\<open>Replay\<close>). A panic inside \<open>Decode\<close> is an error value that is not skipped. The journals are
  those of the \<open>Journal\<close> theory; the loops inherit their partiality from \<open>Iterator_Next\<close>. The blob
  replayer of the syncer is an argument: a function of the cache, the changeset and its own state. A
  run that fails returns its error only: the node is not opened, and its cache is dropped.
\<close>

section \<open>Walking a journal\<close>

text \<open>The loop both functions run: one step per record up to the head read beforehand.\<close>

partial_function (option) journal_scan ::
  "(journal_record \<Rightarrow> 's \<Rightarrow> 's result) \<Rightarrow> u64 \<Rightarrow> journal \<Rightarrow> u64 \<Rightarrow> 's \<Rightarrow> ('s result) option" where
  "journal_scan step head j off st =
     (case Iterator_Next j off of None \<Rightarrow> None
      | Some (j, off, res) \<Rightarrow>
          (case res of
             Inl e \<Rightarrow> Some (if e = ErrEOF \<or> e = ErrPending then Inr st else Inl e)
           | Inr (rec, _) \<Rightarrow>
               if off > head then Some (Inr st)
               else
                 (case step rec st of
                    Inl e \<Rightarrow> Some (Inl e)
                  | Inr st \<Rightarrow> journal_scan step head j off st)))"

section \<open>The mirror journals\<close>

fun is_panic :: "error \<Rightarrow> bool" where
  "is_panic PanicIndex = True"
| "is_panic PanicMakeSlice = True"
| "is_panic PanicClockRange = True"
| "is_panic PanicDepsLowered = True"
| "is_panic (PanicKeyCount _) = True"
| "is_panic _ = False"

definition replayMirror :: "cell_tables option \<Rightarrow> changeset \<Rightarrow> cache \<Rightarrow> cache" where
  "replayMirror tables cs c =
     fst (MarkApplied (fold (replayRecord tables (csStamp cs)) (csRecords cs) c)
            (DotOrigin (csDot cs)) (DotSeq (csDot cs)) (StampClock (csStamp cs)))"

definition mirror_record :: "cell_tables option \<Rightarrow> origin \<Rightarrow> journal_record \<Rightarrow> cache \<Rightarrow> cache result" where
  "mirror_record tables orig rec c =
     (if RKind rec \<noteq> KindMirror \<or> Aborted rec then Inr c
      else
        (case Decode (RPayload rec) of
           Inl e \<Rightarrow> if is_panic e then Inl e else Inr c
         | Inr cs \<Rightarrow>
             if DotOrigin (csDot cs) \<noteq> orig then Inl (ErrPayloadOrigin orig (DotOrigin (csDot cs)))
             else if IsAppliedRemote c orig (DotSeq (csDot cs)) then Inr c
             else Inr (replayMirror tables cs c)))"

record mirror_source =
  mOrigins :: "origin list"
  mJournal :: "origin \<Rightarrow> journal result"

fun recover_origins ::
  "mirror_source \<Rightarrow> cell_tables option \<Rightarrow> origin list \<Rightarrow> (origin \<rightharpoonup> u64) \<Rightarrow> cache \<Rightarrow> (((origin \<rightharpoonup> u64) \<times> cache) result) option" where
  "recover_origins src tables [] heads c = Some (Inr (heads, c))"
| "recover_origins src tables (orig # origins) heads c =
     (if orig = self c then recover_origins src tables origins heads c
      else
        (case mJournal src orig of
           Inl e \<Rightarrow> Some (Inl e)
         | Inr j \<Rightarrow>
             let startOff = AlignResume j (SnapshotMarker c orig); head = Head j in
             if head \<le> startOff then recover_origins src tables origins (heads(orig \<mapsto> head)) c
             else
               (case journal_scan (mirror_record tables orig) head j (Iterate j startOff) c of
                  None \<Rightarrow> None
                | Some (Inl e) \<Rightarrow> Some (Inl e)
                | Some (Inr c) \<Rightarrow> recover_origins src tables origins (heads(orig \<mapsto> head)) c)))"

definition RecoverMirror ::
  "cache \<Rightarrow> mirror_source \<Rightarrow> cell_tables option \<Rightarrow> (((origin \<rightharpoonup> u64) \<times> cache) result) option" where
  "RecoverMirror c src tables = recover_origins src tables (mOrigins src) Map.empty c"

section \<open>The node's own log\<close>

record 'b self_scan =
  ssCache :: cache
  ssBlobs :: 'b
  ssMaxSeq :: seq
  ssLegacy :: nat
  ssMarker :: u64

definition replaySelf :: "cell_tables option \<Rightarrow> changeset \<Rightarrow> cache \<Rightarrow> cache" where
  "replaySelf tables cs c =
     fold (\<lambda>r c. case r of BlobPatch _ _ _ _ _ \<Rightarrow> c | _ \<Rightarrow> replayRecord tables (csStamp cs) r c) (csRecords cs) c"

definition self_record ::
  "cell_tables option \<Rightarrow> (cache \<Rightarrow> changeset \<Rightarrow> 'b \<Rightarrow> 'b result) option \<Rightarrow> origin \<Rightarrow> journal_record \<Rightarrow>
   'b self_scan \<Rightarrow> 'b self_scan result" where
  "self_record tables blobs me rec st =
     (if RKind rec \<noteq> KindMirror \<or> Aborted rec then Inr st
      else if RHLC rec = 0 then Inr (st\<lparr>ssLegacy := ssLegacy st + 1\<rparr>)
      else bindE (Decode (RPayload rec)) (\<lambda>cs.
        if DotOrigin (csDot cs) \<noteq> me then Inl (ErrPayloadOrigin me (DotOrigin (csDot cs)))
        else
          let c = ObserveHLC (ObserveSelfSeq (ssCache st) me (DotSeq (csDot cs))) (StampClock (csStamp cs)) in
          bindE (case blobs of None \<Rightarrow> Inr (ssBlobs st) | Some replay \<Rightarrow> replay c cs (ssBlobs st)) (\<lambda>b.
            Inr (st\<lparr>ssCache := replaySelf tables cs c, ssBlobs := b,
                    ssMaxSeq := (if DotSeq (csDot cs) > ssMaxSeq st then DotSeq (csDot cs) else ssMaxSeq st),
                    ssMarker := (if RHLC rec > ssMarker st then RHLC rec else ssMarker st)\<rparr>))))"

definition self_finish :: "seq \<Rightarrow> origin \<Rightarrow> 'b self_scan \<Rightarrow> (cache \<times> 'b) result" where
  "self_finish claimedNext me st =
     (if ssLegacy st = 0 \<and> claimedNext > 1 \<and> ssMaxSeq st < claimedNext - 1
      then Inl (ErrSelfLogUncaptured (ssMaxSeq st) claimedNext)
      else Inr (SetSnapshotMarker (ssCache st) me (ssMarker st), ssBlobs st))"

definition RecoverSelf ::
  "cache \<Rightarrow> journal \<Rightarrow> cell_tables option \<Rightarrow> (cache \<Rightarrow> changeset \<Rightarrow> 'b \<Rightarrow> 'b result) option \<Rightarrow> 'b \<Rightarrow> ((cache \<times> 'b) result) option" where
  "RecoverSelf c j tables blobs b =
     (let me = self c;
          st = \<lparr>ssCache = c, ssBlobs = b, ssMaxSeq = 0, ssLegacy = 0, ssMarker = SnapshotMarker c me\<rparr> in
      case journal_scan (self_record tables blobs me) (Head j) j (Iterate j 0) st of
        None \<Rightarrow> None
      | Some (Inl e) \<Rightarrow> Some (Inl e)
      | Some (Inr st) \<Rightarrow> Some (self_finish (SenderNextSeq c me) me st))"

section \<open>A walk is a fold over the log\<close>

lemma unat_u64_of_nat_eq: "b < 2 ^ 64 \<Longrightarrow> unat (word_of_nat b :: u64) = b"
  by (simp add: unat_of_nat)

lemma unat_makeOffset: "b < 2 ^ 32 \<Longrightarrow> unat (makeOffset n b) = unat n * 2 ^ 32 + b"
proof -
  assume b: "b < 2 ^ 32"
  have m: "(0xFFFFFFFF :: u64) = mask 32" by (simp add: mask_eq_exp_minus_1)
  have nlt: "unat n < 2 ^ 32" by (rule order_less_le_trans [OF unsigned_less]) simp
  have "bit (push_bit 32 (ucast n) :: u64) k \<Longrightarrow> \<not> bit (word_of_nat b AND mask 32 :: u64) k" for k
    by (auto simp: bit_simps)
  then have "makeOffset n b = push_bit 32 (ucast n) + (word_of_nat b AND mask 32)"
    unfolding makeOffset_def m by (intro disjunctive_add [symmetric]) auto
  also have "\<dots> = word_of_nat (unat n * 2 ^ 32 + b)"
  proof -
    have "take_bit 32 (word_of_nat b :: u64) = word_of_nat b"
      using b by (simp add: word_unat_eq_iff unsigned_take_bit_eq unat_of_nat take_bit_nat_eq_self)
    then have "(word_of_nat b AND mask 32 :: u64) = word_of_nat b" by (simp add: take_bit_eq_mask)
    moreover have "push_bit 32 (ucast n :: u64) = word_of_nat (unat n * 2 ^ 32)"
      by (simp add: push_bit_eq_mult)
    ultimately show ?thesis by simp
  qed
  finally have "makeOffset n b = word_of_nat (unat n * 2 ^ 32 + b)" .
  moreover have "unat n * 2 ^ 32 + b < 2 ^ 64" using b nlt by simp
  ultimately show ?thesis using unat_u64_of_nat_eq by presburger
qed

lemma log_pos_unat:
  assumes "segs_ok j logs" and "i < length logs"
  shows "unat (log_pos j logs i k) = unat (segNum (jSegments j ! i)) * 2 ^ 32 + (64 + recs_len (take k (logs ! i)))"
    and "64 + recs_len (logs ! i) < 2 ^ 32" and "recs_len (take k (logs ! i)) \<le> recs_len (logs ! i)"
proof -
  show le: "recs_len (take k (logs ! i)) \<le> recs_len (logs ! i)"
    by (metis append_take_drop_id le_add1 recs_len_simps(3))
  obtain data n where o: "seg_file data (logs ! i) (replicate n 0)"
    using segs_okD(4) [OF assms] by (rule seg_okE)
  show lt: "64 + recs_len (logs ! i) < 2 ^ 32" using seg_file_len [OF o] seg_file_small [OF o] by simp
  show "unat (log_pos j logs i k) = unat (segNum (jSegments j ! i)) * 2 ^ 32 + (64 + recs_len (take k (logs ! i)))"
    unfolding log_pos_def using le lt by (intro unat_makeOffset) simp
qed

lemma seg_nums:
  assumes "segs_ok j logs"
  obtains b where "\<forall>i < length logs. unat (segNum (jSegments j ! i)) = b + i" "b + length logs < 2 ^ 32"
proof -
  have len: "length (jSegments j) = length logs" using assms by (auto simp: segs_ok_def list_all2_lengthD)
  obtain b where b: "b + length (jSegments j) < 2 ^ 32"
    and m: "map segNum (jSegments j) = map word_of_nat [b..<b + length (jSegments j)]"
    using assms by (auto simp: segs_ok_def consecutive_def)
  have "unat (segNum (jSegments j ! i)) = b + i" if "i < length logs" for i
  proof -
    have "segNum (jSegments j ! i) = word_of_nat (b + i)" using arg_cong [OF m, of "\<lambda>xs. xs ! i"] that len by simp
    then show ?thesis using b that len unat_u32_of_nat_eq [of "b + i"] by simp
  qed
  then show ?thesis using that [of b] b len by simp
qed

lemma Head_log_pos:
  assumes "jbase j logs"
  shows "Head j = log_pos j logs (length logs - 1) (length (logs ! (length logs - 1)))"
proof -
  have segs: "segs_ok j logs" using assms by (simp add: jbase_def)
  then have len: "length (jSegments j) = length logs" "logs \<noteq> []" by (auto simp: segs_ok_def list_all2_lengthD)
  let ?i = "length logs - 1"
  have i: "?i < length logs" using len(2) by simp
  have last: "last (jSegments j) = jSegments j ! ?i" using len by (metis last_conv_nth length_0_conv)
  then have "activeSegment j = Inr (jSegments j ! ?i)"
    using assms segs_okD(2) [OF segs i] by (simp add: jbase_def activeSegment_def)
  then show ?thesis using segs_okD(4) [OF segs i] by (simp add: Head_def log_pos_def seg_ok_def)
qed

lemma log_pos_le_Head:
  assumes "jbase j logs" and "i < length logs"
  shows "log_pos j logs i k \<le> Head j"
proof -
  have segs: "segs_ok j logs" using assms(1) by (simp add: jbase_def)
  let ?l = "length logs - 1"
  have l: "?l < length logs" using assms(2) by simp
  obtain b where b: "\<forall>i < length logs. unat (segNum (jSegments j ! i)) = b + i" using seg_nums [OF segs] by blast
  note p = log_pos_unat(1) [OF segs assms(2), of k] log_pos_unat(2) [OF segs assms(2)] log_pos_unat(3) [OF segs assms(2), of k]
    and q = log_pos_unat(1) [OF segs l, of "length (logs ! ?l)"]
  show ?thesis
  proof (cases "i = ?l")
    case True
    then show ?thesis unfolding Head_log_pos [OF assms(1)] word_le_nat_alt using p q by simp
  next
    case False
    then have "Suc i \<le> ?l" using assms(2) by simp
    then have "(b + i) * 2 ^ 32 + 2 ^ 32 \<le> (b + ?l) * (2 :: nat) ^ 32" by (simp add: algebra_simps)
    then show ?thesis unfolding Head_log_pos [OF assms(1)] word_le_nat_alt using p q b assms(2) l by simp
  qed
qed

lemma same_next:
  assumes "Iterator_Next j a = Iterator_Next j b"
  shows "collect j a = collect j b" and "journal_scan step h j a st = journal_scan step h j b st"
  by (simp_all add: collect.simps [of j a] collect.simps [of j b] journal_scan.simps [of step h j a]
      journal_scan.simps [of step h j b] assms)

lemma Min_insert_min: "finite A \<Longrightarrow> Min (insert (min a b) A) = Min (insert a (insert (b :: u32) A))"
  by (cases "A = {}") (simp_all add: min.assoc)

lemma successor_eq:
  "successor j num = (let G = {n \<in> segNum ` set (jSegments j). num < n} in if G = {} then None else Some (Min G))"
proof -
  define f where "f = (\<lambda>nxt (s :: segment). if segNum s > num then (case nxt of None \<Rightarrow> Some (segNum s)
              | Some m \<Rightarrow> if segNum s < m then Some (segNum s) else Some m) else nxt)"
  have "foldl f acc segs = (let G = set_option acc \<union> {n \<in> segNum ` set segs. num < n} in if G = {} then None else Some (Min G))" for acc segs
  proof (induction segs arbitrary: acc)
    case Nil
    then show ?case by (cases acc) (simp_all add: Let_def)
  next
    case (Cons s segs)
    let ?G = "{n \<in> segNum ` set segs. num < n}"
    have fin: "finite ?G" by simp
    show ?case
    proof (cases "num < segNum s")
      case False
      then have "{n \<in> segNum ` set (s # segs). num < n} = ?G" by auto
      then show ?thesis using Cons [of acc] False by (simp add: f_def)
    next
      case True
      then have g: "{n \<in> segNum ` set (s # segs). num < n} = insert (segNum s) ?G" by auto
      show ?thesis
      proof (cases acc)
        case None
        then show ?thesis using Cons [of "Some (segNum s)"] True g by (simp add: f_def)
      next
        case (Some m)
        have "f acc s = Some (min m (segNum s))" using True Some by (auto simp: f_def min_def)
        moreover have "Min (insert (min m (segNum s)) ?G) = Min (insert m (insert (segNum s) ?G))"
          using fin by (rule Min_insert_min)
        ultimately show ?thesis using Cons [of "Some (min m (segNum s))"] Some g
          by (simp add: Let_def insert_commute)
      qed
    qed
  qed
  from this [of None "jSegments j"] show ?thesis by (simp add: successor_def f_def)
qed

lemma successor_next:
  assumes "segs_ok j logs" and "Suc i < length logs"
  shows "successor j (segNum (jSegments j ! i)) = Some (segNum (jSegments j ! Suc i))"
proof -
  have len: "length (jSegments j) = length logs" using assms(1) by (auto simp: segs_ok_def list_all2_lengthD)
  obtain b where b: "\<forall>i < length logs. unat (segNum (jSegments j ! i)) = b + i" using seg_nums [OF assms(1)] by blast
  let ?G = "{n \<in> segNum ` set (jSegments j). segNum (jSegments j ! i) < n}"
  have mem: "segNum (jSegments j ! Suc i) \<in> ?G" using assms(2) len b by (auto simp: word_less_nat_alt)
  have "segNum (jSegments j ! Suc i) \<le> n" if n: "n \<in> ?G" for n
  proof -
    obtain t where "t \<in> set (jSegments j)" "n = segNum t" using n by auto
    then obtain k where "k < length logs" "n = segNum (jSegments j ! k)" using len by (auto simp: in_set_conv_nth)
    then show ?thesis using n b assms(2) by (auto simp: word_less_nat_alt word_le_nat_alt)
  qed
  then have "Min ?G = segNum (jSegments j ! Suc i)" using mem by (intro Min_eqI) auto
  then show ?thesis using mem by (auto simp: successor_eq Let_def)
qed

lemma next_past_seal:
  assumes "segs_ok j logs" and "i < length logs" and "is_sealed (logs ! i)"
  shows "Iterator_Next j (log_pos j logs i (length (logs ! i))) =
      Some (j, log_pos j logs i (length (logs ! i)), Inl ErrPending) \<or>
    (Suc i < length logs \<longrightarrow> Iterator_Next j (log_pos j logs i (length (logs ! i))) = Iterator_Next j (log_pos j logs (Suc i) 0))"
proof -
  have "segment_next (jFiles j) (jSegments j ! i) (64 + recs_len (logs ! i)) \<in> {Inl ErrPending, Inl ErrEOF}"
    by (rule seg_next_end [OF segs_okD(4) [OF assms(1,2)]])
  then show ?thesis
    using successor_next [OF assms(1), of i]
    by (auto simp: Iterator_Next.simps [of j "log_pos j logs i (length (logs ! i))"] log_pos_parts [OF assms(1,2)]
        segs_okD(2) [OF assms(1,2)] Let_def log_pos_def [of j logs "Suc i"])
qed

lemma scan_collect:
  assumes base: "jbase j logs"
  shows "i < length logs \<Longrightarrow> k \<le> length (logs ! i) \<Longrightarrow> \<exists>e rs. collect j (log_pos j logs i k) = Some (j, e, rs) \<and>
    (\<forall>st. journal_scan step (Head j) j (log_pos j logs i k) st = Some (foldE step rs st))"
proof (induction "length logs - i" arbitrary: i k rule: less_induct)
  case less
  have segs: "segs_ok j logs" and last: "\<not> is_sealed (last logs)" using base by (simp_all add: jbase_def)
  have ok: "log_ok (logs ! i)" using segs_okD(4) [OF segs less.prems(1)] by (auto simp: seg_ok_def seg_file_def)
  have next_seg: "Suc i < length logs" if "is_sealed (logs ! i)"
    using that last less.prems(1) by (metis Suc_lessI diff_Suc_1 last_conv_nth length_0_conv not_less_zero)
  have jump: "\<exists>e rs. collect j a = Some (j, e, rs) \<and> (\<forall>st. journal_scan step (Head j) j a st = Some (foldE step rs st))"
    if "Iterator_Next j a = Iterator_Next j (log_pos j logs (Suc i) 0)" "Suc i < length logs" for a
    unfolding same_next [OF that(1)] using less.hyps [of "Suc i" 0] that(2) by simp
  have stop: "\<exists>e rs. collect j a = Some (j, e, rs) \<and> (\<forall>st. journal_scan step (Head j) j a st = Some (foldE step rs st))"
    if "Iterator_Next j a = Some (j, a, Inl ErrPending)" for a
  proof -
    have "collect j a = Some (j, ErrPending, [])" by (subst collect.simps) (simp add: that)
    moreover have "journal_scan step (Head j) j a st = Some (Inr st)" for st by (subst journal_scan.simps) (simp add: that)
    ultimately show ?thesis by (intro exI [of _ ErrPending] exI [of _ "[]"]) simp
  qed
  from less.prems(2) show ?case
  proof (induction rule: inc_induct)
    case base
    then show ?case
      using next_end [OF segs less.prems(1)] next_past_seal [OF segs less.prems(1)] next_seg jump stop by metis
  next
    case (step k)
    show ?case
    proof (cases "RKind (logs ! i ! k) = KindSeal")
      case True
      then have "Suc i < length logs" using next_seg take_sealed [OF ok step.hyps(2)] by blast
      then show ?thesis using next_seal [OF segs _ step.hyps(2) True] jump by blast
    next
      case False
      obtain e rs where ih: "collect j (log_pos j logs i (Suc k)) = Some (j, e, rs)"
        "\<forall>st. journal_scan step (Head j) j (log_pos j logs i (Suc k)) st = Some (foldE step rs st)"
        using step.IH by blast
      note nr = next_record [OF segs less.prems(1) step.hyps(2) False]
      have "\<not> log_pos j logs i (Suc k) > Head j" using log_pos_le_Head [OF base less.prems(1)] by (simp add: not_less)
      then have "journal_scan step (Head j) j (log_pos j logs i k) st = Some (foldE step (logs ! i ! k # rs) st)" for st
        using ih(2) nr by (subst journal_scan.simps) (auto split: sum.split)
      moreover have "collect j (log_pos j logs i k) = Some (j, e, logs ! i ! k # rs)"
        using ih(1) nr by (subst collect.simps) simp
      ultimately show ?thesis by blast
    qed
  qed
qed

lemma align_pos:
  assumes "jbase j logs"
  obtains i k where "i < length logs" "k \<le> length (logs ! i)" "AlignResume j off = log_pos j logs i k"
proof -
  have segs: "segs_ok j logs" using assms by (simp add: jbase_def)
  then have len: "length (jSegments j) = length logs" "0 < length logs" by (auto simp: segs_ok_def list_all2_lengthD)
  have start: "log_pos j logs i 0 = makeOffset (segNum (jSegments j ! i)) 64" for i by (simp add: log_pos_def)
  obtain oldest segs' where o: "jSegments j = oldest # segs'" using len by (cases "jSegments j") auto
  have old: "makeOffset (segNum oldest) 64 = log_pos j logs 0 0" by (simp add: start o)
  show ?thesis
  proof (cases "off = 0 \<or> findSegment j (Offset_seg off) = None")
    case True
    then have "AlignResume j off = log_pos j logs 0 0" unfolding old [symmetric] by (auto simp: AlignResume_def o Let_def)
    then show ?thesis using len that [of 0 0] by simp
  next
    case False
    then obtain s where s: "findSegment j (Offset_seg off) = Some s" "off \<noteq> 0" by auto
    then have mem: "s \<in> set (jSegments j)" "segNum s = Offset_seg off"
      by (auto simp: findSegment_def find_Some_iff)
    then obtain i where i: "i < length logs" "s = jSegments j ! i" using len by (auto simp: in_set_conv_nth)
    show ?thesis
    proof (cases "64 \<le> Offset_byteOff off")
      case True
      then show ?thesis using align_in_segment [OF segs i(1), of off] mem(2) i that by metis
    next
      case small: False
      then have "AlignResume j off = makeOffset (segNum s) 64" using s by (simp add: AlignResume_def o Let_def)
      then show ?thesis using start i that [of i 0] by simp
    qed
  qed
qed

section \<open>Replaying a mirror journal\<close>

definition mirror_payload :: "journal_record \<Rightarrow> changeset option" where
  "mirror_payload rec =
     (if RKind rec \<noteq> KindMirror \<or> Aborted rec then None
      else case Decode (RPayload rec) of Inl _ \<Rightarrow> None | Inr cs \<Rightarrow> Some cs)"

definition payloads :: "journal_record list \<Rightarrow> changeset set" where
  "payloads rs = {cs. \<exists>rec \<in> set rs. mirror_payload rec = Some cs}"

text \<open>What a mirror journal of \<open>orig\<close> holds: changesets of that origin, with a positive sequence number.\<close>

definition mirror_ok :: "origin \<Rightarrow> journal_record \<Rightarrow> bool" where
  "mirror_ok orig rec \<longleftrightarrow> RKind rec \<noteq> KindMirror \<or> Aborted rec \<or>
     (case Decode (RPayload rec) of Inl e \<Rightarrow> \<not> is_panic e
      | Inr cs \<Rightarrow> DotOrigin (csDot cs) = orig \<and> 0 < DotSeq (csDot cs))"

definition fresh_cs :: "cache \<Rightarrow> changeset \<Rightarrow> bool" where
  "fresh_cs c cs \<longleftrightarrow> DotSeq (csDot cs) \<notin> applied c (DotOrigin (csDot cs))"

definition fronts_ok :: "cache \<Rightarrow> bool" where
  "fronts_ok c \<longleftrightarrow> (\<forall>orig. front_ok c orig)"

lemma frontier_of_replay: "frontier_of (fold (replayRecord tables s) rs c) orig = frontier_of c orig"
  and self_replay: "self (fold (replayRecord tables s) rs c) = self c"
  and marker_replay: "snapshotMarkers (fold (replayRecord tables s) rs c) = snapshotMarkers c"
proof -
  have "clocks_only c (fold (replayRecord tables s) rs c)"
    by (rule clocks_only_fold) (rule clocks_only_replay)
  from clocks_only_same [OF this] show
    "frontier_of (fold (replayRecord tables s) rs c) orig = frontier_of c orig"
    "self (fold (replayRecord tables s) rs c) = self c"
    "snapshotMarkers (fold (replayRecord tables s) rs c) = snapshotMarkers c"
    by (simp_all add: frontier_of_def front_at_def gaps_at_def)
qed

lemma replayMirror_frontier:
  assumes "fronts_ok c" and "DotSeq (csDot cs) \<notin> applied c (DotOrigin (csDot cs))" and "0 < DotSeq (csDot cs)"
  shows "fronts_ok (replayMirror tables cs c)" and "self (replayMirror tables cs c) = self c"
    and "snapshotMarkers (replayMirror tables cs c) = snapshotMarkers c"
    and "applied (replayMirror tables cs c) orig =
      applied c orig \<union> (if orig = DotOrigin (csDot cs) then {DotSeq (csDot cs)} else {})"
proof -
  let ?c = "fold (replayRecord tables (csStamp cs)) (csRecords cs) c" and ?o = "DotOrigin (csDot cs)" and ?s = "DotSeq (csDot cs)"
  let ?m = "markAppliedLocked ?c ?o ?s (StampClock (csStamp cs))"
  have e: "replayMirror tables cs c = ?m" by (simp add: replayMirror_def MarkApplied_def)
  have same: "front_ok ?c orig = front_ok c orig" "applied ?c orig = applied c orig" for orig
    by (simp_all add: front_ok_def applied_def frontier_of_replay)
  have mc: "front_ok ?m ?o" "applied ?m ?o = insert ?s (applied c ?o)"
    using mark_correct [of ?c ?o ?s "StampClock (csStamp cs)"] assms same by (simp_all add: fronts_ok_def)
  have others: "frontier_of ?m orig = frontier_of c orig" if "orig \<noteq> ?o" for orig
    using that by (simp add: frontier_of_mark frontier_of_replay)
  show "fronts_ok (replayMirror tables cs c)"
    unfolding e fronts_ok_def using mc(1) others assms(1) by (metis front_ok_def fronts_ok_def)
  show "applied (replayMirror tables cs c) orig = applied c orig \<union> (if orig = ?o then {?s} else {})"
    unfolding e using mc(2) others by (cases "orig = ?o") (simp_all add: applied_def)
  show "self (replayMirror tables cs c) = self c" "snapshotMarkers (replayMirror tables cs c) = snapshotMarkers c"
    unfolding e by (simp_all add: self_replay marker_replay markApplied_fields)
qed

definition replayed :: "cell_tables option \<Rightarrow> changeset set \<Rightarrow> changeset list \<Rightarrow> cache \<Rightarrow> cache \<Rightarrow> bool" where
  "replayed tables P xs c c' \<longleftrightarrow> c' = fold (replayMirror tables) xs c \<and> fronts_ok c' \<and> self c' = self c \<and>
     snapshotMarkers c' = snapshotMarkers c \<and>
     (\<forall>d. DotSeq d \<in> applied c' (DotOrigin d) \<longleftrightarrow> DotSeq d \<in> applied c (DotOrigin d) \<or> d \<in> csDot ` set xs) \<and>
     set xs \<subseteq> {cs \<in> P. fresh_cs c cs} \<and> csDot ` {cs \<in> P. fresh_cs c cs} \<subseteq> csDot ` set xs"

lemma replayed_same:
  assumes "replayed tables P xs c c'"
  shows "fronts_ok c'" "self c' = self c" "snapshotMarkers c' = snapshotMarkers c" "SnapshotMarker c' = SnapshotMarker c"
proof -
  show same: "fronts_ok c'" "self c' = self c" "snapshotMarkers c' = snapshotMarkers c" using assms unfolding replayed_def by blast+
  show "SnapshotMarker c' = SnapshotMarker c" by (rule ext) (simp add: SnapshotMarker_def same)
qed

lemma replayed_refl: "fronts_ok c \<Longrightarrow> \<forall>cs \<in> P. \<not> fresh_cs c cs \<Longrightarrow> replayed tables P [] c c"
  by (auto simp: replayed_def)

lemma replayed_fresh:
  "replayed tables P xs c c' \<Longrightarrow> fresh_cs c' cs \<longleftrightarrow> fresh_cs c cs \<and> csDot cs \<notin> csDot ` set xs"
  unfolding replayed_def fresh_cs_def by blast

lemma replayed_trans:
  assumes a: "replayed tables P xs c c'" and b: "replayed tables Q ys c' c''"
  shows "replayed tables (P \<union> Q) (xs @ ys) c c''"
proof -
  note f = replayed_fresh [OF a]
  have "set ys \<subseteq> {cs \<in> Q. fresh_cs c cs}" using b f by (auto simp: replayed_def)
  moreover have "csDot ` {cs \<in> Q. fresh_cs c cs} \<subseteq> csDot ` set xs \<union> csDot ` set ys"
    using b f unfolding replayed_def by blast
  ultimately show ?thesis using a b unfolding replayed_def by auto
qed

lemma mirror_step:
  assumes "fronts_ok c" and "orig \<noteq> self c" and "mirror_ok orig rec"
  shows "\<exists>xs c'. mirror_record tables orig rec c = Inr c' \<and> replayed tables (payloads [rec]) xs c c'"
proof (cases "mirror_payload rec")
  case None
  then have "mirror_record tables orig rec c = Inr c"
    using assms(3) by (auto simp: mirror_payload_def mirror_record_def mirror_ok_def split: sum.splits)
  moreover have "payloads [rec] = {}" using None by (simp add: payloads_def)
  ultimately show ?thesis using replayed_refl [OF assms(1)] by fastforce
next
  case (Some cs)
  then have d: "RKind rec = KindMirror" "\<not> Aborted rec" "Decode (RPayload rec) = Inr cs"
    by (auto simp: mirror_payload_def split: if_splits sum.splits)
  then have cs: "DotOrigin (csDot cs) = orig" "0 < DotSeq (csDot cs)" using assms(3) by (auto simp: mirror_ok_def)
  have P: "payloads [rec] = {cs}" using Some by (simp add: payloads_def)
  have ok: "front_ok c orig" using assms(1) by (simp add: fronts_ok_def)
  have step: "mirror_record tables orig rec c = Inr (if fresh_cs c cs then replayMirror tables cs c else c)"
    using d cs IsAppliedRemote_iff [OF ok cs(2) assms(2)] by (simp add: mirror_record_def fresh_cs_def)
  show ?thesis
  proof (cases "fresh_cs c cs")
    case True
    note r = replayMirror_frontier [OF assms(1) True [unfolded fresh_cs_def] cs(2), of tables]
    have "DotSeq d \<in> applied (replayMirror tables cs c) (DotOrigin d) \<longleftrightarrow> DotSeq d \<in> applied c (DotOrigin d) \<or> d = csDot cs" for d
      unfolding r(4) by (auto intro: dot.expand)
    moreover have "{cs' \<in> {cs}. fresh_cs c cs'} = {cs}" using True by auto
    ultimately have "replayed tables {cs} [cs] c (replayMirror tables cs c)"
      using r(1-3) unfolding replayed_def by (simp del: mem_Collect_eq)
    then show ?thesis using step True P by auto
  next
    case False
    then show ?thesis using step P replayed_refl [OF assms(1)] by force
  qed
qed

lemma mirror_fold:
  "fronts_ok c \<Longrightarrow> orig \<noteq> self c \<Longrightarrow> \<forall>rec \<in> set rs. mirror_ok orig rec \<Longrightarrow>
    \<exists>xs c'. foldE (mirror_record tables orig) rs c = Inr c' \<and> replayed tables (payloads rs) xs c c'"
proof (induction rs arbitrary: c)
  case Nil
  then show ?case using replayed_refl [of c "{}"] by (auto simp: payloads_def)
next
  case (Cons rec rs)
  obtain xs c' where x: "mirror_record tables orig rec c = Inr c'" "replayed tables (payloads [rec]) xs c c'"
    using mirror_step [of c orig rec tables] Cons.prems by auto
  then have "fronts_ok c'" "orig \<noteq> self c'" using Cons.prems replayed_same by auto
  then obtain ys c'' where y: "foldE (mirror_record tables orig) rs c' = Inr c''" "replayed tables (payloads rs) ys c' c''"
    using Cons.IH [of c'] Cons.prems by auto
  have "payloads (rec # rs) = payloads [rec] \<union> payloads rs" by (auto simp: payloads_def)
  then show ?case using replayed_trans [OF x(2) y(2)] x(1) y(1) by auto
qed

section \<open>Every mirror journal\<close>

definition journal_tail :: "journal \<Rightarrow> u64 \<Rightarrow> journal_record list" where
  "journal_tail j off = (case collect j (Iterate j (AlignResume j off)) of None \<Rightarrow> [] | Some (_, _, rs) \<Rightarrow> rs)"

definition unread :: "mirror_source \<Rightarrow> cache \<Rightarrow> origin \<Rightarrow> journal_record list" where
  "unread src c orig =
     (if orig = self c then []
      else case mJournal src orig of Inl _ \<Rightarrow> [] | Inr j \<Rightarrow> journal_tail j (SnapshotMarker c orig))"

definition mirrors_ok :: "mirror_source \<Rightarrow> cache \<Rightarrow> bool" where
  "mirrors_ok src c \<longleftrightarrow> (\<forall>orig \<in> set (mOrigins src). orig \<noteq> self c \<longrightarrow>
     (\<exists>j logs. mJournal src orig = Inr j \<and> jbase j logs) \<and> (\<forall>rec \<in> set (unread src c orig). mirror_ok orig rec))"

definition mirror_head :: "mirror_source \<Rightarrow> origin \<Rightarrow> u64" where
  "mirror_head src orig = (case mJournal src orig of Inl _ \<Rightarrow> 0 | Inr j \<Rightarrow> Head j)"

lemma Iterate_log_pos:
  assumes "segs_ok j logs" and "i < length logs"
  shows "Iterate j (log_pos j logs i k) = log_pos j logs i k"
proof -
  have "unat (log_pos j logs i k) \<noteq> 0" using log_pos_unat(1) [OF assms] by simp
  then show ?thesis by (auto simp: Iterate_def)
qed

lemma at_head_empty:
  assumes base: "jbase j logs" and i: "i < length logs" and k: "k \<le> length (logs ! i)" and "Head j \<le> log_pos j logs i k"
  shows "collect j (log_pos j logs i k) = Some (j, ErrPending, [])"
proof -
  have segs: "segs_ok j logs" and last: "\<not> is_sealed (last logs)" using base by (simp_all add: jbase_def)
  let ?l = "length logs - 1"
  have l: "?l < length logs" "last logs = logs ! ?l" using i last_conv_nth [of logs] by (cases logs; simp)+
  obtain b where b: "\<forall>i < length logs. unat (segNum (jSegments j ! i)) = b + i" using seg_nums [OF segs] by blast
  note p = log_pos_unat(1) [OF segs i, of k] log_pos_unat(2) [OF segs i] log_pos_unat(3) [OF segs i, of k]
    and q = log_pos_unat(1) [OF segs l(1), of "length (logs ! ?l)"]
  have le: "unat (Head j) \<le> unat (log_pos j logs i k)" using assms(4) by (simp add: word_le_nat_alt)
  have "i = ?l"
  proof (rule ccontr)
    assume "i \<noteq> ?l"
    then have "(b + Suc i) * 2 ^ 32 \<le> (b + ?l) * 2 ^ 32" using i by simp
    then show False using le p q b i l by (simp add: Head_log_pos [OF base])
  qed
  moreover have "k = length (logs ! i)"
  proof (rule ccontr)
    assume "k \<noteq> length (logs ! i)"
    then have "k < length (logs ! i)" using k by simp
    then have "recs_len (take k (logs ! i)) < recs_len (logs ! i)"
      using recs_len_take_less [of k "logs ! i"] rec_len_ge [of "logs ! i ! k"] by linarith
    then show False using le p q \<open>i = ?l\<close> by (simp add: Head_log_pos [OF base])
  qed
  ultimately have "Iterator_Next j (log_pos j logs i k) = Some (j, log_pos j logs i k, Inl ErrPending)"
    using next_end [OF segs i] last l(2) by simp
  then show ?thesis by (subst collect.simps) simp
qed

lemma tail_scan:
  assumes "jbase j logs"
  shows "Head j \<le> AlignResume j off \<Longrightarrow> journal_tail j off = []"
    and "journal_scan step (Head j) j (Iterate j (AlignResume j off)) st = Some (foldE step (journal_tail j off) st)"
proof -
  have segs: "segs_ok j logs" using assms by (simp add: jbase_def)
  obtain i k where p: "i < length logs" "k \<le> length (logs ! i)" "AlignResume j off = log_pos j logs i k"
    using align_pos [OF assms] by blast
  note it = Iterate_log_pos [OF segs p(1)]
  show "journal_tail j off = []" if "Head j \<le> AlignResume j off"
    using at_head_empty [OF assms p(1,2)] that by (simp add: journal_tail_def p(3) it)
  show "journal_scan step (Head j) j (Iterate j (AlignResume j off)) st = Some (foldE step (journal_tail j off) st)"
    using scan_collect [OF assms p(1,2), of step] by (auto simp: journal_tail_def p(3) it)
qed

definition heads_after :: "mirror_source \<Rightarrow> origin \<Rightarrow> origin list \<Rightarrow> (origin \<rightharpoonup> u64) \<Rightarrow> (origin \<rightharpoonup> u64)" where
  "heads_after src me origins heads =
     (\<lambda>orig. if orig \<in> set origins \<and> orig \<noteq> me then Some (mirror_head src orig) else heads orig)"

lemma heads_after_Cons:
  "heads_after src me (orig # origins) heads =
    heads_after src me origins (if orig = me then heads else heads(orig \<mapsto> mirror_head src orig))"
  by (auto simp: heads_after_def fun_eq_iff)

lemma recover_origins_run:
  "fronts_ok c \<Longrightarrow> mirrors_ok (src\<lparr>mOrigins := origins\<rparr>) c \<Longrightarrow>
    \<exists>xs c'. recover_origins src tables origins heads c =
        Some (Inr (heads_after src (self c) origins heads, c')) \<and>
      replayed tables (\<Union>orig \<in> set origins. payloads (unread src c orig)) xs c c'"
proof (induction origins arbitrary: c heads)
  case Nil
  have "replayed tables {} [] c c" using Nil(1) by (intro replayed_refl) simp_all
  then show ?case by (auto simp: heads_after_def)
next
  case (Cons orig origins)
  have rest: "mirrors_ok (src\<lparr>mOrigins := origins\<rparr>) c" using Cons.prems(2) by (auto simp: mirrors_ok_def unread_def)
  show ?case
  proof (cases "orig = self c")
    case True
    then have "payloads (unread src c orig) = {}" by (simp add: unread_def payloads_def)
    then show ?thesis using Cons.IH [OF Cons.prems(1) rest] True by (simp add: heads_after_Cons)
  next
    case False
    obtain j logs where j: "mJournal src orig = Inr j" "jbase j logs" using Cons.prems(2) False by (auto simp: mirrors_ok_def)
    let ?rs = "unread src c orig"
    have rs: "?rs = journal_tail j (SnapshotMarker c orig)" using j False by (simp add: unread_def)
    have ok: "\<forall>rec \<in> set ?rs. mirror_ok orig rec" using Cons.prems(2) False by (auto simp: mirrors_ok_def unread_def)
    obtain xs c' where x: "foldE (mirror_record tables orig) ?rs c = Inr c'" "replayed tables (payloads ?rs) xs c c'"
      using mirror_fold [OF Cons.prems(1) False ok] by blast
    have same: "fronts_ok c'" "self c' = self c" "unread src c' = unread src c"
      using replayed_same [OF x(2)] by (simp_all add: unread_def fun_eq_iff split: sum.split)
    have "unread (src\<lparr>mOrigins := origins\<rparr>) = unread src" by (simp add: unread_def fun_eq_iff)
    then have "mirrors_ok (src\<lparr>mOrigins := origins\<rparr>) c'"
      using rest same(2,3) by (simp add: mirrors_ok_def)
    note ih = Cons.IH [OF same(1) this, of "heads(orig \<mapsto> Head j)"]
    have step: "recover_origins src tables (orig # origins) heads c =
        recover_origins src tables origins (heads(orig \<mapsto> Head j)) c'"
    proof (cases "Head j \<le> AlignResume j (SnapshotMarker c orig)")
      case True
      then have "c' = c" using x(1) tail_scan(1) [OF j(2) True] by (simp add: rs)
      then show ?thesis using True False j(1) by (simp add: Let_def)
    next
      case head: False
      show ?thesis using x(1) head False j(1)
        by (simp add: Let_def rs tail_scan(2) [OF j(2), of "mirror_record tables orig"])
    qed
    obtain ys c'' where y: "recover_origins src tables origins (heads(orig \<mapsto> Head j)) c' =
        Some (Inr (heads_after src (self c') origins (heads(orig \<mapsto> Head j)), c''))"
      "replayed tables (\<Union>o' \<in> set origins. payloads (unread src c' o')) ys c' c''"
      using ih by blast
    have "mirror_head src orig = Head j" using j(1) by (simp add: mirror_head_def)
    then have "recover_origins src tables (orig # origins) heads c =
        Some (Inr (heads_after src (self c) (orig # origins) heads, c''))"
      unfolding step heads_after_Cons using y(1) False same(2) by simp
    moreover have "replayed tables (\<Union>o' \<in> set (orig # origins). payloads (unread src c o')) (xs @ ys) c c''"
      using replayed_trans [OF x(2) y(2)] same(3) by simp
    ultimately show ?thesis by blast
  qed
qed

definition unread_changesets :: "mirror_source \<Rightarrow> cache \<Rightarrow> changeset set" where
  "unread_changesets src c = (\<Union>orig \<in> set (mOrigins src). payloads (unread src c orig))"

lemma recover_mirror_run:
  assumes "fronts_ok c" and "mirrors_ok src c"
  obtains xs c' where "replayed tables (unread_changesets src c) xs c c'"
    "RecoverMirror c src tables = Some (Inr (heads_after src (self c) (mOrigins src) Map.empty, c'))"
  using recover_origins_run [OF assms(1), where src = src and origins = "mOrigins src" and tables = tables and heads = Map.empty] assms(2)
  unfolding unread_changesets_def RecoverMirror_def by auto

text \<open>A mirror source with two origins, each with one changeset that deletes a row.\<close>

definition sample_cs :: "origin \<Rightarrow> changeset" where
  "sample_cs orig = projr (Build (Dot orig 1) (Stamp (Clock 5 0) orig) Mapping.empty 5 [Delete 1 [7] 2])"

definition mirror_entry :: "changeset \<Rightarrow> entry" where
  "mirror_entry cs = \<lparr>eKind = KindMirror, eHLC = 9, eOrigin = DotOrigin (csDot cs), eSchemaSeq = 0, ePayload = encoded cs\<rparr>"

definition sample_log :: "changeset \<Rightarrow> journal" where
  "sample_log cs = the (push_entry sample_fresh (mirror_entry cs) (new_journal sample_fresh 2048))"

definition sample_mirrors :: mirror_source where
  "sample_mirrors = \<lparr>mOrigins = [2, 3], mJournal = (\<lambda>orig. Inr (sample_log (sample_cs orig)))\<rparr>"

lemma sample_cs:
  "csDot (sample_cs orig) = Dot orig 1" "csStamp (sample_cs orig) = Stamp (Clock 5 0) orig"
  "csRecords (sample_cs orig) = [Delete 1 [7] 2]" "Decode (encoded (sample_cs orig)) = Inr (sample_cs orig)"
  "entry_fits (mirror_entry (sample_cs orig))"
proof -
  have uv: "AppendUvarint v = [ucast v]" if "v < 128" for v
    using that by (simp add: AppendUvarint.simps [of v] not_le)
  let ?st = "Stamp (Clock 5 0) orig" and ?rs = "[Delete 1 [7] 2]"
  have ok: "list_all record_ok ?rs" "slice_ok (encodeRecords ?rs)"
    by (simp_all add: record_ok_def slice_ok_def encodeRecords_def encodeRecord_def Let_def uv u64_len_def)
  have b: "\<exists>cs. Build (Dot orig 1) ?st Mapping.empty 5 ?rs = Inr cs \<and> csDot cs = Dot orig 1 \<and> csStamp cs = ?st \<and>
      csRecords cs = ?rs \<and> length (encoded cs) < 200"
    by (simp add: Build_def encodeChangeset_def Pack_packable packable_def clockMaxWall_def clockMaxLogical_def
        Mapping.size_def sealFrame_def encodeHeader_def encodeRecords_def encodeRecord_def Let_def uv u64_len_def
        encodeDeps_def changesetHeaderLen_def ordered_keys_def keys_empty split: prod.splits)
  then show "csDot (sample_cs orig) = Dot orig 1" "csStamp (sample_cs orig) = ?st" "csRecords (sample_cs orig) = ?rs"
    by (auto simp: sample_cs_def)
  show "Decode (encoded (sample_cs orig)) = Inr (sample_cs orig)"
    using b Build_Decode [OF _ ok, of "Dot orig 1" ?st Mapping.empty 5] by (auto simp: sample_cs_def)
  have "length (encoded (sample_cs orig)) < 200" using b by (auto simp: sample_cs_def)
  then show "entry_fits (mirror_entry (sample_cs orig))"
    by (simp add: entry_fits_def mirror_entry_def kinds recordTotalLen_def)
qed

lemma tail_from_start:
  assumes "jrep j xs"
  shows "journal_tail j 0 = xs"
proof -
  obtain logs where l: "jbase j logs" "\<forall>rs \<in> set (butlast logs). is_sealed rs" "xs = concat (map visible logs)"
    using assms by (auto simp: jrep_def)
  have segs: "segs_ok j logs" "\<not> is_sealed (last logs)" using l(1) by (simp_all add: jbase_def)
  obtain s ss where s: "jSegments j = s # ss" using segs(1) by (cases "jSegments j") (auto simp: segs_ok_def)
  have "0 < length logs" using segs(1) by (auto simp: segs_ok_def)
  then have "Iterate j (AlignResume j 0) = Iterate j 0"
    using Iterate_log_pos [OF segs(1), of 0 0] by (simp add: AlignResume_def s Iterate_def [of j 0] log_pos_def)
  then show ?thesis using collect_all [OF segs] l(2,3) by (simp add: journal_tail_def readable_all)
qed

lemma sample_log:
  assumes "entry_fits (mirror_entry cs)" and "Decode (encoded cs) = Inr cs"
  obtains logs r where "jbase (sample_log cs) logs" "journal_tail (sample_log cs) 0 = [r]" "mirror_payload r = Some cs"
    "readable logs = [r]" "RHLC r = 9"
proof -
  note new = open_new [OF sample_entry_fits(2), of sample_fresh]
  have "jrep (new_journal sample_fresh 2048) []" using new(2) by (auto simp: jrep_def visible_def intro!: exI [of _ "[[]]"])
  then obtain j r where j: "push_entry sample_fresh (mirror_entry cs) (new_journal sample_fresh 2048) = Some j"
    "jrep j ([] @ [r])" "same_entry (mirror_entry cs) r"
    using journal_log.push [of "new_journal sample_fresh 2048" "[]" "mirror_entry cs" sample_fresh] assms(1) new(3) by auto
  have "sample_log cs = j" using j(1) by (simp add: sample_log_def)
  moreover obtain logs where "jbase j logs" "readable logs = [r]" using j(2) by (auto simp: jrep_def readable_all)
  moreover have r: "RKind r = KindMirror" "RPayload r = encoded cs" "RFlags r = 0" "RHLC r = 9"
    using j(3) unfolding same_entry_def by (metis entry_record_def mirror_entry_def journal_record.select_convs entry.select_convs)+
  moreover have "mirror_payload r = Some cs" using assms(2) r by (simp add: mirror_payload_def Aborted_def)
  ultimately show ?thesis using that tail_from_start [OF j(2)] by simp
qed

lemma sample_unread:
  assumes "orig \<noteq> self c" and "snapshotMarkers c = Map.empty" and "mJournal src orig = Inr (sample_log (sample_cs orig))"
  shows "payloads (unread src c orig) = {sample_cs orig}"
    and "\<exists>logs. jbase (sample_log (sample_cs orig)) logs" and "\<forall>rec \<in> set (unread src c orig). mirror_ok orig rec"
proof -
  obtain logs r where r: "jbase (sample_log (sample_cs orig)) logs" "journal_tail (sample_log (sample_cs orig)) 0 = [r]"
    "mirror_payload r = Some (sample_cs orig)"
    using sample_log [OF sample_cs(5,4)] by blast
  then have u: "unread src c orig = [r]" using assms by (simp add: unread_def SnapshotMarker_def seq_at_def)
  show "payloads (unread src c orig) = {sample_cs orig}" using r(3) by (simp add: u payloads_def)
  show "\<exists>logs. jbase (sample_log (sample_cs orig)) logs" using r(1) by blast
  show "\<forall>rec \<in> set (unread src c orig). mirror_ok orig rec"
    using r(3) by (auto simp: u mirror_ok_def mirror_payload_def sample_cs(1) split: if_splits sum.splits)
qed

lemma NewCache_fronts: "fronts_ok (NewCache s)"
  using cache_inv_New by (simp add: fronts_ok_def cache_inv_def)



section \<open>The physical journals do not matter\<close>

definition changes :: "changeset list \<Rightarrow> (stamp \<times> dml_record) list" where
  "changes xs = concat (map (\<lambda>cs. map (Pair (csStamp cs)) (csRecords cs)) xs)"

lemma RowState_mark [simp]: "RowState (markAppliedLocked c orig seq hlc) t p = RowState c t p"
  by (simp add: markApplied_fields RowState_def)

lemma fold_Pair: "fold (\<lambda>(s, r). f s r) (map (Pair s) rs) c = fold (f s) rs c"
  by (induction rs arbitrary: c) simp_all

lemma replayMirror_rows:
  "RowState (fold (replayMirror tables) xs c) t p = RowState (fold (\<lambda>(s, r). replayRecord tables s r) (changes xs) c) t p"
proof (induction xs arbitrary: c)
  case (Cons cs xs)
  have "RowState (replayMirror tables cs c) t p =
      RowState (fold (\<lambda>(s, r). replayRecord tables s r) (map (Pair (csStamp cs)) (csRecords cs)) c) t p"
    by (simp add: replayMirror_def MarkApplied_def fold_Pair)
  then show ?case using Cons [of "replayMirror tables cs c"] by (simp add: changes_def replay_fold_row)
qed (simp add: changes_def)

lemma replayed_all:
  assumes "replayed tables P xs c c'" and "inj_on csDot P"
  shows "set xs = {cs \<in> P. fresh_cs c cs}"
proof -
  have sub: "set xs \<subseteq> {cs \<in> P. fresh_cs c cs}" and im: "csDot ` {cs \<in> P. fresh_cs c cs} \<subseteq> csDot ` set xs"
    using assms(1) unfolding replayed_def by blast+
  have "cs \<in> set xs" if "cs \<in> P" "fresh_cs c cs" for cs
  proof -
    obtain cs' where "cs' \<in> set xs" "csDot cs' = csDot cs" using im \<open>cs \<in> P\<close> \<open>fresh_cs c cs\<close> by fastforce
    then show ?thesis using sub assms(2) \<open>cs \<in> P\<close> by (metis (no_types, lifting) inj_onD mem_Collect_eq subsetD)
  qed
  then show ?thesis using sub by blast
qed



section \<open>Blob patches in a mirror journal\<close>

text \<open>
  C6: Replaying a mirrored blob patch advances the clock of the whole row. A patch arbitrates per
  byte range and leaves the row clock alone, which is how the node's own log is replayed; mirror
  recovery has no such exception. After it the row's base stamp is that of the patch, so a write to
  the row that any node without a restart admits, newer than the row but older than the patch, is
  refused on the recovered node.
\<close>

theorem mirror_blob_patch_inflates:
  assumes "csRecords cs = [BlobPatch t p cl col ranges]" and "DominatedBy (RowState c t p) cl (csStamp cs)"
  shows "CL (RowState (replayMirror tables cs c) t p) = cl \<and> Base (RowState (replayMirror tables cs c) t p) = csStamp cs \<and>
    (\<forall>s. s \<le> csStamp cs \<longrightarrow> \<not> DominatedBy (RowState (replayMirror tables cs c) t p) cl s) \<and>
    RowState (replaySelf tables cs c) t p = RowState c t p"
proof -
  let ?c = "replayRecord tables (csStamp cs) (BlobPatch t p cl col ranges) c"
  have "CL (RowState ?c t p) = cl \<and> Base (RowState ?c t p) = csStamp cs"
    using assms(2) by (auto simp: replayRecord_row row_replay_def row_plain_def row_put_def RowDominates_def DominatedBy_def baseline_def split: option.split)
  then show ?thesis using assms(1)
    by (auto simp: replayMirror_def MarkApplied_def replaySelf_def DominatedBy_def)
qed

theorem mirror_blob_patch_inflates_witness:
  "let c = fst (PutRowState (NewCache 1) 1 [7] (zero_row\<lparr>CL := 1, Base := Stamp (Clock 2 0) 2\<rparr>));
       cs = \<lparr>csDot = Dot 2 3, csStamp = Stamp (Clock 9 0) 2, csDeps = Mapping.empty, csClusterID = 5,
         csRecords = [BlobPatch 1 [7] 1 4 []], encoded = [], csCRC = 0\<rparr>
   in DominatedBy (RowState c 1 [7]) 1 (Stamp (Clock 5 0) 3) \<and>
     \<not> DominatedBy (RowState (replayMirror None cs c) 1 [7]) 1 (Stamp (Clock 5 0) 3) \<and>
     DominatedBy (RowState (replaySelf None cs c) 1 [7]) 1 (Stamp (Clock 5 0) 3)"
proof -
  let ?c = "fst (PutRowState (NewCache 1) 1 [7] (zero_row\<lparr>CL := 1, Base := Stamp (Clock 2 0) 2\<rparr>))"
  let ?cs = "\<lparr>csDot = Dot 2 3, csStamp = Stamp (Clock 9 0) 2, csDeps = Mapping.empty, csClusterID = 5,
         csRecords = [BlobPatch 1 [7] 1 4 []], encoded = [], csCRC = 0\<rparr> :: changeset"
  have row: "RowState ?c 1 [7] = zero_row\<lparr>CL := 1, Base := Stamp (Clock 2 0) 2\<rparr>"
    by (simp add: PutRowState_def Let_def RowState_def NewCache_def zero_row_def)
  have lt: "Dominates (Stamp (Clock 9 0) 2) (Stamp (Clock 2 0) 2)" "Dominates (Stamp (Clock 5 0) 3) (Stamp (Clock 2 0) 2)"
    "Stamp (Clock 5 0) 3 \<le> Stamp (Clock 9 0) 2"
    unfolding less_eq_stamp_def Dominates_def Clock_Less_def by simp_all
  then have dom: "DominatedBy (RowState ?c 1 [7]) 1 (Stamp (Clock 9 0) 2)" "DominatedBy (RowState ?c 1 [7]) 1 (Stamp (Clock 5 0) 3)"
    by (simp_all add: row DominatedBy_def)
  show ?thesis using mirror_blob_patch_inflates [of ?cs 1 "[7]" 1 4 "[]" ?c None] dom lt(3)
    by (simp add: Let_def)
qed

section \<open>The node's own log\<close>

definition self_payload :: "journal_record \<Rightarrow> changeset option" where
  "self_payload rec = (if RHLC rec = 0 then None else mirror_payload rec)"

definition is_legacy :: "journal_record \<Rightarrow> bool" where
  "is_legacy rec \<longleftrightarrow> RKind rec = KindMirror \<and> \<not> Aborted rec \<and> RHLC rec = 0"

text \<open>What a node's own log holds: its changesets, all decodable, below the last sequence number.\<close>

definition self_ok :: "origin \<Rightarrow> journal_record \<Rightarrow> bool" where
  "self_ok me rec \<longleftrightarrow> RKind rec \<noteq> KindMirror \<or> Aborted rec \<or> RHLC rec = 0 \<or>
     (case Decode (RPayload rec) of Inl e \<Rightarrow> False
      | Inr cs \<Rightarrow> DotOrigin (csDot cs) = me \<and> DotSeq (csDot cs) < - 1)"

definition blob_step :: "(cache \<Rightarrow> changeset \<Rightarrow> 'b \<Rightarrow> 'b result) option \<Rightarrow> cache \<Rightarrow> changeset \<Rightarrow> 'b \<Rightarrow> 'b result" where
  "blob_step blobs c cs b = (case blobs of None \<Rightarrow> Inr b | Some replay \<Rightarrow> replay c cs b)"

definition observe :: "cell_tables option \<Rightarrow> origin \<Rightarrow> changeset \<Rightarrow> cache \<Rightarrow> cache" where
  "observe tables me cs c =
     replaySelf tables cs (ObserveHLC (ObserveSelfSeq c me (DotSeq (csDot cs))) (StampClock (csStamp cs)))"

definition captured :: "journal_record list \<Rightarrow> changeset list" where
  "captured rs = List.map_filter self_payload rs"

definition end_offsets :: "journal_record list \<Rightarrow> u64 list" where
  "end_offsets rs = map RHLC (filter (\<lambda>rec. self_payload rec \<noteq> None) rs)"

lemma max_if: "(if b > a then b else a) = max a (b :: 'a :: linorder)"
  by (auto simp: max_def)

lemma self_step:
  assumes "self_ok me rec" and "\<forall>c cs b. \<exists>b'. blob_step blobs c cs b = Inr b'"
  obtains b' where "self_record tables blobs me rec st = Inr (case self_payload rec of
      None \<Rightarrow> st\<lparr>ssLegacy := ssLegacy st + (if is_legacy rec then 1 else 0)\<rparr>
    | Some cs \<Rightarrow> st\<lparr>ssCache := observe tables me cs (ssCache st), ssBlobs := b',
        ssMaxSeq := max (ssMaxSeq st) (DotSeq (csDot cs)), ssMarker := max (ssMarker st) (RHLC rec)\<rparr>)"
proof (cases "self_payload rec")
  case None
  then have "self_record tables blobs me rec st = Inr (st\<lparr>ssLegacy := ssLegacy st + (if is_legacy rec then 1 else 0)\<rparr>)"
    using assms(1) by (auto simp: self_payload_def mirror_payload_def self_record_def is_legacy_def self_ok_def
        split: if_splits sum.splits)
  then show ?thesis using that None by simp
next
  case (Some cs)
  then have d: "RHLC rec \<noteq> 0" "RKind rec = KindMirror" "\<not> Aborted rec" "Decode (RPayload rec) = Inr cs"
    by (auto simp: self_payload_def mirror_payload_def split: if_splits sum.splits)
  let ?c = "ObserveHLC (ObserveSelfSeq (ssCache st) me (DotSeq (csDot cs))) (StampClock (csStamp cs))"
  obtain b' where "blob_step blobs ?c cs (ssBlobs st) = Inr b'" using assms(2) by blast
  then show ?thesis using that [of b'] d assms(1) Some
    by (simp add: self_record_def self_ok_def blob_step_def observe_def Let_def max_if)
qed

lemma self_fold:
  "\<forall>rec \<in> set rs. self_ok me rec \<Longrightarrow> \<forall>c cs b. \<exists>b'. blob_step blobs c cs b = Inr b' \<Longrightarrow>
    \<exists>st'. foldE (self_record tables blobs me) rs st = Inr st' \<and>
      ssCache st' = fold (observe tables me) (captured rs) (ssCache st) \<and>
      ssMaxSeq st' = fold (\<lambda>cs m. max m (DotSeq (csDot cs))) (captured rs) (ssMaxSeq st) \<and>
      ssLegacy st' = ssLegacy st + length (filter is_legacy rs) \<and>
      ssMarker st' = fold (\<lambda>x m. max m x) (end_offsets rs) (ssMarker st)"
proof (induction rs arbitrary: st)
  case (Cons rec rs)
  obtain b' where step: "self_record tables blobs me rec st = Inr (case self_payload rec of
      None \<Rightarrow> st\<lparr>ssLegacy := ssLegacy st + (if is_legacy rec then 1 else 0)\<rparr>
    | Some cs \<Rightarrow> st\<lparr>ssCache := observe tables me cs (ssCache st), ssBlobs := b',
        ssMaxSeq := max (ssMaxSeq st) (DotSeq (csDot cs)), ssMarker := max (ssMarker st) (RHLC rec)\<rparr>)"
    using self_step [of me rec blobs tables st] Cons.prems by auto
  have leg: "self_payload rec = Some cs \<Longrightarrow> \<not> is_legacy rec" for cs by (auto simp: self_payload_def is_legacy_def)
  have tl: "\<forall>rec \<in> set rs. self_ok me rec" using Cons.prems(1) by simp
  show ?case
  proof (cases "self_payload rec")
    case None
    then show ?thesis
      using Cons.IH [OF tl Cons.prems(2), of "st\<lparr>ssLegacy := ssLegacy st + (if is_legacy rec then 1 else 0)\<rparr>"] step
      by (cases "is_legacy rec") (simp_all add: captured_def map_filter_simps end_offsets_def)
  next
    case (Some cs)
    then show ?thesis
      using Cons.IH [OF tl Cons.prems(2), of "st\<lparr>ssCache := observe tables me cs (ssCache st), ssBlobs := b',
          ssMaxSeq := max (ssMaxSeq st) (DotSeq (csDot cs)), ssMarker := max (ssMarker st) (RHLC rec)\<rparr>"] step leg [OF Some]
      by (simp add: captured_def map_filter_simps end_offsets_def)
  qed
qed (simp add: captured_def map_filter_simps end_offsets_def)

fun is_blob :: "dml_record \<Rightarrow> bool" where
  "is_blob (BlobPatch _ _ _ _ _) = True"
| "is_blob _ = False"

lemma replaySelf_filter:
  "replaySelf tables cs c = fold (replayRecord tables (csStamp cs)) (filter (\<lambda>r. \<not> is_blob r) (csRecords cs)) c"
proof -
  have "fold (\<lambda>r c. case r of BlobPatch _ _ _ _ _ \<Rightarrow> c | _ \<Rightarrow> replayRecord tables s r c) rs c =
      fold (replayRecord tables s) (filter (\<lambda>r. \<not> is_blob r) rs) c" for s rs
  proof (induction rs arbitrary: c)
    case (Cons r rs)
    then show ?case by (cases r) simp_all
  qed simp
  then show ?thesis by (simp add: replaySelf_def)
qed

lemma clocks_only_self: "clocks_only c (replaySelf tables cs c)"
  unfolding replaySelf_filter by (intro clocks_only_fold clocks_only_replay)

lemma observe_fields:
  "seq_at (senderNextSeq (observe tables me cs c)) me = max (seq_at (senderNextSeq c) me) (DotSeq (csDot cs) + 1)"
  "hlcLast (observe tables me cs c) = max (hlcLast c) (StampClock (csStamp cs))"
  "self (observe tables me cs c) = self c" "snapshotMarkers (observe tables me cs c) = snapshotMarkers c"
proof -
  let ?c = "ObserveHLC (ObserveSelfSeq c me (DotSeq (csDot cs))) (StampClock (csStamp cs))"
  note same = clocks_only_same [OF clocks_only_self [of ?c tables cs], folded observe_def]
  show "seq_at (senderNextSeq (observe tables me cs c)) me = max (seq_at (senderNextSeq c) me) (DotSeq (csDot cs) + 1)"
    by (auto simp: same ObserveHLC_def ObserveSelfSeq_def Let_def seq_at_def max_def)
  show "hlcLast (observe tables me cs c) = max (hlcLast c) (StampClock (csStamp cs))"
    by (auto simp: same ObserveHLC_def ObserveSelfSeq_def Let_def max_def)
  show "self (observe tables me cs c) = self c" "snapshotMarkers (observe tables me cs c) = snapshotMarkers c"
    by (simp_all add: same ObserveHLC_def ObserveSelfSeq_def Let_def)
qed

lemma fold_observe:
  "seq_at (senderNextSeq (fold (observe tables me) xs c)) me =
    fold (\<lambda>cs m. max m (DotSeq (csDot cs) + 1)) xs (seq_at (senderNextSeq c) me)"
  "hlcLast (fold (observe tables me) xs c) = fold (\<lambda>cs m. max m (StampClock (csStamp cs))) xs (hlcLast c)"
  "self (fold (observe tables me) xs c) = self c" "snapshotMarkers (fold (observe tables me) xs c) = snapshotMarkers c"
  by (induction xs arbitrary: c) (simp_all add: observe_fields)

lemma fold_max:
  fixes m :: "'a :: linorder"
  shows "fold (\<lambda>x m. max m (f x)) xs m = Max (insert m (f ` set xs))"
proof (induction xs arbitrary: m)
  case (Cons x xs)
  then show ?case by (cases "xs = []") (simp_all add: max.assoc)
qed simp

lemma fold_max_again:
  fixes m :: "'a :: linorder"
  shows "fold (\<lambda>x m. max m (f x)) xs (fold (\<lambda>x m. max m (f x)) xs m) = fold (\<lambda>x m. max m (f x)) xs m"
  unfolding fold_max by (cases "xs = []") (simp_all add: max.commute max.left_commute)

lemma fold_max_le:
  fixes m :: "'a :: linorder"
  shows "m \<le> fold (\<lambda>x m. max m (f x)) xs m" and "x \<in> set xs \<Longrightarrow> f x \<le> fold (\<lambda>x m. max m (f x)) xs m"
  unfolding fold_max by simp_all

definition self_changes :: "changeset list \<Rightarrow> (stamp \<times> dml_record) list" where
  "self_changes xs = concat (map (\<lambda>cs. map (Pair (csStamp cs)) (filter (\<lambda>r. \<not> is_blob r) (csRecords cs))) xs)"

lemma observe_rows:
  "RowState (fold (observe tables me) xs c) t p =
    RowState (fold (\<lambda>(s, r). replayRecord tables s r) (self_changes xs) c) t p"
proof (induction xs arbitrary: c)
  case (Cons cs xs)
  let ?c = "ObserveHLC (ObserveSelfSeq c me (DotSeq (csDot cs))) (StampClock (csStamp cs))"
  let ?rs = "map (Pair (csStamp cs)) (filter (\<lambda>r. \<not> is_blob r) (csRecords cs))"
  have "RowState ?c t p = RowState c t p" by (simp add: RowState_def ObserveHLC_def ObserveSelfSeq_def Let_def)
  moreover have "observe tables me cs c = fold (\<lambda>(s, r). replayRecord tables s r) ?rs ?c"
    by (simp only: observe_def replaySelf_filter fold_Pair)
  ultimately have "RowState (observe tables me cs c) t p = RowState (fold (\<lambda>(s, r). replayRecord tables s r) ?rs c) t p"
    by (simp only: replay_fold_row)
  then show ?case using Cons [of "observe tables me cs c"] by (simp add: self_changes_def replay_fold_row)
qed (simp add: self_changes_def)

lemma self_scan_run:
  assumes "jbase j logs"
  shows "journal_scan step (Head j) j (Iterate j 0) st = Some (foldE step (readable logs) st)"
proof -
  have segs: "segs_ok j logs" "\<not> is_sealed (last logs)" using assms by (simp_all add: jbase_def)
  then have len: "0 < length logs" "jSegments j \<noteq> []" by (auto simp: segs_ok_def)
  then have "Iterate j 0 = log_pos j logs 0 0" by (cases "jSegments j") (simp_all add: Iterate_def log_pos_def)
  then show ?thesis using scan_collect [OF assms len(1), of 0 step] collect_all [OF segs] by auto
qed

text \<open>The last sequence number the node handed out, and every later one, is missing from the log.\<close>

definition uncaptured :: "cache \<Rightarrow> journal_record list \<Rightarrow> bool" where
  "uncaptured c rs \<longleftrightarrow> (\<forall>rec \<in> set rs. \<not> is_legacy rec) \<and> 1 < SenderNextSeq c (self c) \<and>
     (\<forall>cs \<in> set (captured rs). DotSeq (csDot cs) + 1 < SenderNextSeq c (self c))"

lemma seq_Suc: "s < - 1 \<Longrightarrow> unat (s + 1 :: seq) = unat s + 1"
proof -
  assume "s < - 1"
  then have "unat s < 2 ^ 64 - 1" by (simp add: word_less_nat_alt unsigned_minus_1_eq_mask mask_eq_exp_minus_1)
  then show ?thesis by (simp add: unat_word_ariths)
qed

lemma seq_less_Suc: "s < - 1 \<Longrightarrow> s < s + (1 :: seq)"
  by (simp add: word_less_nat_alt seq_Suc)

lemma seq_less_minus:
  assumes "s < - 1" and "1 < (n :: seq)"
  shows "s < n - 1 \<longleftrightarrow> s + 1 < n"
proof -
  have "n \<noteq> 0" using assms(2) by auto
  then have "unat (n - 1) = unat n - 1" by (rule unat_minus_one)
  then show ?thesis using assms(2) seq_Suc [OF assms(1)] by (auto simp: word_less_nat_alt)
qed

lemma recover_self_run:
  assumes base: "jbase j logs" and ok: "\<forall>rec \<in> set (readable logs). self_ok (self c) rec"
    and blobs: "\<forall>c cs b. \<exists>b'. blob_step blobs c cs b = Inr b'"
  defines "xs \<equiv> captured (readable logs)" and "mark \<equiv> fold (\<lambda>x m. max m x) (end_offsets (readable logs)) (SnapshotMarker c (self c))"
  shows "\<exists>b'. RecoverSelf c j tables blobs b =
    Some (if uncaptured c (readable logs)
          then Inl (ErrSelfLogUncaptured (fold (\<lambda>cs m. max m (DotSeq (csDot cs))) xs 0) (SenderNextSeq c (self c)))
          else Inr (SetSnapshotMarker (fold (observe tables (self c)) xs c) (self c) mark, b'))"
proof -
  let ?st = "\<lparr>ssCache = c, ssBlobs = b, ssMaxSeq = 0, ssLegacy = 0, ssMarker = SnapshotMarker c (self c)\<rparr>"
  let ?m = "fold (\<lambda>cs m. max m (DotSeq (csDot cs))) xs 0"
  obtain st' where st': "foldE (self_record tables blobs (self c)) (readable logs) ?st = Inr st'"
    "ssCache st' = fold (observe tables (self c)) xs c" "ssMaxSeq st' = ?m"
    "ssLegacy st' = length (filter is_legacy (readable logs))" "ssMarker st' = mark"
    using self_fold [OF ok blobs, of tables ?st] by (auto simp: xs_def mark_def)
  have small: "DotSeq (csDot cs) < - 1" if "cs \<in> set xs" for cs
    using that ok by (auto simp: xs_def captured_def map_filter_def self_payload_def mirror_payload_def self_ok_def
        split: if_splits sum.splits)
  have "?m < n - 1 \<longleftrightarrow> (\<forall>cs \<in> set xs. DotSeq (csDot cs) + 1 < n)" if n: "1 < n" for n
  proof -
    have "(0 :: seq) < n - 1" using n by (auto simp: word_greater_zero_iff)
    moreover have "DotSeq (csDot cs) < n - 1 \<longleftrightarrow> DotSeq (csDot cs) + 1 < n" if "cs \<in> set xs" for cs
      using small [OF that] n by (rule seq_less_minus)
    ultimately show ?thesis by (auto simp: fold_max)
  qed
  then have "ssLegacy st' = 0 \<and> SenderNextSeq c (self c) > 1 \<and> ssMaxSeq st' < SenderNextSeq c (self c) - 1 \<longleftrightarrow>
      uncaptured c (readable logs)"
    by (auto simp: st' uncaptured_def xs_def filter_empty_conv)
  then show ?thesis
    by (auto simp: RecoverSelf_def Let_def self_scan_run [OF base] st' self_finish_def)
qed

text \<open>The cache a successful run leaves, as a function of the log.\<close>

definition self_after :: "cell_tables option \<Rightarrow> journal_record list \<Rightarrow> cache \<Rightarrow> cache" where
  "self_after tables rs c = SetSnapshotMarker (fold (observe tables (self c)) (captured rs) c) (self c)
     (fold (\<lambda>x m. max m x) (end_offsets rs) (SnapshotMarker c (self c)))"

lemma self_after_fields:
  "self (self_after tables rs c) = self c"
  "seq_at (senderNextSeq (self_after tables rs c)) (self c) =
    fold (\<lambda>cs m. max m (DotSeq (csDot cs) + 1)) (captured rs) (seq_at (senderNextSeq c) (self c))"
  "hlcLast (self_after tables rs c) = fold (\<lambda>cs m. max m (StampClock (csStamp cs))) (captured rs) (hlcLast c)"
  "SnapshotMarker (self_after tables rs c) (self c) = fold (\<lambda>x m. max m x) (end_offsets rs) (SnapshotMarker c (self c))"
  "RowState (self_after tables rs c) t p = RowState (fold (\<lambda>(s, r). replayRecord tables s r) (self_changes (captured rs)) c) t p"
  unfolding observe_rows [of tables "self c", symmetric]
  by (simp_all add: self_after_def SetSnapshotMarker_def SnapshotMarker_def seq_at_def RowState_def
      fold_observe [unfolded seq_at_def])

lemma self_after_twice:
  "SenderNextSeq (self_after tables rs (self_after tables rs c)) (self c) = SenderNextSeq (self_after tables rs c) (self c)"
  "hlcLast (self_after tables rs (self_after tables rs c)) = hlcLast (self_after tables rs c)"
  "SnapshotMarker (self_after tables rs (self_after tables rs c)) (self c) = SnapshotMarker (self_after tables rs c) (self c)"
proof -
  let ?c = "self_after tables rs c"
  note again = self_after_fields [of tables rs ?c, unfolded self_after_fields(1)]
  show "SenderNextSeq (self_after tables rs ?c) (self c) = SenderNextSeq ?c (self c)"
    by (simp only: SenderNextSeq_def again(2) self_after_fields(2) fold_max_again)
  show "hlcLast (self_after tables rs ?c) = hlcLast ?c"
    by (simp only: again(3) self_after_fields(3) fold_max_again)
  show "SnapshotMarker (self_after tables rs ?c) (self c) = SnapshotMarker ?c (self c)"
    by (simp only: again(4) self_after_fields(4) fold_max_again [of "\<lambda>x. x"])
qed

lemma self_after_rows:
  assumes "\<forall>cs \<in> set (captured rs). zero_stamp \<le> csStamp cs \<and> (\<forall>r \<in> set (csRecords cs). is_blob r \<or> replay_ok tables r)"
    and "row_inv (cellGroupTable tables t \<noteq> None) (RowState c t p)"
  shows "row_view (table_columns tables t) (RowState (self_after tables rs (self_after tables rs c)) t p) =
    row_view (table_columns tables t) (RowState (self_after tables rs c) t p)"
proof -
  let ?xs = "self_changes (captured rs)"
  have "\<forall>(s, r) \<in> set (?xs @ ?xs). replay_ok tables r \<and> zero_stamp \<le> s"
    using assms(1) by (auto simp: self_changes_def)
  then have "row_view (table_columns tables t) (RowState (fold (\<lambda>(s, r). replayRecord tables s r) (?xs @ ?xs) c) t p) =
      row_view (table_columns tables t) (RowState (fold (\<lambda>(s, r). replayRecord tables s r) ?xs c) t p)"
    using assms(2) by (intro replay_converges) simp_all
  then show ?thesis by (simp add: self_after_fields(5) replay_fold_row)
qed

lemma self_after_captured:
  assumes "\<not> uncaptured c rs"
  shows "\<not> uncaptured (self_after tables rs c) rs"
proof
  let ?s = "seq_at (senderNextSeq (self_after tables rs c)) (self c)"
  assume u: "uncaptured (self_after tables rs c) rs"
  then have u': "\<forall>rec \<in> set rs. \<not> is_legacy rec" "1 < SenderNextSeq (self_after tables rs c) (self c)"
    "\<forall>cs \<in> set (captured rs). DotSeq (csDot cs) + 1 < SenderNextSeq (self_after tables rs c) (self c)"
    by (simp_all add: uncaptured_def self_after_fields)
  have "?s \<in> insert (seq_at (senderNextSeq c) (self c)) ((\<lambda>cs. DotSeq (csDot cs) + 1) ` set (captured rs))"
    unfolding self_after_fields fold_max by (intro Max_in) simp_all
  moreover have "SenderNextSeq (self_after tables rs c) (self c) = ?s"
    using u'(2) by (auto simp: SenderNextSeq_def Let_def split: if_splits)
  ultimately have "?s = seq_at (senderNextSeq c) (self c)" using u'(3) by auto
  then show False using assms u' by (simp add: uncaptured_def SenderNextSeq_def)
qed



end
