(* ===== verification/Spec2Isabelle.thy ===== *)
theory Spec2Isabelle
  imports Cell_Group Key_Tuple Anti_Entropy Snapshot_Cycle Recovery
begin

text \<open>
  Syzy replicates SQLite and PostgreSQL databases between writers that never block on each other.
  Every committed transaction becomes a changeset with a dot (origin and sequence number) and a stamp
  of a hybrid logical clock; receivers arbitrate row by row, column by column or byte range by byte
  range, whatever the order of delivery. Origins exchange changesets through transports, repair gaps
  by asking peers for ranges, keep what they receive in mirror journals and their clocks in a
  metadata store, and rebuild the state of the node from both after a restart. This development
  models that replication core, under \<open>crdt/\<close>, \<open>catalog/\<close>, \<open>transport/\<close> and \<open>internal/\<close>.

  \<^bold>\<open>Shared parts.\<close> \<open>Prelude\<close> holds the machine integers, the error values and the sequencing of fallible
  steps; \<open>Bytes\<close> the fixed-width and varint codecs and the interfaces \<open>codec\<close> (what an encoder and its
  decoder promise each other) and \<open>reader\<close> (a parser that consumes input); \<open>Crc64\<close> the checksum of
  \<open>hash/crc64\<close> with its table, and why no change of one byte escapes it; \<open>Convergence\<close> the interface
  \<open>replicated\<close>, from which order and repetition of deliveries stop mattering, and \<open>arbiter\<close>, which gives
  it for last-writer-wins. Each interface is interpreted on the definitions of the components below.

  \<^bold>\<open>The data types\<close> (\<open>src/crdt\<close>). \<open>Identity\<close>: dots, clocks, stamps and their packing (\<open>identity.go\<close>).
  \<open>Causal\<close>: sequence sets and the contiguous frontier (\<open>causal.go\<close>), with the interface \<open>seq_store\<close> that
  the node state relies on. \<open>Interval\<close>: byte-range clocks (\<open>interval_impl.go\<close>), shown to be a
  last-writer-wins register per byte. \<open>Deps\<close>, \<open>Row_State\<close>, \<open>Changeset\<close>: dependencies, the state of a row and
  the records (\<open>deps.go\<close>, \<open>state.go\<close>, \<open>changeset.go\<close>). \<open>Codec\<close>: the wire format byte for byte
  (\<open>codec.go\<close>): round trip, detection of corruption, and the panic of the decoder on a hostile count.
  \<open>Cell_Group\<close>: per-column writes and counters (\<open>cellgroup.go\<close>). \<open>Unique_Predicate\<close>, \<open>Catalog_Op\<close>,
  \<open>Key_Tuple\<close>: partial-index predicates with IEEE 754 comparison, catalog operations, key tuples
  (\<open>unique_predicate.go\<close>, \<open>collation.go\<close>, \<open>catalog_op.go\<close>, \<open>catalog/tuple.go\<close>).

  \<^bold>\<open>The node\<close> (\<open>src/internal/nodestate\<close>). \<open>Node_State\<close>: the cache with one function per method (\<open>cache.go\<close>),
  its invariant over every reachable state, convergence of deliveries, freshness of sequence numbers
  and clocks. \<open>Meta_Store\<close>, \<open>Snapshot\<close>, \<open>Snapshot_Cycle\<close>: the clock tables (\<open>src/internal/metadata\<close>), the
  incremental snapshot and its interleaving with the running node, rollbacks and restarts
  (\<open>snapshot.go\<close>, \<open>snapshotter.go\<close>): a restart restores the cache. \<open>Anti_Entropy\<close>: the planner of gap
  repair, the chain of fillers and the prober (\<open>src/internal/antientropy\<close>,
  \<open>src/internal/gapfillerchain\<close>, \<open>src/transport/transport.go\<close>).

  \<^bold>\<open>The journal\<close> (\<open>src/internal/journal\<close>). \<open>Journal_Format\<close> and \<open>Journal_Segment\<close>: records and segments, an
  append being the list of stores the code makes, so that a crash may happen between any two
  (\<open>format.go\<close>, \<open>segment.go\<close>). \<open>Journal\<close>: the operations over several segments (\<open>journal.go\<close>).
  \<open>Journal_Log\<close>: the interface \<open>append_log\<close>, which the journal implements, and what a crash inside a
  rotation or a stale resume offset does to a reader.

  \<^bold>\<open>Recovery\<close> (\<open>recover.go\<close>). \<open>Replay\<close>: the clock effect of one replayed record, read on a row as an
  operation of a replicated type. \<open>Recovery\<close>: \<open>RecoverMirror\<close> and \<open>RecoverSelf\<close> on the modelled journals: a
  walk of a journal is a fold over its log, the applied frontier grows by exactly what is found, the
  physical journals do not matter, and a second recovery changes nothing.

  \<^bold>\<open>Conventions.\<close> Integers keep their width as words; wall times and logical clocks are integers with
  the bounds written out. A Go map is a partial function, or a \<open>mapping\<close> where its keys are listed; where
  Go ranges over a map the visiting order is an argument. Panics are error values. Methods that hold
  the mutex are single steps. The schedule, the network, timers and the wall clock are arguments.
  Predicates are read with the code's own limit of 256 nodes. Loops are total functions with a
  measure, except the rebuilding of a stored range, the append, iteration and refresh loops of the
  journal and the recovery loops over it: these are partial functions in which \<open>None\<close> is a loop that does
  not end, and the theorems about them state that they return (or, for a stored range that ends at
  the largest number, that it does not).

  \<^bold>\<open>Not modelled.\<close> The application of records to the application database (\<open>internal/broker\<close>), the
  capture of local writes (\<open>internal/producer\<close>, \<open>internal/syncer\<close>) and the engine bindings (\<open>sqlite/\<close>,
  \<open>sqlitebridge/\<close>, \<open>pg/\<close>) are SQL text and calls into a database engine whose behaviour is not in this
  repository; the clock decisions they take are those of the components above. The other metadata
  tables, the catalog and the schema log are likewise SQL and object-store access. Transports, peer
  discovery, wake-ups, control sockets and object storage are sockets, timers and threads. Of the
  journal, waiting on the publish word, the locks and the flush to disk are left out; of the
  predicates, the rendering to SQL text; of the types, log formatting.
\<close>

end
